(* ===== verification/Prelude.thy ===== *)
theory Prelude
  imports Main "HOL-Library.Word"
begin

text \<open>
  The shared vocabulary of the development: the machine integers of the two crates, the
  \<open>Result\<close> type, the atomic compare-and-exchange of the Rust library, and the word and list
  lemmas that the component theories use. Atomic cells are plain fields of a state record:
  one step of a machine performs at most one access to a shared cell, so that interleaving
  such steps is the sequentially consistent semantics of the code.
\<close>

unbundle bit_operations_syntax

section \<open>Types\<close>

text \<open>\<open>Index\<close> of \<^verbatim>\<open>src/lib.rs\<close> is \<open>u64\<close> on every target with 64-bit atomics, and
  \<open>usize\<close> is 64 bits wide.\<close>

type_synonym index = "64 word"
type_synonym usize = "64 word"

datatype ('a, 'e) rust_result = Ok 'a | Err 'e

fun err :: "('a, 'e) rust_result \<Rightarrow> 'e option" where
  "err (Ok _) = None"
| "err (Err e) = Some e"

fun is_ok :: "('a, 'e) rust_result \<Rightarrow> bool" where
  "is_ok (Ok _) = True"
| "is_ok (Err _) = False"

section \<open>Atomic read-modify-write operations\<close>

text \<open>
  \<open>compare_exchange_weak weak cell current new\<close> returns the new contents of the cell and the
  operation's result. The flag \<open>weak\<close> is the spurious failure that the weak variant is
  allowed; the strong variant is the case \<open>weak = False\<close>.
\<close>

definition compare_exchange_weak ::
    "bool \<Rightarrow> 'v \<Rightarrow> 'v \<Rightarrow> 'v \<Rightarrow> 'v \<times> ('v, 'v) rust_result" where
  "compare_exchange_weak weak cell current new =
     (if \<not> weak \<and> cell = current then (new, Ok cell) else (cell, Err cell))"

definition compare_exchange :: "'v \<Rightarrow> 'v \<Rightarrow> 'v \<Rightarrow> 'v \<times> ('v, 'v) rust_result" where
  "compare_exchange = compare_exchange_weak False"

section \<open>Running a machine alone\<close>

text \<open>
  \<open>run_solo f ret ws s pc\<close> runs the machine with step function \<open>f\<close> without interference
  until \<open>ret\<close> recognises a return. The list \<open>ws\<close> gives the spurious-failure flag of each
  step and bounds their number; \<open>None\<close> means that the machine has not returned by then.
\<close>

fun run_solo :: "(bool \<Rightarrow> 's \<Rightarrow> 'p \<Rightarrow> 's \<times> 'p) \<Rightarrow> ('p \<Rightarrow> 'r option) \<Rightarrow> bool list \<Rightarrow> 's \<Rightarrow> 'p
    \<Rightarrow> ('s \<times> 'r) option" where
  "run_solo f ret [] s pc = (case ret pc of Some r \<Rightarrow> Some (s, r) | None \<Rightarrow> None)"
| "run_solo f ret (w # ws) s pc =
     (case ret pc of
        Some r \<Rightarrow> Some (s, r)
      | None \<Rightarrow> (case f w s pc of (s', pc') \<Rightarrow> run_solo f ret ws s' pc'))"

section \<open>Collections of facts\<close>

named_theorems lap_simps \<open>arithmetic of encoded positions\<close>
named_theorems step_defs \<open>definitions unfolded when a machine step is evaluated\<close>

section \<open>Words\<close>

lemma unat_of_nat_64 [simp]: "unat (of_nat n :: 64 word) = n mod 2 ^ 64"
  by (simp add: unat_of_nat)

lemma of_nat_eq_64_iff: "(of_nat m = (of_nat n :: 64 word)) \<longleftrightarrow> m mod 2 ^ 64 = n mod 2 ^ 64"
  by (metis unat_of_nat_64 word_unat_eq_iff)

lemma and_mask_word: "(w :: 64 word) AND (2 ^ k - 1) = take_bit k w"
  by (simp add: take_bit_eq_mask mask_eq_exp_minus_1)

lemma and_not_mask_word: "(w :: 64 word) AND NOT (2 ^ k - 1) = w - take_bit k w"
proof -
  have "(w AND NOT (mask k)) + (w AND mask k) = (w AND NOT (mask k)) OR (w AND mask k)"
    by (rule disjunctive_add_eq_or) (simp add: bit_eq_iff bit_simps)
  also have "\<dots> = w"
    by (auto simp: bit_eq_iff bit_simps)
  finally show ?thesis
    by (simp add: eq_diff_eq take_bit_eq_mask mask_eq_exp_minus_1)
qed

section \<open>Positional numbers\<close>

lemma digits_eq_iff:
  assumes "r < b" "s < (b :: nat)"
  shows "x * b + r = y * b + s \<longleftrightarrow> r = s \<and> x = y"
proof
  assume e: "x * b + r = y * b + s"
  then have "(x * b + r) mod b = (y * b + s) mod b" "(x * b + r) div b = (y * b + s) div b" by simp_all
  then show "r = s \<and> x = y" using assms by simp
qed simp

lemma code_mod:
  assumes "r < 2 ^ k" "k \<le> (64::nat)"
  shows "(a * 2 ^ k + r) mod 2 ^ 64 = (a mod 2 ^ (64 - k)) * 2 ^ k + (r :: nat)"
proof -
  have e: "(2::nat) ^ 64 = 2 ^ k * 2 ^ (64 - k)" using assms(2) by (simp flip: power_add)
  have "(a * 2 ^ k + r) mod (2 ^ k * 2 ^ (64 - k)) =
      2 ^ k * ((a * 2 ^ k + r) div 2 ^ k mod 2 ^ (64 - k)) + (a * 2 ^ k + r) mod 2 ^ k"
    by (rule mod_mult2_eq)
  then show ?thesis using assms(1) unfolding e by simp
qed

section \<open>Lists\<close>

lemma nth_append_length_eq: "i = length xs \<Longrightarrow> (xs @ [x]) ! i = x"
  by simp

section \<open>Termination of solo runs\<close>

text \<open>
  If every step keeps \<open>I\<close> and a step without spurious failure lowers \<open>m\<close>, then the run
  returns after any finite pattern of spurious failures, in a state that satisfies \<open>I\<close>.
\<close>

lemma run_solo_total:
  assumes init: "I s pc"
    and keep: "\<And>w s pc. I s pc \<Longrightarrow> ret pc = None \<Longrightarrow> case f w s pc of (s', pc') \<Rightarrow> I s' pc'"
    and dec: "\<And>s pc. I s pc \<Longrightarrow> ret pc = None \<Longrightarrow> m (snd (f False s pc)) < (m pc :: nat)"
    and bound: "\<And>s pc. I s pc \<Longrightarrow> m pc \<le> n"
  shows "\<exists>s' pc' r. run_solo f ret (ws @ replicate n False) s pc = Some (s', r) \<and> I s' pc' \<and>
    ret pc' = Some r"
  using init
proof (induction ws arbitrary: s pc)
  case Nil
  have "m pc \<le> j \<Longrightarrow> I s pc \<Longrightarrow> \<exists>s' pc' r. run_solo f ret (replicate j False) s pc = Some (s', r) \<and>
      I s' pc' \<and> ret pc' = Some r" for j
  proof (induction j arbitrary: s pc)
    case 0
    then show ?case using dec [of s pc] by (cases "ret pc") auto
  next
    case (Suc j)
    show ?case
    proof (cases "ret pc")
      case None
      obtain s' pc' where f: "f False s pc = (s', pc')" by fastforce
      then have "m pc' \<le> j" "I s' pc'"
        using dec [OF Suc.prems(2) None] keep [OF Suc.prems(2) None, of False] Suc.prems(1) by auto
      from Suc.IH [OF this] show ?thesis by (simp add: None f)
    qed (use Suc.prems in auto)
  qed
  then show ?case using bound [OF Nil] Nil by simp
next
  case (Cons w ws)
  show ?case
  proof (cases "ret pc")
    case None
    obtain s' pc' where f: "f w s pc = (s', pc')" by fastforce
    then have "I s' pc'" using keep [OF Cons.prems None, of w] by simp
    from Cons.IH [OF this] show ?thesis by (simp add: None f)
  qed (use Cons.prems in auto)
qed

text \<open>Two positions of a window of \<open>N\<close> with the same slot are equal.\<close>

lemma window_mod_inj:
  assumes "h \<le> p" "p < h + N" "h \<le> r" "r < h + N" "p mod N = r mod N"
  shows "p = (r :: nat)"
proof -
  have "p = r" if "p \<le> r" "h \<le> p" "r < h + N" "p mod N = r mod N" for p r :: nat
  proof -
    have "N dvd r - p" using that(1,4) by (metis mod_eq_dvd_iff_nat)
    moreover have "r - p < N" using that(1-3) by linarith
    ultimately have "r - p = 0" using nat_dvd_not_less by blast
    then show ?thesis using that(1) by simp
  qed
  then show ?thesis using assms by (metis nat_le_linear)
qed

end
