(* ===== verification/Lap.thy ===== *)
theory Lap
  imports Prelude
begin

text \<open>
  The index arithmetic of the Vyukov queue (\<^verbatim>\<open>src/src/lib.rs\<close>). A head or tail counter packs
  the lap in its high bits and the slot index in its low bits; \<open>one_lap\<close> is the smallest
  power of two above the capacity, so that the index after the last one rolls into the next lap.
  The theory holds \<open>one_lap_for\<close>, the three expressions the queue computes from a counter
  (\<open>slot_index\<close>, \<open>lap_of\<close>, \<open>advance\<close>), and the encoding \<open>enc\<close> of the position \<open>p\<close> (the \<open>p\<close>-th
  push or pop since construction, counted without bound) as a 64-bit counter. The lemmas show
  that the expressions compute the encoding's components, and that two positions less than
  \<open>2 ^ 63\<close> apart are never confused although the counter wraps around.
\<close>

section \<open>The lap size\<close>

text \<open>\<open>lap *= 2\<close> is checked: an overflow stops the evaluation (\<open>None\<close>), as does a loop that
  never ends.\<close>

definition checked_double :: "index \<Rightarrow> index option" where
  "checked_double w = (if unat w * 2 < 2 ^ 64 then Some (w * 2) else None)"

partial_function (option) one_lap_loop :: "index \<Rightarrow> index \<Rightarrow> index option" where
  "one_lap_loop need lap =
     (if lap < need
      then (case checked_double lap of None \<Rightarrow> None | Some lap' \<Rightarrow> one_lap_loop need lap')
      else Some lap)"

definition one_lap_for :: "index \<Rightarrow> index option" where
  "one_lap_for cap =
     (if unat cap + 1 < 2 ^ 64 then one_lap_loop (cap + 1) 2 else None)"

section \<open>Components of a counter\<close>

definition slot_index :: "index \<Rightarrow> index \<Rightarrow> nat" where
  "slot_index L w = unat (w AND (L - 1))"

definition lap_of :: "index \<Rightarrow> index \<Rightarrow> index" where
  "lap_of L w = w AND NOT (L - 1)"

definition advance :: "nat \<Rightarrow> index \<Rightarrow> index \<Rightarrow> index" where
  "advance N L w = (if slot_index L w + 1 < N then w + 1 else lap_of L w + L)"

section \<open>Positions\<close>

definition lap_ok :: "nat \<Rightarrow> index \<Rightarrow> bool" where
  "lap_ok N L \<longleftrightarrow> 0 < N \<and> (\<exists>k \<le> 62. L = 2 ^ k \<and> N < 2 ^ k \<and> 2 ^ k \<le> 2 * N)"

definition enc :: "nat \<Rightarrow> index \<Rightarrow> nat \<Rightarrow> index" where
  "enc N L p = of_nat (p div N) * L + of_nat (p mod N)"

lemma lap_okE:
  assumes "lap_ok N L"
  obtains k where "k \<le> 62" "L = 2 ^ k" "N < 2 ^ k" "2 ^ k \<le> 2 * N" "0 < N"
  using assms by (auto simp: lap_ok_def)

lemma enc_of_nat: "L = 2 ^ k \<Longrightarrow> enc N L p = of_nat (p div N * 2 ^ k + p mod N)"
  by (simp add: enc_def)

lemma enc_add_lap: "0 < N \<Longrightarrow> enc N L (p + N) = enc N L p + L"
proof -
  assume "0 < N"
  then have "(p + N) div N = Suc (p div N)" by (metis Suc_eq_plus1 div_add_self2 less_numeral_extra(3))
  then show ?thesis by (simp only: enc_def) (simp add: distrib_right)
qed

lemma take_bit_enc:
  assumes "lap_ok N L"
  shows "enc N L p AND (L - 1) = of_nat (p mod N)"
proof -
  from assms obtain k where k: "k \<le> 62" "L = 2 ^ k" "N < 2 ^ k" "0 < N" by (auto elim!: lap_okE)
  have "p mod N < 2 ^ k" using k by (meson mod_less_divisor order_less_trans)
  then have "take_bit k (p div N * 2 ^ k + p mod N) = p mod N"
    by (simp add: take_bit_eq_mod)
  then have "take_bit k (enc N L p) = of_nat (p mod N)"
    using k by (simp add: enc_of_nat take_bit_of_nat del: of_nat_add of_nat_mult of_nat_power)
  then show ?thesis using k by (simp add: and_mask_word)
qed

lemma unat_enc_index:
  assumes "lap_ok N L"
  shows "unat (enc N L p AND (L - 1)) = p mod N"
proof -
  from assms obtain k where k: "k \<le> 62" "L = 2 ^ k" "N < 2 ^ k" "0 < N" by (auto elim!: lap_okE)
  have "p mod N < 2 ^ k" using k by (meson mod_less_divisor order_less_trans)
  also have "(2::nat) ^ k \<le> 2 ^ 64" using k by (intro power_increasing) auto
  finally show ?thesis using assms by (simp add: take_bit_enc unat_of_nat)
qed

lemma enc_lap:
  assumes "lap_ok N L"
  shows "enc N L p AND NOT (L - 1) = of_nat (p div N) * L"
proof -
  from assms obtain k where k: "L = 2 ^ k" by (auto elim!: lap_okE)
  have "enc N L p AND NOT (L - 1) = enc N L p - (enc N L p AND (L - 1))"
    by (simp add: k and_not_mask_word and_mask_word)
  then show ?thesis using assms by (simp add: take_bit_enc) (simp add: enc_def)
qed

lemma enc_Suc_inner: "Suc (p mod N) < N \<Longrightarrow> enc N L (Suc p) = enc N L p + 1"
  by (simp add: enc_def div_Suc mod_Suc)

lemma enc_Suc_outer: "0 < N \<Longrightarrow> \<not> Suc (p mod N) < N \<Longrightarrow> enc N L (Suc p) = of_nat (p div N) * L + L"
proof -
  assume N: "0 < N" "\<not> Suc (p mod N) < N"
  then have "Suc (p mod N) = N" by (meson Suc_lessI mod_less_divisor)
  then show ?thesis by (simp add: enc_def div_Suc mod_Suc algebra_simps)
qed


lemma enc_eq_iff:
  assumes "k \<le> 62" "L = 2 ^ k" "N < 2 ^ k" "0 < N"
  shows "enc N L p = enc N L q \<longleftrightarrow>
    p mod N = q mod N \<and> p div N mod 2 ^ (64 - k) = q div N mod 2 ^ (64 - k)"
proof -
  have pm: "p mod N < 2 ^ k" "q mod N < 2 ^ k"
    using assms by (meson mod_less_divisor order_less_trans)+
  have "enc N L p = enc N L q \<longleftrightarrow>
     (p div N * 2 ^ k + p mod N) mod 2 ^ 64 = (q div N * 2 ^ k + q mod N) mod 2 ^ 64"
    using assms by (simp only: enc_of_nat of_nat_eq_64_iff)
  also have "\<dots> \<longleftrightarrow> (p div N mod 2 ^ (64 - k)) * 2 ^ k + p mod N =
      (q div N mod 2 ^ (64 - k)) * 2 ^ k + q mod N"
    using assms pm by (simp only: code_mod)
  also have "\<dots> \<longleftrightarrow> p mod N = q mod N \<and> p div N mod 2 ^ (64 - k) = q div N mod 2 ^ (64 - k)"
    using pm by (rule digits_eq_iff)
  finally show ?thesis .
qed

lemma enc_window:
  assumes "lap_ok N L" "p \<le> q" "q < p + 2 ^ 63" "enc N L p = enc N L q"
  shows "p = q"
proof -
  from assms(1) obtain k where k: "k \<le> 62" "L = 2 ^ k" "N < 2 ^ k" "2 ^ k \<le> 2 * N" "0 < N"
    by (auto elim!: lap_okE)
  let ?M = "2 ^ (64 - k) :: nat"
  have e: "p mod N = q mod N" "p div N mod ?M = q div N mod ?M"
    using enc_eq_iff [OF k(1-3,5)] assms(4) by auto
  have "?M * 2 ^ k = (2::nat) ^ 64" using k by (simp flip: power_add)
  moreover have "?M * 2 ^ k \<le> ?M * (2 * N)" using k by simp
  ultimately have big: "2 ^ 63 \<le> ?M * N" by (simp add: mult.commute)
  have "q div N - p div N < ?M"
  proof (rule ccontr)
    assume "\<not> q div N - p div N < ?M"
    then have "?M * N \<le> (q div N - p div N) * N" by simp
    also have "\<dots> = q - p" using e(1) assms(2)
      by (metis (no_types, lifting) add_diff_cancel_right diff_mult_distrib div_mult_mod_eq)
    finally show False using big assms(2,3) by linarith
  qed
  moreover have "p div N \<le> q div N" using assms(2) by (rule div_le_mono)
  moreover have "?M dvd q div N - p div N" using e(2) calculation(2)
    by (metis mod_eq_dvd_iff_nat)
  ultimately have "p div N = q div N" by (metis diff_is_0_eq' le_antisym nat_dvd_not_less zero_less_diff not_le)
  with e(1) show ?thesis by (metis div_mult_mod_eq)
qed

lemma enc_ne_Suc:
  assumes "lap_ok N L" "p mod N = q mod N"
  shows "enc N L p \<noteq> enc N L q + 1"
proof
  from assms(1) obtain k where k: "k \<le> 62" "L = 2 ^ k" "N < 2 ^ k" "2 ^ k \<le> 2 * N" "0 < N"
    by (auto elim!: lap_okE)
  assume "enc N L p = enc N L q + 1"
  then have "(enc N L q + 1) AND (L - 1) = enc N L q AND (L - 1)"
    using assms by (metis take_bit_enc)
  moreover have "take_bit k (enc N L q + 1) = of_nat (q mod N + 1)"
  proof -
    have "q mod N + 1 < 2 ^ k" using k by (metis Suc_eq_plus1 Suc_leI mod_less_divisor order_le_less_trans)
    then have "take_bit k (q div N * 2 ^ k + (q mod N + 1)) = q mod N + 1"
      by (simp add: take_bit_eq_mod del: add_Suc_right)
    moreover have "enc N L q + 1 = of_nat (q div N * 2 ^ k + (q mod N + 1))"
      using k by (simp add: enc_of_nat)
    ultimately show ?thesis by (metis take_bit_of_nat)
  qed
  ultimately have "of_nat (q mod N + 1) = (of_nat (q mod N) :: 64 word)"
    using k assms(1) by (metis and_mask_word take_bit_enc)
  then show False by simp
qed

section \<open>The expressions of the code on encoded positions\<close>

lemma slot_index_enc [lap_simps]: "lap_ok N L \<Longrightarrow> slot_index L (enc N L p) = p mod N"
  by (simp add: slot_index_def unat_enc_index)

lemma advance_enc [lap_simps]: "lap_ok N L \<Longrightarrow> advance N L (enc N L p) = enc N L (Suc p)"
  by (auto simp: advance_def lap_of_def slot_index_enc enc_lap enc_Suc_inner enc_Suc_outer
      elim!: lap_okE)

lemma enc_plus_lap [lap_simps]: "lap_ok N L \<Longrightarrow> enc N L p + L = enc N L (p + N)"
  by (simp add: enc_add_lap lap_ok_def)

lemma enc_minus_lap [lap_simps]: "lap_ok N L \<Longrightarrow> N \<le> p \<Longrightarrow> enc N L p - L = enc N L (p - N)"
  using enc_plus_lap [of N L "p - N"] by (simp add: diff_eq_eq)

lemma enc_eq [lap_simps]:
  assumes "lap_ok N L" "p < q + 2 ^ 63" "q < p + 2 ^ 63"
  shows "enc N L p = enc N L q \<longleftrightarrow> p = q"
  using enc_window [OF assms(1), of p q] enc_window [OF assms(1), of q p] assms(2,3)
  by (metis nat_le_linear)

text \<open>The additions that the code writes as plain \<open>+ 1\<close> never overflow: the index part of an
  encoded position is below the capacity, so the low bits have room for one more.\<close>

lemma enc_plus_one_no_overflow:
  assumes "lap_ok N L"
  shows "unat (enc N L p) + 1 < 2 ^ 64"
proof -
  from assms obtain k where k: "k \<le> 62" "L = 2 ^ k" "N < 2 ^ k" "0 < N" by (auto elim!: lap_okE)
  have "p mod N + 1 < 2 ^ k" using k by (metis Suc_eq_plus1 Suc_leI mod_less_divisor order_le_less_trans)
  moreover have "p div N mod 2 ^ (64 - k) + 1 \<le> 2 ^ (64 - k)" by (simp add: Suc_leI)
  then have "(p div N mod 2 ^ (64 - k) + 1) * 2 ^ k \<le> 2 ^ (64 - k) * 2 ^ k"
    by (rule mult_le_mono1)
  moreover have "2 ^ (64 - k) * 2 ^ k = (2 :: nat) ^ 64" using k by (simp flip: power_add)
  moreover have "unat (enc N L p) = (p div N mod 2 ^ (64 - k)) * 2 ^ k + p mod N"
    using k calculation(1) by (simp only: enc_of_nat unat_of_nat_64) (rule code_mod, simp_all)
  ultimately show ?thesis by (simp add: algebra_simps)
qed

section \<open>Correctness of \<open>one_lap_for\<close>\<close>

lemma word_two_power: "k < 64 \<Longrightarrow> unat ((2 :: index) ^ k) = 2 ^ k"
proof -
  assume "k < 64"
  then have "(2 :: nat) ^ k < 2 ^ 64" by (intro power_strict_increasing) auto
  then show ?thesis using unat_of_nat_64 [of "2 ^ k"] by simp
qed

lemma one_lap_loop_pow:
  assumes "j \<le> k" "k \<le> 62" "unat need \<le> 2 ^ k" "\<And>i. j \<le> i \<Longrightarrow> i < k \<Longrightarrow> 2 ^ i < unat need"
  shows "one_lap_loop need (2 ^ j) = Some (2 ^ k)"
  using assms
proof (induction "k - j" arbitrary: j)
  case 0
  then have "\<not> (2 :: index) ^ j < need" by (simp add: word_less_nat_alt word_two_power)
  with 0 show ?case by (simp add: one_lap_loop.simps)
next
  case (Suc d)
  then have lt: "(2 :: index) ^ j < need" and j: "j < k"
    by (simp_all add: word_less_nat_alt word_two_power)
  have "(2 :: nat) ^ Suc j < 2 ^ 64" using j Suc.prems(2) by (intro power_strict_increasing) auto
  then have "checked_double (2 ^ j) = Some (2 ^ Suc j)"
    using j Suc.prems(2) by (simp add: checked_double_def word_two_power mult.commute)
  moreover have "one_lap_loop need (2 ^ Suc j) = Some (2 ^ k)"
    using Suc j by (intro Suc.hyps(1)) auto
  ultimately show ?case using lt by (simp add: one_lap_loop.simps [of need "2 ^ j"])
qed

lemma one_lap_for_ok:
  assumes "0 < N" "N < 2 ^ 62"
  shows "\<exists>L. one_lap_for (of_nat N) = Some L \<and> lap_ok N L"
proof -
  define k where "k = (LEAST k. N < 2 ^ k)"
  have ex: "N < 2 ^ k" unfolding k_def by (rule LeastI [of _ N]) simp
  have least: "2 ^ i \<le> N" if "i < k" for i
    using not_less_Least [of i "\<lambda>k. N < 2 ^ k"] that by (simp add: k_def)
  have k: "0 < k" "k \<le> 62"
    using assms ex by (auto intro!: Least_le simp: k_def intro: gr0I)
  have two: "2 ^ k \<le> 2 * N" using least [of "k - 1"] k(1) by (cases k) auto
  have need: "unat ((of_nat N :: index) + 1) = N + 1"
    using assms(2) unat_of_nat_64 [of "N + 1"] by (simp add: add.commute)
  have "one_lap_loop (of_nat N + 1) (2 ^ 1) = Some (2 ^ k)"
    using k ex least by (intro one_lap_loop_pow) (auto simp: need less_Suc_eq_le)
  then have "one_lap_for (of_nat N) = Some (2 ^ k)"
    using assms(2) by (simp add: one_lap_for_def)
  moreover have "lap_ok N (2 ^ k)" using assms(1) k ex two by (auto simp: lap_ok_def)
  ultimately show ?thesis by blast
qed

lemma advance_funpow: "lap_ok N L \<Longrightarrow> (advance N L ^^ p) 0 = enc N L p"
  by (induction p) (simp_all add: advance_enc, simp add: enc_def)

section \<open>Properties\<close>

text \<open>C38: \<open>one_lap_for\<close> returns, without overflow, the smallest power of two greater than the
  capacity, for every capacity that the constructor admits.\<close>

theorem one_lap_for_smallest:
  assumes "0 < N" "N < 2 ^ 62"
  shows "\<exists>k. one_lap_for (of_nat N) = Some (2 ^ k) \<and> N < 2 ^ k \<and> (\<forall>j. N < 2 ^ j \<longrightarrow> k \<le> j)"
proof -
  obtain k where k: "one_lap_for (of_nat N) = Some (2 ^ k)" "N < 2 ^ k" "(2 :: nat) ^ k \<le> 2 * N"
    using one_lap_for_ok [OF assms] by (auto simp: lap_ok_def)
  have "k \<le> j" if "N < 2 ^ j" for j
  proof -
    have "(2 :: nat) ^ k < 2 ^ Suc j" using k(3) that by simp
    then have "k < Suc j" by (rule power_less_imp_less_exp [rotated]) simp
    then show ?thesis by simp
  qed
  with k(1,2) show ?thesis by blast
qed

theorem one_lap_for_smallest_witness:
  "\<exists>k. one_lap_for (of_nat 5) = Some (2 ^ k) \<and> 5 < (2 :: nat) ^ k \<and> (\<forall>j. 5 < (2 :: nat) ^ j \<longrightarrow> k \<le> j)"
  by (rule one_lap_for_smallest) simp_all

text \<open>C15: The packed counters. The counter after \<open>p\<close> successful pushes (or pops) selects the slot
  \<open>p mod N\<close>; the addition of a lap is \<open>N\<close> positions; and although the counter wraps around at 64
  bits, two different positions less than \<open>2 ^ 63\<close> apart never have the same counter value.\<close>

theorem counter_positions:
  assumes "0 < N" "N < 2 ^ 62" "one_lap_for (of_nat N) = Some L"
  shows "slot_index L ((advance N L ^^ p) 0) = p mod N \<and>
    (advance N L ^^ p) 0 + L = (advance N L ^^ (p + N)) 0 \<and>
    (p < r + 2 ^ 63 \<longrightarrow> r < p + 2 ^ 63 \<longrightarrow> (advance N L ^^ p) 0 = (advance N L ^^ r) 0 \<longrightarrow> p = r)"
proof -
  have "lap_ok N L" using one_lap_for_ok [OF assms(1,2)] assms(3) by auto
  then show ?thesis using enc_eq [of N L p r] by (simp add: advance_funpow slot_index_enc enc_plus_lap)
qed

lemma one_lap_for_two: "one_lap_for (of_nat 2) = Some 4"
proof -
  have "one_lap_loop (3 :: index) 2 = Some 4"
    by (subst one_lap_loop.simps, simp add: checked_double_def, subst one_lap_loop.simps, simp)
  then show ?thesis by (simp add: one_lap_for_def)
qed

theorem counter_positions_witness:
  "slot_index 4 ((advance 2 4 ^^ 5) 0) = 1 \<and> (advance 2 4 ^^ 5) 0 + 4 = (advance 2 4 ^^ 7) 0"
proof -
  have "(5 :: nat) mod 2 = 1" "(5 :: nat) + 2 = 7" by simp_all
  then show ?thesis using counter_positions [of 2 4 5 5] one_lap_for_two by simp
qed

end
