(* ===== verification/Backoff.thy ===== *)
theory Backoff
  imports Prelude
begin

text \<open>
  The exponential backoff of \<^verbatim>\<open>src/src/lib.rs\<close> (\<open>struct Backoff\<close>). Its only state is the
  counter \<open>spins\<close>; what a call does to the processor (a number of spin-loop hints, or a yield
  when the crate is built with its \<open>std\<close> feature) is returned as a value.
\<close>

record backoff =
  spins :: "32 word"

datatype pause = YieldNow | SpinLoop nat

definition backoff_new :: backoff where
  "backoff_new = \<lparr>spins = 0\<rparr>"

definition spin :: "bool \<Rightarrow> backoff \<Rightarrow> backoff \<times> pause" where
  "spin std b =
     (if std \<and> spins b > 6 then (b, YieldNow)
      else let n = push_bit (unat (min (spins b) 6)) (1 :: 32 word)
           in (if spins b < 8 then b\<lparr>spins := spins b + 1\<rparr> else b, SpinLoop (unat n)))"

definition snooze :: "bool \<Rightarrow> backoff \<Rightarrow> backoff \<times> pause" where
  "snooze std b =
     (if std \<and> spins b > 8 then (b, YieldNow)
      else let n = push_bit (unat (min (spins b) 8)) (1 :: 32 word)
           in (if spins b < 10 then b\<lparr>spins := spins b + 1\<rparr> else b, SpinLoop (unat n)))"

datatype backoff_call = CallSpin | CallSnooze

fun do_backoff :: "bool \<Rightarrow> backoff \<Rightarrow> backoff_call \<Rightarrow> backoff \<times> pause" where
  "do_backoff std b CallSpin = spin std b"
| "do_backoff std b CallSnooze = snooze std b"

fun backoff_run :: "bool \<Rightarrow> backoff \<Rightarrow> backoff_call list \<Rightarrow> backoff \<times> pause list" where
  "backoff_run std b [] = (b, [])"
| "backoff_run std b (c # cs) =
     (let (b', p) = do_backoff std b c; (b'', ps) = backoff_run std b' cs in (b'', p # ps))"

fun hints :: "pause \<Rightarrow> nat" where
  "hints YieldNow = 0"
| "hints (SpinLoop n) = n"

section \<open>Every pause is bounded\<close>

lemma word_cases_le_10:
  assumes "(w :: 32 word) \<le> 10"
  shows "w \<in> {0, 1, 2, 3, 4, 5, 6, 7, 8, 9, 10}"
proof -
  have "unat w \<le> 10" using assms by (simp add: word_le_nat_alt)
  then have "unat w \<in> {0 :: nat, 1, 2, 3, 4, 5, 6, 7, 8, 9, 10}" by (simp, arith)
  then have "(of_nat (unat w) :: 32 word) \<in> of_nat ` {0 :: nat, 1, 2, 3, 4, 5, 6, 7, 8, 9, 10}"
    by (rule imageI)
  then show ?thesis by simp
qed

lemma backoff_call_bounded:
  assumes "spins b \<le> 10" "do_backoff std b c = (b', p)"
  shows "spins b' \<le> 10 \<and> spins b \<le> spins b' \<and> hints p \<le> 256"
  using word_cases_le_10 [OF assms(1)] assms(2)
  by (cases c; cases std) (auto simp: spin_def snooze_def Let_def push_bit_eq_mult min_def)

lemma backoff_run_bounded:
  assumes "spins b \<le> 10" "backoff_run std b cs = (b', ps)"
  shows "spins b' \<le> 10 \<and> spins b \<le> spins b' \<and> (\<forall>p \<in> set ps. hints p \<le> 256)"
  using assms
proof (induction cs arbitrary: b ps)
  case Nil
  then show ?case by simp
next
  case (Cons c cs)
  obtain b1 p where c: "do_backoff std b c = (b1, p)" by fastforce
  obtain ps' where r: "backoff_run std b1 cs = (b', ps')" and ps: "ps = p # ps'"
    using Cons.prems(2) c by (auto split: prod.splits)
  from backoff_call_bounded [OF Cons.prems(1) c] Cons.IH [OF _ r] show ?case
    by (auto simp: ps)
qed

text \<open>With the \<open>std\<close> feature a pause that is not a yield advances the counter, which stops at nine.\<close>

lemma spinning_advances:
  assumes "spins b \<le> 9" "do_backoff True b c = (b', p)"
  shows "spins b' \<le> 9 \<and> unat (spins b') = unat (spins b) + (if p = YieldNow then 0 else 1)"
proof -
  have "spins b \<le> 10" using assms(1) by (simp add: word_le_nat_alt)
  from word_cases_le_10 [OF this] assms show ?thesis
    by (cases c) (auto simp: spin_def snooze_def Let_def)
qed

lemma spinning_pauses:
  assumes "spins b \<le> 9" "backoff_run True b cs = (b', ps)"
  shows "unat (spins b) + length (filter (\<lambda>p. p \<noteq> YieldNow) ps) \<le> 9"
  using assms
proof (induction cs arbitrary: b ps)
  case Nil
  then show ?case by (simp add: word_le_nat_alt)
next
  case (Cons c cs)
  obtain b1 p where c: "do_backoff True b c = (b1, p)" by fastforce
  obtain ps' where r: "backoff_run True b1 cs = (b', ps')" and ps: "ps = p # ps'"
    using Cons.prems(2) c by (auto split: prod.splits)
  from spinning_advances [OF Cons.prems(1) c] Cons.IH [OF _ r] show ?case
    by (auto simp: ps split: if_splits)
qed

section \<open>Properties\<close>

text \<open>C39: The pauses of one operation's backoff are bounded: in any sequence of \<open>spin\<close> and \<open>snooze\<close>
  calls from a new backoff the counter stays within ten, no pause issues more than 256
  spin-loop hints, and with the \<open>std\<close> feature all but nine pauses yield the processor.\<close>

theorem backoff_bounded:
  assumes "backoff_run std backoff_new cs = (b, ps)"
  shows "spins b \<le> 10 \<and> (\<forall>p \<in> set ps. hints p \<le> 256) \<and>
    (std \<longrightarrow> length (filter (\<lambda>p. p \<noteq> YieldNow) ps) \<le> 9)"
  using backoff_run_bounded [OF _ assms] spinning_pauses [of backoff_new cs b ps] assms
  by (auto simp: backoff_new_def)

theorem backoff_bounded_witness:
  "backoff_run True backoff_new [CallSpin, CallSnooze] = (\<lparr>spins = 2\<rparr>, [SpinLoop 1, SpinLoop 2]) \<and>
   length (filter (\<lambda>p. p \<noteq> YieldNow) [SpinLoop 1, SpinLoop 2]) \<le> 9"
proof -
  have "backoff_run True backoff_new [CallSpin, CallSnooze] = (\<lparr>spins = 2\<rparr>, [SpinLoop 1, SpinLoop 2])"
    by (simp add: backoff_new_def spin_def snooze_def)
  with backoff_bounded [OF this] show ?thesis by blast
qed

end
