(* ===== verification/Nure_Queue.thy ===== *)
theory Nure_Queue
  imports Lap Backoff
begin

text \<open>
  The model of \<open>Slot\<close> and \<open>Queue\<close> of \<^verbatim>\<open>src/src/lib.rs\<close>: the data, the constructor, and each
  operation as a small-step machine. A machine state (a program counter) names the next
  access to shared memory and carries the operation's local variables; its step function
  performs that access and the local computation up to the next one. A step takes the crate's
  \<open>std\<close> feature flag (it only influences the backoff counter) and a flag that says
  whether a weak compare-and-exchange fails spuriously in this step. Undefined behaviour
  (an index beyond the buffer, a slot or a payload read before its initialisation) is a
  program counter of its own. The capacity \<open>N\<close> is the length of the buffer.
\<close>

section \<open>Slots\<close>

text \<open>\<open>MaybeUninit<T>\<close> is an option: \<open>None\<close> is uninitialised memory.\<close>

record 'a slot =
  stamp :: index
  slot_value :: "'a option"

definition write_value :: "'a slot \<Rightarrow> 'a \<Rightarrow> 'a slot" where
  "write_value s v = s\<lparr>slot_value := Some v\<rparr>"

definition read_value :: "'a slot \<Rightarrow> 'a option" where
  "read_value s = slot_value s"

definition drop_value :: "'a slot \<Rightarrow> ('a slot \<times> 'a) option" where
  "drop_value s = map_option (\<lambda>v. (s\<lparr>slot_value := None\<rparr>, v)) (slot_value s)"

definition replace_value :: "'a slot \<Rightarrow> 'a \<Rightarrow> ('a slot \<times> 'a) option" where
  "replace_value s v = map_option (\<lambda>old. (s\<lparr>slot_value := Some v\<rparr>, old)) (slot_value s)"

definition stamp_load :: "'a slot \<Rightarrow> index" where
  "stamp_load s = stamp s"

definition stamp_store :: "'a slot \<Rightarrow> index \<Rightarrow> 'a slot" where
  "stamp_store s w = s\<lparr>stamp := w\<rparr>"

lemmas slot_defs = write_value_def read_value_def drop_value_def replace_value_def
  stamp_load_def stamp_store_def

section \<open>The queue and its constructor\<close>

record 'a queue =
  head :: index
  tail :: index
  buffer :: "'a slot option list"
  one_lap :: index

definition capacity :: "'a queue \<Rightarrow> nat" where
  "capacity q = length (buffer q)"

text \<open>The initialisation loop of \<open>new\<close>: slot \<open>i\<close> gets the stamp \<open>i\<close>.\<close>

function new_loop :: "nat \<Rightarrow> nat \<Rightarrow> 'a slot option list \<Rightarrow> 'a slot option list" where
  "new_loop N i buf =
     (if i < N
      then new_loop N (i + 1) (buf[i := Some \<lparr>stamp = of_nat i, slot_value = None\<rparr>])
      else buf)"
  by pat_completeness auto
termination
  by (relation "measure (\<lambda>(N, i, buf). N - i)") auto

declare new_loop.simps [simp del]

definition max_capacity :: nat where
  "max_capacity = (2 ^ 63 - 1) div 2"

text \<open>\<open>None\<close> is the panic of one of the two assertions.\<close>

definition new :: "nat \<Rightarrow> 'a queue option" where
  "new N =
     (if 0 < N \<and> N \<le> max_capacity
      then (case one_lap_for (of_nat N) of
              None \<Rightarrow> None
            | Some L \<Rightarrow> Some \<lparr>head = 0, tail = 0,
                buffer = new_loop N 0 (replicate N None), one_lap = L\<rparr>)
      else None)"

definition default_queue :: "nat \<Rightarrow> 'a queue option" where
  "default_queue N = new N"

text \<open>\<open>get_unchecked(index).assume_init_ref()\<close>: \<open>None\<close> is undefined behaviour.\<close>

definition get_slot :: "'a queue \<Rightarrow> nat \<Rightarrow> 'a slot option" where
  "get_slot q i = (if i < length (buffer q) then buffer q ! i else None)"

definition put_slot :: "'a queue \<Rightarrow> nat \<Rightarrow> 'a slot \<Rightarrow> 'a queue" where
  "put_slot q i s = q\<lparr>buffer := (buffer q)[i := Some s]\<rparr>"

abbreviation index_of :: "'a queue \<Rightarrow> index \<Rightarrow> nat" where
  "index_of q w \<equiv> slot_index (one_lap q) w"

abbreviation next_of :: "'a queue \<Rightarrow> index \<Rightarrow> index" where
  "next_of q w \<equiv> advance (capacity q) (one_lap q) w"

section \<open>Pushing\<close>

text \<open>
  \<open>push\<close> and \<open>force_push\<close> share the loop \<open>push_or_else\<close> and differ in the closure it calls
  when the queue looks full; \<open>push_kind\<close> says which closure is passed.
\<close>

datatype push_kind = KPush | KForce

datatype 'a push_pc =
    PushLoad push_kind 'a backoff           \<comment> \<open>before \<open>self.tail.0.load\<close>\<close>
  | PushStamp push_kind 'a backoff index    \<comment> \<open>before \<open>slot.stamp_load()\<close>\<close>
  | PushCas push_kind 'a backoff index      \<comment> \<open>before the exchange on \<open>tail\<close>\<close>
  | PushWrite push_kind 'a index            \<comment> \<open>before \<open>slot.write_value\<close>\<close>
  | PushPublish push_kind index             \<comment> \<open>before \<open>slot.stamp_store\<close>\<close>
  | PushFence push_kind 'a backoff index    \<comment> \<open>before \<open>fence\<close>\<close>
  | PushFull push_kind 'a backoff index     \<comment> \<open>before the closure's access to \<open>head\<close>\<close>
  | ForceTail 'a index                      \<comment> \<open>before \<open>self.tail.0.store\<close>\<close>
  | ForceReplace 'a index                   \<comment> \<open>before \<open>slot.replace_value\<close>\<close>
  | ForcePublish 'a index                   \<comment> \<open>before \<open>slot.stamp_store\<close>, holding the old value\<close>
  | PushRet push_kind "(unit, 'a) rust_result"
  | PushUB

text \<open>The closure of \<open>push\<close>: full if the head is one lap behind.\<close>

definition push_closure :: "'a queue \<Rightarrow> 'a \<Rightarrow> index \<Rightarrow> ('a, 'a) rust_result" where
  "push_closure q v t = (let h = head q in if h + one_lap q = t then Err v else Ok v)"

text \<open>The closure of \<open>force_push\<close>, one access per step.\<close>

fun force_closure_step :: "bool \<Rightarrow> bool \<Rightarrow> 'a queue \<Rightarrow> 'a push_pc \<Rightarrow> 'a queue \<times> 'a push_pc" where
  "force_closure_step std weak q (PushFull k v b t) =
     (let hd = t - one_lap q; new_head = next_of q t - one_lap q
      in case compare_exchange_weak weak (head q) hd new_head of
           (c, Ok _) \<Rightarrow> (q\<lparr>head := c\<rparr>, ForceTail v t)
         | (c, Err _) \<Rightarrow> (q\<lparr>head := c\<rparr>, PushLoad k v (fst (spin std b))))"
| "force_closure_step std weak q (ForceTail v t) = (q\<lparr>tail := next_of q t\<rparr>, ForceReplace v t)"
| "force_closure_step std weak q (ForceReplace v t) =
     (case get_slot q (index_of q t) of
        None \<Rightarrow> (q, PushUB)
      | Some s \<Rightarrow> (case replace_value s v of
          None \<Rightarrow> (q, PushUB)
        | Some (s', old) \<Rightarrow> (put_slot q (index_of q t) s', ForcePublish old t)))"
| "force_closure_step std weak q (ForcePublish old t) =
     (case get_slot q (index_of q t) of
        None \<Rightarrow> (q, PushUB)
      | Some s \<Rightarrow> (put_slot q (index_of q t) (stamp_store s (t + 1)), PushRet KForce (Err old)))"
| "force_closure_step std weak q pc = (q, pc)"

fun push_or_else_step :: "bool \<Rightarrow> bool \<Rightarrow> 'a queue \<Rightarrow> 'a push_pc \<Rightarrow> 'a queue \<times> 'a push_pc" where
  "push_or_else_step std weak q (PushLoad k v b) = (q, PushStamp k v b (tail q))"
| "push_or_else_step std weak q (PushStamp k v b t) =
     (case get_slot q (index_of q t) of
        None \<Rightarrow> (q, PushUB)
      | Some s \<Rightarrow>
          let st = stamp_load s
          in if t = st then (q, PushCas k v b t)
             else if st + one_lap q = t + 1 then (q, PushFence k v b t)
             else (q, PushLoad k v (fst (snooze std b))))"
| "push_or_else_step std weak q (PushCas k v b t) =
     (case compare_exchange_weak weak (tail q) t (next_of q t) of
        (c, Ok _) \<Rightarrow> (q\<lparr>tail := c\<rparr>, PushWrite k v t)
      | (c, Err t') \<Rightarrow> (q\<lparr>tail := c\<rparr>, PushStamp k v (fst (spin std b)) t'))"
| "push_or_else_step std weak q (PushWrite k v t) =
     (case get_slot q (index_of q t) of
        None \<Rightarrow> (q, PushUB)
      | Some s \<Rightarrow> (put_slot q (index_of q t) (write_value s v), PushPublish k t))"
| "push_or_else_step std weak q (PushPublish k t) =
     (case get_slot q (index_of q t) of
        None \<Rightarrow> (q, PushUB)
      | Some s \<Rightarrow> (put_slot q (index_of q t) (stamp_store s (t + 1)), PushRet k (Ok ())))"
| "push_or_else_step std weak q (PushFence k v b t) = (q, PushFull k v b t)"
| "push_or_else_step std weak q (PushFull k v b t) =
     (case k of
        KPush \<Rightarrow> (case push_closure q v t of
            Err x \<Rightarrow> (q, PushRet KPush (Err x))
          | Ok x \<Rightarrow> (q, PushLoad KPush x (fst (spin std b))))
      | KForce \<Rightarrow> force_closure_step std weak q (PushFull k v b t))"
| "push_or_else_step std weak q pc = force_closure_step std weak q pc"

definition push_start :: "push_kind \<Rightarrow> 'a \<Rightarrow> 'a push_pc" where
  "push_start k v = PushLoad k v backoff_new"

section \<open>Popping\<close>

datatype 'a pop_pc =
    PopLoad backoff             \<comment> \<open>before \<open>self.head.0.load\<close>\<close>
  | PopStamp backoff index      \<comment> \<open>before \<open>slot.stamp_load()\<close>\<close>
  | PopCas backoff index        \<comment> \<open>before the exchange on \<open>head\<close>\<close>
  | PopRead index               \<comment> \<open>before \<open>slot.read_value()\<close>\<close>
  | PopPublish index 'a         \<comment> \<open>before \<open>slot.stamp_store\<close>\<close>
  | PopFence backoff index      \<comment> \<open>before \<open>fence\<close>\<close>
  | PopEmpty backoff index      \<comment> \<open>before \<open>self.tail.0.load\<close>\<close>
  | PopRet "'a option"
  | PopUB

fun pop_step :: "bool \<Rightarrow> bool \<Rightarrow> 'a queue \<Rightarrow> 'a pop_pc \<Rightarrow> 'a queue \<times> 'a pop_pc" where
  "pop_step std weak q (PopLoad b) = (q, PopStamp b (head q))"
| "pop_step std weak q (PopStamp b h) =
     (case get_slot q (index_of q h) of
        None \<Rightarrow> (q, PopUB)
      | Some s \<Rightarrow>
          let st = stamp_load s
          in if h + 1 = st then (q, PopCas b h)
             else if st = h then (q, PopFence b h)
             else (q, PopLoad (fst (snooze std b))))"
| "pop_step std weak q (PopCas b h) =
     (case compare_exchange_weak weak (head q) h (next_of q h) of
        (c, Ok _) \<Rightarrow> (q\<lparr>head := c\<rparr>, PopRead h)
      | (c, Err h') \<Rightarrow> (q\<lparr>head := c\<rparr>, PopStamp (fst (spin std b)) h'))"
| "pop_step std weak q (PopRead h) =
     (case get_slot q (index_of q h) of
        None \<Rightarrow> (q, PopUB)
      | Some s \<Rightarrow> (case read_value s of
          None \<Rightarrow> (q, PopUB)
        | Some msg \<Rightarrow> (q, PopPublish h msg)))"
| "pop_step std weak q (PopPublish h msg) =
     (case get_slot q (index_of q h) of
        None \<Rightarrow> (q, PopUB)
      | Some s \<Rightarrow> (put_slot q (index_of q h) (stamp_store s (h + one_lap q)), PopRet (Some msg)))"
| "pop_step std weak q (PopFence b h) = (q, PopEmpty b h)"
| "pop_step std weak q (PopEmpty b h) =
     (if tail q = h then (q, PopRet None) else (q, PopLoad (fst (spin std b))))"
| "pop_step std weak q pc = (q, pc)"

definition pop_start :: "'a pop_pc" where
  "pop_start = PopLoad backoff_new"

section \<open>Observers\<close>

text \<open>The occupancy that \<open>len\<close> and \<open>drop\<close> compute from the two counters.\<close>

definition span_len :: "nat \<Rightarrow> index \<Rightarrow> index \<Rightarrow> index \<Rightarrow> nat" where
  "span_len N L h t =
     (let hix = slot_index L h; tix = slot_index L t
      in if hix < tix then tix - hix
         else if tix < hix then N - hix + tix
         else if t = h then 0 else N)"

datatype obs_pc =
    EmptyHead | EmptyTail index                   \<comment> \<open>\<open>is_empty\<close>\<close>
  | FullTail | FullHead index                     \<comment> \<open>\<open>is_full\<close>\<close>
  | LenTail | LenHead index | LenCheck index index \<comment> \<open>\<open>len\<close>\<close>
  | ObsBool bool | ObsNat nat

fun is_empty_step :: "'a queue \<Rightarrow> obs_pc \<Rightarrow> obs_pc" where
  "is_empty_step q EmptyHead = EmptyTail (head q)"
| "is_empty_step q (EmptyTail h) = ObsBool (tail q = h)"
| "is_empty_step q pc = pc"

fun is_full_step :: "'a queue \<Rightarrow> obs_pc \<Rightarrow> obs_pc" where
  "is_full_step q FullTail = FullHead (tail q)"
| "is_full_step q (FullHead t) = ObsBool (head q + one_lap q = t)"
| "is_full_step q pc = pc"

fun len_step :: "'a queue \<Rightarrow> obs_pc \<Rightarrow> obs_pc" where
  "len_step q LenTail = LenHead (tail q)"
| "len_step q (LenHead t) = LenCheck t (head q)"
| "len_step q (LenCheck t h) =
     (if tail q = t then ObsNat (span_len (capacity q) (one_lap q) h t) else LenTail)"
| "len_step q pc = pc"

fun obs_step :: "'a queue \<Rightarrow> obs_pc \<Rightarrow> obs_pc" where
  "obs_step q (EmptyTail h) = is_empty_step q (EmptyTail h)"
| "obs_step q EmptyHead = is_empty_step q EmptyHead"
| "obs_step q FullTail = is_full_step q FullTail"
| "obs_step q (FullHead t) = is_full_step q (FullHead t)"
| "obs_step q pc = len_step q pc"

section \<open>Dropping\<close>

text \<open>
  \<open>drop\<close> has exclusive access. The result is the queue's memory afterwards and the payloads
  whose destructor ran, in order; \<open>None\<close> is undefined behaviour. \<open>needs_drop\<close> is
  \<open>core::mem::needs_drop::<T>()\<close>.
\<close>

fun drop_loop :: "nat \<Rightarrow> nat \<Rightarrow> nat list \<Rightarrow> 'a queue \<Rightarrow> ('a queue \<times> 'a list) option" where
  "drop_loop N hix [] q = Some (q, [])"
| "drop_loop N hix (i # is) q =
     (let idx = (if hix + i < N then hix + i else hix + i - N)
      in case get_slot q idx of
           None \<Rightarrow> None
         | Some s \<Rightarrow> (case drop_value s of
             None \<Rightarrow> None
           | Some (s', v) \<Rightarrow> map_option (\<lambda>(q', vs). (q', v # vs)) (drop_loop N hix is (put_slot q idx s'))))"

definition drop_queue :: "bool \<Rightarrow> 'a queue \<Rightarrow> ('a queue \<times> 'a list) option" where
  "drop_queue needs_drop q =
     (if needs_drop
      then let len = span_len (capacity q) (one_lap q) (head q) (tail q)
           in drop_loop (capacity q) (slot_index (one_lap q) (head q)) [0..<len] q
      else Some (q, []))"

end
