(* ===== verification/Fifo_Spec.thy ===== *)
theory Fifo_Spec
  imports Prelude
begin

text \<open>
  What the queues of both crates promise a sequential client, as interfaces. \<open>fifo_queue\<close> is
  the contract of a bounded queue with an enqueue and a dequeue operation; \<open>ring_queue\<close> adds the
  operations of the Vyukov queue. The reference is a list, as the \<open>VecDeque\<close> model of
  \<^verbatim>\<open>src/tests/differential.rs\<close>. An operation returns \<open>None\<close> when it does not return or when its
  behaviour is undefined, so each law also says that the operation returns. The lemmas proved
  in the locales are what a client may conclude: any sequence of operations is
  indistinguishable from the reference, and nothing is lost, duplicated or reordered.
\<close>

section \<open>The reference model\<close>

datatype 'a fifo_cmd = Enq 'a | Deq

datatype 'a fifo_ret = REnq "(unit, 'a) rust_result" | RDeq "'a option"

fun fifo_ref :: "nat \<Rightarrow> 'a list \<Rightarrow> 'a fifo_cmd \<Rightarrow> 'a list \<times> 'a fifo_ret" where
  "fifo_ref N xs (Enq v) =
     (if length xs < N then (xs @ [v], REnq (Ok ())) else (xs, REnq (Err v)))"
| "fifo_ref N xs Deq = (case xs of [] \<Rightarrow> ([], RDeq None) | x # ys \<Rightarrow> (ys, RDeq (Some x)))"

fun fifo_ref_run :: "nat \<Rightarrow> 'a list \<Rightarrow> 'a fifo_cmd list \<Rightarrow> 'a list \<times> 'a fifo_ret list" where
  "fifo_ref_run N xs [] = (xs, [])"
| "fifo_ref_run N xs (p # ps) =
     (let (xs', r) = fifo_ref N xs p; (xs'', rs) = fifo_ref_run N xs' ps in (xs'', r # rs))"

text \<open>The values that a sequence of operations accepted, and those that it delivered.\<close>

fun accepted :: "'a fifo_cmd list \<Rightarrow> 'a fifo_ret list \<Rightarrow> 'a list" where
  "accepted (Enq v # ps) (REnq (Ok _) # rs) = v # accepted ps rs"
| "accepted (_ # ps) (_ # rs) = accepted ps rs"
| "accepted _ _ = []"

fun delivered :: "'a fifo_ret list \<Rightarrow> 'a list" where
  "delivered (RDeq (Some v) # rs) = v # delivered rs"
| "delivered (_ # rs) = delivered rs"
| "delivered [] = []"

lemma fifo_ref_run_length:
  "length xs \<le> N \<Longrightarrow> length (fst (fifo_ref_run N xs ps)) \<le> N"
proof (induction ps arbitrary: xs)
  case (Cons p ps)
  then have "length (fst (fifo_ref N xs p)) \<le> N" by (cases p) (auto split: list.splits)
  from Cons.IH [OF this] show ?case by (auto simp: Let_def split: prod.splits)
qed simp

lemma fifo_ref_run_conserves:
  "fifo_ref_run N xs ps = (ys, rs) \<Longrightarrow> xs @ accepted ps rs = delivered rs @ ys"
proof (induction ps arbitrary: xs rs)
  case (Cons p ps)
  obtain xs' r where p: "fifo_ref N xs p = (xs', r)" by fastforce
  with Cons.prems obtain rs' where rest: "fifo_ref_run N xs' ps = (ys, rs')" "rs = r # rs'"
    by (auto split: prod.splits)
  from Cons.IH [OF rest(1)] p show ?case
    by (cases p) (auto simp: rest(2) split: if_splits list.splits)
qed simp

section \<open>Sequences of operations\<close>

text \<open>\<open>run_ops\<close> performs a sequence of operations and collects their results; it stops with
  \<open>None\<close> at the first one that does not return.\<close>

fun run_ops :: "('q \<Rightarrow> 'p \<Rightarrow> ('q \<times> 'r) option) \<Rightarrow> 'q \<Rightarrow> 'p list \<Rightarrow> ('q \<times> 'r list) option" where
  "run_ops f q [] = Some (q, [])"
| "run_ops f q (p # ps) =
     (case f q p of
        None \<Rightarrow> None
      | Some (q', r) \<Rightarrow> map_option (\<lambda>(q'', rs). (q'', r # rs)) (run_ops f q' ps))"

fun fifo_op :: "('q \<Rightarrow> 'a \<Rightarrow> ('q \<times> (unit, 'a) rust_result) option) \<Rightarrow>
    ('q \<Rightarrow> ('q \<times> 'a option) option) \<Rightarrow> 'q \<Rightarrow> 'a fifo_cmd \<Rightarrow> ('q \<times> 'a fifo_ret) option" where
  "fifo_op enq deq q (Enq v) = map_option (\<lambda>(q', r). (q', REnq r)) (enq q v)"
| "fifo_op enq deq q Deq = map_option (\<lambda>(q', r). (q', RDeq r)) (deq q)"

section \<open>The contract of a bounded queue\<close>

locale fifo_queue =
  fixes invar :: "'q \<Rightarrow> bool"
    and contents :: "'q \<Rightarrow> 'a list"
    and cap :: "'q \<Rightarrow> nat"
    and enq :: "'q \<Rightarrow> 'a \<Rightarrow> ('q \<times> (unit, 'a) rust_result) option"
    and deq :: "'q \<Rightarrow> ('q \<times> 'a option) option"
  assumes within_cap: "invar q \<Longrightarrow> length (contents q) \<le> cap q"
    and enq_room: "invar q \<Longrightarrow> length (contents q) < cap q \<Longrightarrow>
      \<exists>q'. enq q v = Some (q', Ok ()) \<and> invar q' \<and> cap q' = cap q \<and> contents q' = contents q @ [v]"
    and enq_full: "invar q \<Longrightarrow> length (contents q) = cap q \<Longrightarrow>
      \<exists>q'. enq q v = Some (q', Err v) \<and> invar q' \<and> cap q' = cap q \<and> contents q' = contents q"
    and deq_some: "invar q \<Longrightarrow> contents q = x # xs \<Longrightarrow>
      \<exists>q'. deq q = Some (q', Some x) \<and> invar q' \<and> cap q' = cap q \<and> contents q' = xs"
    and deq_none: "invar q \<Longrightarrow> contents q = [] \<Longrightarrow>
      \<exists>q'. deq q = Some (q', None) \<and> invar q' \<and> cap q' = cap q \<and> contents q' = []"
begin

lemma op_refines:
  assumes "invar q"
  shows "\<exists>q' r. fifo_op enq deq q p = Some (q', r) \<and> invar q' \<and> cap q' = cap q \<and>
    fifo_ref (cap q) (contents q) p = (contents q', r)"
proof (cases p)
  case (Enq v)
  with within_cap [OF assms] enq_room [OF assms, of v] enq_full [OF assms, of v] show ?thesis
    by (cases "length (contents q) < cap q") auto
next
  case Deq
  with deq_some [OF assms] deq_none [OF assms] show ?thesis
    by (cases "contents q") auto
qed

lemma run_refines:
  assumes "invar q"
  shows "\<exists>q' rs. run_ops (fifo_op enq deq) q ps = Some (q', rs) \<and> invar q' \<and> cap q' = cap q \<and>
    fifo_ref_run (cap q) (contents q) ps = (contents q', rs)"
  using assms
proof (induction ps arbitrary: q)
  case (Cons p ps)
  from op_refines [OF Cons.prems, of p] obtain q1 r where 1: "fifo_op enq deq q p = Some (q1, r)" "invar q1"
    "cap q1 = cap q" "fifo_ref (cap q) (contents q) p = (contents q1, r)" by blast
  from Cons.IH [OF 1(2)] obtain q2 rs where "run_ops (fifo_op enq deq) q1 ps = Some (q2, rs)" "invar q2"
    "cap q2 = cap q1" "fifo_ref_run (cap q1) (contents q1) ps = (contents q2, rs)" by blast
  with 1 show ?case by simp
qed simp

lemma run_conserves:
  assumes "invar q" "run_ops (fifo_op enq deq) q ps = Some (q', rs)"
  shows "contents q @ accepted ps rs = delivered rs @ contents q'"
  using run_refines [OF assms(1), of ps] assms(2) fifo_ref_run_conserves by fastforce

end

section \<open>The contract of an unbounded queue\<close>

text \<open>An unbounded queue is a bounded one whose bound is never reached. \<open>holds q xs\<close> says that \<open>q\<close> is
  well-formed and its elements are \<open>xs\<close>.\<close>

fun unbounded_op :: "('q \<Rightarrow> 'a \<Rightarrow> 'q option) \<Rightarrow> ('q \<Rightarrow> ('q \<times> 'a option) option) \<Rightarrow> 'q \<Rightarrow> 'a fifo_cmd \<Rightarrow>
    ('q \<times> 'a fifo_ret) option" where
  "unbounded_op enq deq q (Enq v) = map_option (\<lambda>q'. (q', REnq (Ok ()))) (enq q v)"
| "unbounded_op enq deq q Deq = map_option (\<lambda>(q', r). (q', RDeq r)) (deq q)"

locale unbounded_fifo =
  fixes holds :: "'q \<Rightarrow> 'a list \<Rightarrow> bool"
    and enq :: "'q \<Rightarrow> 'a \<Rightarrow> 'q option"
    and deq :: "'q \<Rightarrow> ('q \<times> 'a option) option"
  assumes enq_stores: "holds q xs \<Longrightarrow> \<exists>q'. enq q v = Some q' \<and> holds q' (xs @ [v])"
    and deq_first: "holds q (x # xs) \<Longrightarrow> \<exists>q'. deq q = Some (q', Some x) \<and> holds q' xs"
    and deq_empty: "holds q [] \<Longrightarrow> \<exists>q'. deq q = Some (q', None) \<and> holds q' []"
begin

lemma op_stores:
  assumes "holds q xs" "length xs < N"
  shows "\<exists>q' r. unbounded_op enq deq q p = Some (q', r) \<and> holds q' (fst (fifo_ref N xs p)) \<and> r = snd (fifo_ref N xs p)"
proof (cases p)
  case (Enq v)
  then show ?thesis using enq_stores [OF assms(1), of v] assms(2) by auto
next
  case Deq
  then show ?thesis using deq_first deq_empty assms(1) by (cases xs) fastforce+
qed

lemma unbounded_run:
  assumes "holds q xs" "length xs + length ps \<le> N"
  shows "\<exists>q' rs. run_ops (unbounded_op enq deq) q ps = Some (q', rs) \<and> holds q' (fst (fifo_ref_run N xs ps)) \<and>
    rs = snd (fifo_ref_run N xs ps)"
  using assms
proof (induction ps arbitrary: q xs)
  case (Cons p ps)
  obtain q1 r where 1: "unbounded_op enq deq q p = Some (q1, r)" "holds q1 (fst (fifo_ref N xs p))" "r = snd (fifo_ref N xs p)"
    using op_stores [of q xs N p] Cons.prems by auto
  moreover have "length (fst (fifo_ref N xs p)) + length ps \<le> N"
    using Cons.prems(2) by (cases p) (auto split: list.splits)
  ultimately show ?case using Cons.IH [OF 1(2)] by (auto split: prod.splits)
qed simp

end

section \<open>The contract of the Vyukov queue\<close>

text \<open>The operations of the differential test and the reference that it runs beside the queue.\<close>

datatype 'a ring_cmd = OpPush 'a | OpPop | OpForcePush 'a | OpLen | OpIsEmpty | OpIsFull

datatype 'a ring_ret =
    RetPush "(unit, 'a) rust_result" | RetPop "'a option" | RetForce "'a option"
  | RetLen nat | RetBool bool

fun vec_deque :: "nat \<Rightarrow> 'a list \<Rightarrow> 'a ring_cmd \<Rightarrow> 'a list \<times> 'a ring_ret" where
  "vec_deque N m (OpPush v) =
     (if length m < N then (m @ [v], RetPush (Ok ())) else (m, RetPush (Err v)))"
| "vec_deque N m OpPop = (case m of [] \<Rightarrow> ([], RetPop None) | x # xs \<Rightarrow> (xs, RetPop (Some x)))"
| "vec_deque N m (OpForcePush v) =
     (if length m = N then (tl m @ [v], RetForce (Some (hd m))) else (m @ [v], RetForce None))"
| "vec_deque N m OpLen = (m, RetLen (length m))"
| "vec_deque N m OpIsEmpty = (m, RetBool (m = []))"
| "vec_deque N m OpIsFull = (m, RetBool (length m = N))"

fun vec_deque_run :: "nat \<Rightarrow> 'a list \<Rightarrow> 'a ring_cmd list \<Rightarrow> 'a list \<times> 'a ring_ret list" where
  "vec_deque_run N m [] = (m, [])"
| "vec_deque_run N m (p # ps) =
     (let (m', r) = vec_deque N m p; (m'', rs) = vec_deque_run N m' ps in (m'', r # rs))"

fun ring_op :: "('q \<Rightarrow> 'a \<Rightarrow> ('q \<times> (unit, 'a) rust_result) option) \<Rightarrow>
    ('q \<Rightarrow> ('q \<times> 'a option) option) \<Rightarrow> ('q \<Rightarrow> 'a \<Rightarrow> ('q \<times> 'a option) option) \<Rightarrow>
    ('q \<Rightarrow> nat option) \<Rightarrow> ('q \<Rightarrow> bool option) \<Rightarrow> ('q \<Rightarrow> bool option) \<Rightarrow>
    'q \<Rightarrow> 'a ring_cmd \<Rightarrow> ('q \<times> 'a ring_ret) option" where
  "ring_op enq deq force len emp full q (OpPush v) =
     map_option (\<lambda>(q', r). (q', RetPush r)) (enq q v)"
| "ring_op enq deq force len emp full q OpPop =
     map_option (\<lambda>(q', r). (q', RetPop r)) (deq q)"
| "ring_op enq deq force len emp full q (OpForcePush v) =
     map_option (\<lambda>(q', r). (q', RetForce r)) (force q v)"
| "ring_op enq deq force len emp full q OpLen = map_option (\<lambda>n. (q, RetLen n)) (len q)"
| "ring_op enq deq force len emp full q OpIsEmpty = map_option (\<lambda>b. (q, RetBool b)) (emp q)"
| "ring_op enq deq force len emp full q OpIsFull = map_option (\<lambda>b. (q, RetBool b)) (full q)"

locale ring_queue = fifo_queue invar contents cap enq deq
  for invar :: "'q \<Rightarrow> bool" and contents :: "'q \<Rightarrow> 'a list" and cap :: "'q \<Rightarrow> nat"
    and enq :: "'q \<Rightarrow> 'a \<Rightarrow> ('q \<times> (unit, 'a) rust_result) option"
    and deq :: "'q \<Rightarrow> ('q \<times> 'a option) option" +
  fixes force :: "'q \<Rightarrow> 'a \<Rightarrow> ('q \<times> 'a option) option"
    and len :: "'q \<Rightarrow> nat option"
    and emp :: "'q \<Rightarrow> bool option"
    and full :: "'q \<Rightarrow> bool option"
  assumes cap_pos: "invar q \<Longrightarrow> 0 < cap q"
    and force_room: "invar q \<Longrightarrow> length (contents q) < cap q \<Longrightarrow>
      \<exists>q'. force q v = Some (q', None) \<and> invar q' \<and> cap q' = cap q \<and> contents q' = contents q @ [v]"
    and force_full: "invar q \<Longrightarrow> length (contents q) = cap q \<Longrightarrow>
      \<exists>q'. force q v = Some (q', Some (hd (contents q))) \<and> invar q' \<and> cap q' = cap q \<and>
        contents q' = tl (contents q) @ [v]"
    and len_ok: "invar q \<Longrightarrow> len q = Some (length (contents q))"
    and empty_ok: "invar q \<Longrightarrow> emp q = Some (contents q = [])"
    and full_ok: "invar q \<Longrightarrow> full q = Some (length (contents q) = cap q)"
begin

lemma ring_op_refines:
  assumes "invar q"
  shows "\<exists>q' r. ring_op enq deq force len emp full q p = Some (q', r) \<and> invar q' \<and> cap q' = cap q \<and>
    vec_deque (cap q) (contents q) p = (contents q', r)"
proof (cases p)
  case (OpPush v)
  with within_cap [OF assms] enq_room [OF assms, of v] enq_full [OF assms, of v] show ?thesis
    by (cases "length (contents q) < cap q") auto
next
  case OpPop
  with deq_some [OF assms] deq_none [OF assms] show ?thesis
    by (cases "contents q") auto
next
  case (OpForcePush v)
  with within_cap [OF assms] force_room [OF assms, of v] force_full [OF assms, of v] show ?thesis
    by (cases "length (contents q) < cap q") auto
qed (auto simp: assms len_ok empty_ok full_ok)

lemma ring_run_refines:
  assumes "invar q"
  shows "\<exists>q' rs. run_ops (ring_op enq deq force len emp full) q ps = Some (q', rs) \<and> invar q' \<and> cap q' = cap q \<and>
    vec_deque_run (cap q) (contents q) ps = (contents q', rs)"
  using assms
proof (induction ps arbitrary: q)
  case (Cons p ps)
  from ring_op_refines [OF Cons.prems, of p] obtain q1 r where 1: "ring_op enq deq force len emp full q p = Some (q1, r)"
    "invar q1" "cap q1 = cap q" "vec_deque (cap q) (contents q) p = (contents q1, r)" by blast
  from Cons.IH [OF 1(2)] obtain q2 rs where "run_ops (ring_op enq deq force len emp full) q1 ps = Some (q2, rs)" "invar q2"
    "cap q2 = cap q1" "vec_deque_run (cap q1) (contents q1) ps = (contents q2, rs)" by blast
  with 1 show ?case by simp
qed simp

end

end
