(* ===== verification/Nure_Seq.thy ===== *)
theory Nure_Seq
  imports Nure_Queue Fifo_Spec
begin

text \<open>
  The Vyukov queue under a sequential client: each operation is a solo run of its machine, in
  which weak exchanges may fail spuriously any finite number of times. The relation
  \<open>repr q h xs\<close> says that the queue \<open>q\<close> holds the list \<open>xs\<close> at the positions from \<open>h\<close> on; the
  positions are unbounded while the counters and stamps of \<open>q\<close> wrap around. Every operation
  returns, keeps the relation, and does what the reference list does.
\<close>

section \<open>Frame rules of the record operations\<close>

lemma capacity_simps [simp]:
  "capacity (q\<lparr>head := w\<rparr>) = capacity q"
  "capacity (q\<lparr>tail := w\<rparr>) = capacity q"
  "capacity (put_slot q i s) = capacity q"
  by (simp_all add: capacity_def put_slot_def)

lemma put_slot_simps [simp]:
  "head (put_slot q i s) = head q"
  "tail (put_slot q i s) = tail q"
  "one_lap (put_slot q i s) = one_lap q"
  by (simp_all add: put_slot_def)

lemma get_slot_simps [simp]:
  "get_slot (q\<lparr>head := w\<rparr>) i = get_slot q i"
  "get_slot (q\<lparr>tail := w\<rparr>) i = get_slot q i"
  by (simp_all add: get_slot_def)

lemma get_put_slot:
  "get_slot (put_slot q i s) j = (if j = i \<and> i < capacity q then Some s else get_slot q j)"
  by (simp add: get_slot_def put_slot_def capacity_def nth_list_update)

section \<open>The representation relation\<close>

abbreviation enc_q :: "'a queue \<Rightarrow> nat \<Rightarrow> index" where
  "enc_q q p \<equiv> enc (capacity q) (one_lap q) p"

text \<open>The slot of position \<open>p\<close> when no operation is using it: published with its value, or
  free and waiting for the push at position \<open>p\<close>.\<close>

definition slot_settled :: "'a queue \<Rightarrow> nat \<Rightarrow> 'a list \<Rightarrow> nat \<Rightarrow> bool" where
  "slot_settled q h xs p \<longleftrightarrow>
     (case get_slot q (p mod capacity q) of
        None \<Rightarrow> False
      | Some s \<Rightarrow>
          if p < h + length xs
          then stamp s = enc_q q p + 1 \<and> slot_value s = Some (xs ! (p - h))
          else stamp s = enc_q q p)"

definition repr :: "'a queue \<Rightarrow> nat \<Rightarrow> 'a list \<Rightarrow> bool" where
  "repr q h xs \<longleftrightarrow>
     lap_ok (capacity q) (one_lap q) \<and> capacity q \<le> max_capacity \<and>
     length xs \<le> capacity q \<and>
     head q = enc_q q h \<and> tail q = enc_q q (h + length xs) \<and>
     (\<forall>p \<in> {h..<h + capacity q}. slot_settled q h xs p)"

lemma reprD:
  assumes "repr q h xs"
  shows "lap_ok (capacity q) (one_lap q)" "0 < capacity q" "capacity q < 2 ^ 62"
    "length xs \<le> capacity q" "head q = enc_q q h" "tail q = enc_q q (h + length xs)"
    "\<And>p. h \<le> p \<Longrightarrow> p < h + capacity q \<Longrightarrow> slot_settled q h xs p"
  using assms by (auto simp: repr_def lap_ok_def max_capacity_def)

section \<open>Operations as solo runs\<close>

fun push_returned :: "'a push_pc \<Rightarrow> (unit, 'a) rust_result option" where
  "push_returned (PushRet k r) = Some r"
| "push_returned _ = None"

fun pop_returned :: "'a pop_pc \<Rightarrow> 'a option option" where
  "pop_returned (PopRet r) = Some r"
| "pop_returned _ = None"

definition push_or_else :: "bool \<Rightarrow> bool list \<Rightarrow> 'a queue \<Rightarrow> push_kind \<Rightarrow> 'a \<Rightarrow>
    ('a queue \<times> (unit, 'a) rust_result) option" where
  "push_or_else std ws q k v =
     run_solo (push_or_else_step std) push_returned (ws @ replicate 7 False) q (push_start k v)"

definition push :: "bool \<Rightarrow> bool list \<Rightarrow> 'a queue \<Rightarrow> 'a \<Rightarrow> ('a queue \<times> (unit, 'a) rust_result) option" where
  "push std ws q v = push_or_else std ws q KPush v"

definition enqueue :: "bool \<Rightarrow> bool list \<Rightarrow> 'a queue \<Rightarrow> 'a \<Rightarrow> ('a queue \<times> (unit, 'a) rust_result) option" where
  "enqueue std ws q v = push std ws q v"

definition force_push :: "bool \<Rightarrow> bool list \<Rightarrow> 'a queue \<Rightarrow> 'a \<Rightarrow> ('a queue \<times> 'a option) option" where
  "force_push std ws q v =
     map_option (\<lambda>(q', r). (q', err r)) (push_or_else std ws q KForce v)"

definition pop :: "bool \<Rightarrow> bool list \<Rightarrow> 'a queue \<Rightarrow> ('a queue \<times> 'a option) option" where
  "pop std ws q = run_solo (pop_step std) pop_returned (ws @ replicate 5 False) q pop_start"

definition dequeue :: "bool \<Rightarrow> bool list \<Rightarrow> 'a queue \<Rightarrow> ('a queue \<times> 'a option) option" where
  "dequeue std ws q = pop std ws q"

fun obs_bool :: "obs_pc \<Rightarrow> bool option" where
  "obs_bool (ObsBool b) = Some b"
| "obs_bool _ = None"

fun obs_nat :: "obs_pc \<Rightarrow> nat option" where
  "obs_nat (ObsNat n) = Some n"
| "obs_nat _ = None"

definition is_empty :: "'a queue \<Rightarrow> bool option" where
  "is_empty q = obs_bool (is_empty_step q (is_empty_step q EmptyHead))"

definition is_full :: "'a queue \<Rightarrow> bool option" where
  "is_full q = obs_bool (is_full_step q (is_full_step q FullTail))"

definition len :: "'a queue \<Rightarrow> nat option" where
  "len q = obs_nat (len_step q (len_step q (len_step q LenTail)))"

section \<open>What a represented queue shows at its two ends\<close>

lemma put_put_slot [simp]: "put_slot (put_slot q i s) i s' = put_slot q i s'"
  by (simp add: put_slot_def)

lemma put_slot_tail: "(put_slot q i s)\<lparr>tail := w\<rparr> = put_slot (q\<lparr>tail := w\<rparr>) i s"
  by (simp add: put_slot_def)

lemma slot_settledE:
  assumes "slot_settled q h xs p"
  obtains s where "get_slot q (p mod capacity q) = Some s"
    "p < h + length xs \<Longrightarrow> stamp s = enc_q q p + 1 \<and> slot_value s = Some (xs ! (p - h))"
    "h + length xs \<le> p \<Longrightarrow> stamp s = enc_q q p"
  using assms by (auto simp: slot_settled_def split: option.splits if_splits)

lemma repr_tail_room:
  assumes "repr q h xs" "length xs < capacity q"
  obtains s where "get_slot q (index_of q (tail q)) = Some s" "stamp s = tail q"
    "index_of q (tail q) = (h + length xs) mod capacity q"
  using assms(2) reprD(1-6) [OF assms(1)] reprD(7) [OF assms(1), of "h + length xs"] that
  by (fastforce simp: lap_simps elim!: slot_settledE)

lemma repr_tail_full:
  assumes "repr q h xs" "length xs = capacity q"
  obtains s where "get_slot q (index_of q (tail q)) = Some s" "stamp s \<noteq> tail q"
    "stamp s + one_lap q = tail q + 1" "slot_value s = Some (hd xs)"
    "index_of q (tail q) = h mod capacity q" "head q + one_lap q = tail q"
proof -
  note r = reprD [OF assms(1)]
  obtain s where s: "get_slot q (h mod capacity q) = Some s"
    "stamp s = enc_q q h + 1 \<and> slot_value s = Some (xs ! 0)"
    using r(2) r(7) [of h] assms(2) by (auto elim!: slot_settledE)
  have "stamp s \<noteq> tail q"
    using s(2) r(6) assms(2) enc_ne_Suc [OF r(1), of "h + capacity q" h] by simp
  moreover have "stamp s + one_lap q = tail q + 1"
    using s(2) r(6) assms(2) enc_plus_lap [OF r(1), of h] by (simp add: algebra_simps)
  moreover have "xs ! 0 = hd xs" using r(2) assms(2) by (cases xs) auto
  ultimately show thesis
    using that s r(1,5,6) assms(2) by (simp add: lap_simps)
qed

lemma repr_head_some:
  assumes "repr q h (x # xs)"
  obtains s where "get_slot q (index_of q (head q)) = Some s" "stamp s = head q + 1"
    "slot_value s = Some x" "index_of q (head q) = h mod capacity q"
  using reprD(1-6) [OF assms] reprD(7) [OF assms, of h] that
  by (fastforce simp: lap_simps elim!: slot_settledE)

lemma repr_head_none:
  assumes "repr q h []"
  obtains s where "get_slot q (index_of q (head q)) = Some s" "stamp s = head q" "tail q = head q"
  using reprD(1-6) [OF assms] reprD(7) [OF assms, of h] that
  by (fastforce simp: lap_simps elim!: slot_settledE)

section \<open>The state changes of a push, a pop and a replacement\<close>

lemma slot_settled_other:
  assumes "get_slot q' (p mod capacity q) = get_slot q (p mod capacity q)"
    "capacity q' = capacity q" "one_lap q' = one_lap q"
    "slot_settled q h xs p" "p < h' + length xs' \<longleftrightarrow> p < h + length xs"
    "p < h + length xs \<Longrightarrow> xs' ! (p - h') = xs ! (p - h)"
  shows "slot_settled q' h' xs' p"
  using assms by (auto simp: slot_settled_def split: option.splits if_splits)

lemma repr_push:
  assumes "repr q h xs" "length xs < capacity q"
    and q': "q' = put_slot (q\<lparr>tail := enc_q q (Suc (h + length xs))\<rparr>) ((h + length xs) mod capacity q) s"
    and s: "stamp s = enc_q q (h + length xs) + 1" "slot_value s = Some v"
  shows "repr q' h (xs @ [v])"
proof -
  note r = reprD [OF assms(1)]
  have "slot_settled q' h (xs @ [v]) p" if p: "h \<le> p" "p < h + capacity q" for p
  proof (cases "p = h + length xs")
    case True
    then show ?thesis using s r(2) by (simp add: slot_settled_def q' get_put_slot)
  next
    case False
    then have "p mod capacity q \<noteq> (h + length xs) mod capacity q"
      using window_mod_inj [of h p "capacity q" "h + length xs"] p assms(2) by auto
    then show ?thesis
      using False p r(7) [OF p]
      by (intro slot_settled_other [of q' p q h xs]) (auto simp: q' get_put_slot nth_append)
  qed
  then show ?thesis
    using r assms(1,2) by (auto simp: repr_def q')
qed

lemma repr_pop:
  assumes "repr q h (x # xs)"
    and q': "q' = put_slot (q\<lparr>head := enc_q q (Suc h)\<rparr>) (h mod capacity q) s"
    and s: "stamp s = enc_q q h + one_lap q"
  shows "repr q' (Suc h) xs"
proof -
  note r = reprD [OF assms(1)]
  have "slot_settled q' (Suc h) xs p" if p: "Suc h \<le> p" "p < Suc h + capacity q" for p
  proof (cases "p = h + capacity q")
    case True
    then show ?thesis using s r(1,2,4)
      by (simp add: slot_settled_def q' get_put_slot enc_plus_lap)
  next
    case False
    then have "p mod capacity q \<noteq> h mod capacity q"
      using window_mod_inj [of h p "capacity q" h] p r(2) by auto
    then show ?thesis
      using False p r(7) [of p]
      by (intro slot_settled_other [of q' p q h "x # xs"]) (auto simp: q' get_put_slot nth_Cons')
  qed
  then show ?thesis
    using r assms(1) by (auto simp: repr_def q')
qed

lemma repr_replace:
  assumes "repr q h (x # xs)" "length (x # xs) = capacity q"
    and q': "q' = put_slot (q\<lparr>head := enc_q q (Suc h), tail := enc_q q (Suc (h + capacity q))\<rparr>)
      (h mod capacity q) s"
    and s: "stamp s = enc_q q (h + capacity q) + 1" "slot_value s = Some v"
  shows "repr q' (Suc h) (xs @ [v])"
proof -
  note r = reprD [OF assms(1)]
  have "slot_settled q' (Suc h) (xs @ [v]) p" if p: "Suc h \<le> p" "p < Suc h + capacity q" for p
  proof (cases "p = h + capacity q")
    case True
    then show ?thesis using s r(2) assms(2)
      by (auto simp: slot_settled_def q' get_put_slot nth_append)
  next
    case False
    then have "p mod capacity q \<noteq> h mod capacity q"
      using window_mod_inj [of h p "capacity q" h] p r(2) by auto
    then show ?thesis
      using False p assms(2) r(7) [of p]
      by (intro slot_settled_other [of q' p q h "x # xs"])
        (auto simp: q' get_put_slot nth_append nth_Cons')
  qed
  moreover have "Suc (h + length (xs @ [v])) = Suc (h + capacity q)" using assms(2) by simp
  ultimately show ?thesis
    using r assms(1,2) by (auto simp: repr_def q')
qed

section \<open>Solo runs of the push loop\<close>

text \<open>What holds at each program counter of a solo run that started in the queue \<open>q0\<close>.\<close>

fun push_inv :: "'a queue \<Rightarrow> nat \<Rightarrow> 'a list \<Rightarrow> push_kind \<Rightarrow> 'a \<Rightarrow> 'a queue \<Rightarrow> 'a push_pc \<Rightarrow> bool" where
  "push_inv q0 h xs k v q (PushLoad k' v' b) \<longleftrightarrow> q = q0 \<and> k' = k \<and> v' = v"
| "push_inv q0 h xs k v q (PushStamp k' v' b t) \<longleftrightarrow> q = q0 \<and> k' = k \<and> v' = v \<and> t = tail q0"
| "push_inv q0 h xs k v q (PushCas k' v' b t) \<longleftrightarrow>
     q = q0 \<and> k' = k \<and> v' = v \<and> t = tail q0 \<and> length xs < capacity q0"
| "push_inv q0 h xs k v q (PushWrite k' v' t) \<longleftrightarrow>
     q = q0\<lparr>tail := next_of q0 (tail q0)\<rparr> \<and> k' = k \<and> v' = v \<and> t = tail q0 \<and>
     length xs < capacity q0"
| "push_inv q0 h xs k v q (PushPublish k' t) \<longleftrightarrow>
     (\<exists>s. slot_value s = Some v \<and>
        q = put_slot (q0\<lparr>tail := next_of q0 (tail q0)\<rparr>) (index_of q0 (tail q0)) s) \<and>
     k' = k \<and> t = tail q0 \<and> length xs < capacity q0"
| "push_inv q0 h xs k v q (PushFence k' v' b t) \<longleftrightarrow>
     q = q0 \<and> k' = k \<and> v' = v \<and> t = tail q0 \<and> length xs = capacity q0"
| "push_inv q0 h xs k v q (PushFull k' v' b t) \<longleftrightarrow>
     q = q0 \<and> k' = k \<and> v' = v \<and> t = tail q0 \<and> length xs = capacity q0"
| "push_inv q0 h xs k v q (ForceTail v' t) \<longleftrightarrow>
     q = q0\<lparr>head := next_of q0 (head q0)\<rparr> \<and> k = KForce \<and> v' = v \<and> t = tail q0 \<and>
     length xs = capacity q0"
| "push_inv q0 h xs k v q (ForceReplace v' t) \<longleftrightarrow>
     q = q0\<lparr>head := next_of q0 (head q0), tail := next_of q0 (tail q0)\<rparr> \<and> k = KForce \<and>
     v' = v \<and> t = tail q0 \<and> length xs = capacity q0"
| "push_inv q0 h xs k v q (ForcePublish old t) \<longleftrightarrow>
     (\<exists>s. slot_value s = Some v \<and>
        q = put_slot (q0\<lparr>head := next_of q0 (head q0), tail := next_of q0 (tail q0)\<rparr>)
              (index_of q0 (tail q0)) s) \<and>
     k = KForce \<and> old = hd xs \<and> t = tail q0 \<and> length xs = capacity q0"
| "push_inv q0 h xs k v q (PushRet k' r) \<longleftrightarrow>
     (if length xs < capacity q0 then r = Ok () \<and> repr q h (xs @ [v])
      else if k = KPush then r = Err v \<and> q = q0
      else r = Err (hd xs) \<and> repr q (Suc h) (tl xs @ [v])) \<and>
     capacity q = capacity q0"
| "push_inv q0 h xs k v q PushUB \<longleftrightarrow> False"

fun push_measure :: "'a push_pc \<Rightarrow> nat" where
  "push_measure (PushLoad _ _ _) = 7"
| "push_measure (PushStamp _ _ _ _) = 6"
| "push_measure (PushFence _ _ _ _) = 5"
| "push_measure (PushFull _ _ _ _) = 4"
| "push_measure (PushCas _ _ _ _) = 3"
| "push_measure (ForceTail _ _) = 3"
| "push_measure (PushWrite _ _ _) = 2"
| "push_measure (ForceReplace _ _) = 2"
| "push_measure (PushPublish _ _) = 1"
| "push_measure (ForcePublish _ _) = 1"
| "push_measure _ = 0"

lemma push_inv_stamp:
  assumes "repr q h xs"
  shows "case push_or_else_step std weak q (PushStamp k v b (tail q)) of (q', pc') \<Rightarrow>
    push_inv q h xs k v q' pc' \<and> push_measure pc' < 6"
proof (cases "length xs < capacity q")
  case True
  obtain s where "get_slot q (index_of q (tail q)) = Some s" "stamp s = tail q"
    using repr_tail_room [OF assms True] by metis
  with True show ?thesis by (simp add: slot_defs)
next
  case False
  then have full: "length xs = capacity q" using reprD(4) [OF assms] by simp
  obtain s where "get_slot q (index_of q (tail q)) = Some s" "stamp s \<noteq> tail q"
    "stamp s + one_lap q = tail q + 1"
    using repr_tail_full [OF assms full] by metis
  with full show ?thesis by (auto simp: slot_defs)
qed

lemma push_inv_full:
  assumes "repr q h xs" "length xs = capacity q"
  shows "case push_or_else_step std weak q (PushFull k v b (tail q)) of (q', pc') \<Rightarrow>
    push_inv q h xs k v q' pc' \<and> (\<not> weak \<longrightarrow> push_measure pc' < 4)"
proof -
  note r = reprD [OF assms(1)]
  have full: "head q + one_lap q = tail q"
    using repr_tail_full [OF assms] by metis
  have "next_of q (tail q) - one_lap q = next_of q (head q)"
    using r(1,5,6) assms(2) enc_minus_lap [OF r(1), of "Suc (h + capacity q)"] by (simp add: lap_simps)
  moreover have "tail q - one_lap q = head q" using full by (simp add: eq_diff_eq flip: full)
  ultimately show ?thesis
    using assms full
    by (cases k) (auto simp: push_closure_def compare_exchange_weak_def)
qed

lemma push_inv_write:
  assumes "repr q0 h xs" "push_inv q0 h xs k v q (PushWrite k' v' t)"
  shows "case push_or_else_step std weak q (PushWrite k' v' t) of (q', pc') \<Rightarrow>
    push_inv q0 h xs k v q' pc' \<and> push_measure pc' < 2"
proof -
  have room: "length xs < capacity q0" using assms(2) by simp
  obtain s where "get_slot q0 (index_of q0 (tail q0)) = Some s"
    using repr_tail_room [OF assms(1) room] by metis
  with assms(2) show ?thesis
    by (auto simp: slot_defs intro!: exI [of _ "s\<lparr>slot_value := Some v\<rparr>"])
qed

lemma push_inv_publish:
  assumes "repr q0 h xs" "push_inv q0 h xs k v q (PushPublish k' t)"
  shows "case push_or_else_step std weak q (PushPublish k' t) of (q', pc') \<Rightarrow>
    push_inv q0 h xs k v q' pc' \<and> push_measure pc' < 1"
proof -
  note r = reprD [OF assms(1)]
  let ?t = "h + length xs" and ?i = "(h + length xs) mod capacity q0"
  have room: "length xs < capacity q0" using assms(2) by simp
  obtain s where s: "slot_value s = Some v"
    "q = put_slot (q0\<lparr>tail := enc_q q0 (Suc ?t)\<rparr>) ?i s"
    using assms(2) r(1,6) by (auto simp: lap_simps)
  then have "get_slot q ?i = Some s" using r(2) by (simp add: get_put_slot)
  moreover have "repr (put_slot (q0\<lparr>tail := enc_q q0 (Suc ?t)\<rparr>) ?i (s\<lparr>stamp := enc_q q0 ?t + 1\<rparr>))
      h (xs @ [v])"
    by (rule repr_push [OF assms(1) room refl]) (simp_all add: s(1))
  ultimately show ?thesis
    using assms(2) room r(1,6) by (auto simp: s(2) slot_defs lap_simps)
qed

lemma push_inv_force_replace:
  assumes "repr q0 h xs" "push_inv q0 h xs k v q (ForceReplace v' t)"
  shows "case push_or_else_step std weak q (ForceReplace v' t) of (q', pc') \<Rightarrow>
    push_inv q0 h xs k v q' pc' \<and> push_measure pc' < 2"
proof -
  have full: "length xs = capacity q0" using assms(2) by simp
  obtain s where "get_slot q0 (index_of q0 (tail q0)) = Some s" "slot_value s = Some (hd xs)"
    using repr_tail_full [OF assms(1) full] by metis
  with assms(2) show ?thesis
    by (auto simp: slot_defs intro!: exI [of _ "s\<lparr>slot_value := Some v\<rparr>"])
qed

lemma push_inv_force_publish:
  assumes "repr q0 h xs" "push_inv q0 h xs k v q (ForcePublish old t)"
  shows "case push_or_else_step std weak q (ForcePublish old t) of (q', pc') \<Rightarrow>
    push_inv q0 h xs k v q' pc' \<and> push_measure pc' < 1"
proof -
  note r = reprD [OF assms(1)]
  let ?i = "h mod capacity q0" and ?t = "h + capacity q0"
  have full: "length xs = capacity q0" using assms(2) by simp
  then obtain x ys where xs: "xs = x # ys" using r(2) by (cases xs) auto
  let ?q = "q0\<lparr>head := enc_q q0 (Suc h), tail := enc_q q0 (Suc ?t)\<rparr>"
  obtain s where s: "slot_value s = Some v" "q = put_slot ?q ?i s"
    using assms(2) r(1,5,6) by (auto simp: lap_simps)
  then have "get_slot q ?i = Some s" using r(2) by (simp add: get_put_slot)
  moreover have "repr (put_slot ?q ?i (s\<lparr>stamp := enc_q q0 ?t + 1\<rparr>)) (Suc h) (ys @ [v])"
    using assms(1) full by (intro repr_replace [OF _ _ refl, of q0 h x ys]) (simp_all add: s(1) xs)
  moreover have t: "t = enc_q q0 ?t" using assms(2) full r(6) by simp
  moreover have "k = KForce" "old = x" using assms(2) by (simp_all add: xs)
  moreover have "index_of q t = ?i" "one_lap q = one_lap q0"
    using r(1) by (simp_all add: t s(2) lap_simps)
  ultimately show ?thesis
    using full by (simp add: slot_defs xs) (simp add: s(2))
qed

lemma push_inv_step:
  assumes "repr q0 h xs" "push_inv q0 h xs k v q pc" "push_returned pc = None"
  shows "case push_or_else_step std weak q pc of (q', pc') \<Rightarrow>
    push_inv q0 h xs k v q' pc' \<and> (\<not> weak \<longrightarrow> push_measure pc' < push_measure pc)"
proof (cases pc)
  case (PushStamp k' v' b t)
  then show ?thesis using assms(2) push_inv_stamp [OF assms(1), where std = std and weak = weak and b = b and k = k and v = v] by auto
next
  case (PushFull k' v' b t)
  then show ?thesis using assms(2) push_inv_full [OF assms(1), where std = std and weak = weak and b = b and k = k and v = v] by auto
next
  case (PushWrite k' v' t)
  then show ?thesis using push_inv_write [OF assms(1)] assms(2) by fastforce
next
  case (PushPublish k' t)
  then show ?thesis using push_inv_publish [OF assms(1)] assms(2) by fastforce
next
  case (ForceReplace v' t)
  then show ?thesis using push_inv_force_replace [OF assms(1)] assms(2) by fastforce
next
  case (ForcePublish old t)
  then show ?thesis using push_inv_force_publish [OF assms(1)] assms(2) by fastforce
qed (use assms in \<open>auto simp: compare_exchange_weak_def\<close>)

lemma push_or_else_total:
  assumes "repr q h xs"
  shows "\<exists>q' k' r. push_or_else std ws q k v = Some (q', r) \<and> push_inv q h xs k v q' (PushRet k' r)"
proof -
  have "\<exists>q' pc' r. push_or_else std ws q k v = Some (q', r) \<and> push_inv q h xs k v q' pc' \<and>
      push_returned pc' = Some r"
    unfolding push_or_else_def push_start_def
  proof (rule run_solo_total [where m = push_measure])
    show "push_inv q h xs k v q (PushLoad k v backoff_new)" by simp
  next
    fix w s pc
    assume "push_inv q h xs k v s pc" "push_returned pc = None"
    from push_inv_step [OF assms this, where std = std and weak = w]
    show "case push_or_else_step std w s pc of (s', pc') \<Rightarrow> push_inv q h xs k v s' pc'" by auto
  next
    fix s pc
    assume "push_inv q h xs k v s pc" "push_returned pc = None"
    from push_inv_step [OF assms this, where std = std and weak = False]
    show "push_measure (snd (push_or_else_step std False s pc)) < push_measure pc" by auto
  next
    fix s pc
    show "push_measure pc \<le> 7" by (cases pc) auto
  qed
  then obtain q' pc' r where "push_or_else std ws q k v = Some (q', r)" "push_inv q h xs k v q' pc'"
    "push_returned pc' = Some r" by blast
  then show ?thesis by (cases pc') auto
qed

section \<open>Solo runs of the pop loop\<close>

fun pop_inv :: "'a queue \<Rightarrow> nat \<Rightarrow> 'a list \<Rightarrow> 'a queue \<Rightarrow> 'a pop_pc \<Rightarrow> bool" where
  "pop_inv q0 h xs q (PopLoad b) \<longleftrightarrow> q = q0"
| "pop_inv q0 h xs q (PopStamp b w) \<longleftrightarrow> q = q0 \<and> w = head q0"
| "pop_inv q0 h xs q (PopCas b w) \<longleftrightarrow> q = q0 \<and> w = head q0 \<and> xs \<noteq> []"
| "pop_inv q0 h xs q (PopRead w) \<longleftrightarrow>
     q = q0\<lparr>head := next_of q0 (head q0)\<rparr> \<and> w = head q0 \<and> xs \<noteq> []"
| "pop_inv q0 h xs q (PopPublish w msg) \<longleftrightarrow>
     q = q0\<lparr>head := next_of q0 (head q0)\<rparr> \<and> w = head q0 \<and> xs \<noteq> [] \<and> msg = hd xs"
| "pop_inv q0 h xs q (PopFence b w) \<longleftrightarrow> q = q0 \<and> w = head q0 \<and> xs = []"
| "pop_inv q0 h xs q (PopEmpty b w) \<longleftrightarrow> q = q0 \<and> w = head q0 \<and> xs = []"
| "pop_inv q0 h xs q (PopRet r) \<longleftrightarrow>
     (case xs of
        [] \<Rightarrow> r = None \<and> q = q0
      | x # ys \<Rightarrow> r = Some x \<and> repr q (Suc h) ys \<and> capacity q = capacity q0)"
| "pop_inv q0 h xs q PopUB \<longleftrightarrow> False"

fun pop_measure :: "'a pop_pc \<Rightarrow> nat" where
  "pop_measure (PopLoad _) = 5"
| "pop_measure (PopStamp _ _) = 4"
| "pop_measure (PopCas _ _) = 3"
| "pop_measure (PopRead _) = 2"
| "pop_measure (PopPublish _ _) = 1"
| "pop_measure (PopFence _ _) = 2"
| "pop_measure (PopEmpty _ _) = 1"
| "pop_measure _ = 0"

lemma pop_inv_stamp:
  assumes "repr q h xs"
  shows "case pop_step std weak q (PopStamp b (head q)) of (q', pc') \<Rightarrow>
    pop_inv q h xs q' pc' \<and> pop_measure pc' < 4"
proof (cases xs)
  case Nil
  obtain s where "get_slot q (index_of q (head q)) = Some s" "stamp s = head q"
    using repr_head_none assms Nil by metis
  with Nil show ?thesis by (simp add: slot_defs)
next
  case (Cons x ys)
  obtain s where "get_slot q (index_of q (head q)) = Some s" "stamp s = head q + 1"
    using repr_head_some assms Cons by metis
  with Cons show ?thesis by (simp add: slot_defs)
qed

lemma pop_inv_step:
  assumes "repr q0 h xs" "pop_inv q0 h xs q pc" "pop_returned pc = None"
  shows "case pop_step std weak q pc of (q', pc') \<Rightarrow>
    pop_inv q0 h xs q' pc' \<and> (\<not> weak \<longrightarrow> pop_measure pc' < pop_measure pc)"
proof (cases pc)
  case (PopStamp b w)
  then show ?thesis
    using assms(2) pop_inv_stamp [OF assms(1), where std = std and weak = weak and b = b] by auto
next
  case (PopRead w)
  then obtain x ys where xs: "xs = x # ys" using assms(2) by (cases xs) auto
  obtain s where "get_slot q0 (index_of q0 (head q0)) = Some s" "slot_value s = Some x"
    using repr_head_some assms(1) xs by metis
  then show ?thesis using PopRead assms(2) xs by (simp add: slot_defs)
next
  case (PopPublish w msg)
  then obtain x ys where xs: "xs = x # ys" using assms(2) by (cases xs) auto
  note r = reprD [OF assms(1)]
  obtain s where s: "get_slot q0 (index_of q0 (head q0)) = Some s"
    using repr_head_some assms(1) xs by metis
  have "repr (put_slot (q0\<lparr>head := enc_q q0 (Suc h)\<rparr>) (h mod capacity q0)
      (s\<lparr>stamp := enc_q q0 h + one_lap q0\<rparr>)) (Suc h) ys"
    using assms(1) xs by (intro repr_pop [OF _ refl, of q0 h x]) simp_all
  then show ?thesis using PopPublish assms(2) xs s r(1,5) by (simp add: slot_defs lap_simps)
next
  case (PopEmpty b w)
  then have "tail q0 = head q0" using repr_head_none assms by (metis pop_inv.simps(7))
  then show ?thesis using PopEmpty assms(2) by simp
qed (use assms in \<open>auto simp: compare_exchange_weak_def\<close>)

lemma pop_total:
  assumes "repr q h xs"
  shows "\<exists>q' r. pop std ws q = Some (q', r) \<and> pop_inv q h xs q' (PopRet r)"
proof -
  have "\<exists>q' pc' r. pop std ws q = Some (q', r) \<and> pop_inv q h xs q' pc' \<and> pop_returned pc' = Some r"
    unfolding pop_def pop_start_def
  proof (rule run_solo_total [where m = pop_measure])
    show "pop_inv q h xs q (PopLoad backoff_new)" by simp
  next
    fix w s pc
    assume "pop_inv q h xs s pc" "pop_returned pc = None"
    from pop_inv_step [OF assms this, where std = std and weak = w]
    show "case pop_step std w s pc of (s', pc') \<Rightarrow> pop_inv q h xs s' pc'" by auto
  next
    fix s pc
    assume "pop_inv q h xs s pc" "pop_returned pc = None"
    from pop_inv_step [OF assms this, where std = std and weak = False]
    show "pop_measure (snd (pop_step std False s pc)) < pop_measure pc" by auto
  next
    fix s pc
    show "pop_measure pc \<le> 5" by (cases pc) auto
  qed
  then obtain q' pc' r where "pop std ws q = Some (q', r)" "pop_inv q h xs q' pc'"
    "pop_returned pc' = Some r" by blast
  then show ?thesis by (cases pc') auto
qed

section \<open>Observers\<close>

lemma span_len_enc:
  assumes "lap_ok N L" "n \<le> N" "N < 2 ^ 62"
  shows "span_len N L (enc N L h) (enc N L (h + n)) = n"
proof -
  have N: "0 < N" using assms(1) by (simp add: lap_ok_def)
  have eq: "enc N L (h + n) = enc N L h \<longleftrightarrow> n = 0"
    using assms by (simp add: enc_eq)
  show ?thesis
  proof (cases "h mod N + n < N")
    case True
    then have "(h + n) mod N = h mod N + n" by (metis mod_add_left_eq mod_less)
    then show ?thesis using assms(1) eq by (auto simp: span_len_def lap_simps)
  next
    case False
    have "(h mod N + n) mod N = h mod N + n - N"
      using False assms(2) N mod_less_divisor [OF N, of h] by (simp add: le_mod_geq)
    then have "(h + n) mod N = h mod N + n - N" by (metis mod_add_left_eq)
    then show ?thesis using assms(1,2) eq False N mod_less_divisor [OF N, of h]
      by (auto simp: span_len_def lap_simps Let_def)
  qed
qed

lemma observers_ok:
  assumes "repr q h xs"
  shows "len q = Some (length xs)" "is_empty q = Some (xs = [])"
    "is_full q = Some (length xs = capacity q)"
proof -
  note r = reprD [OF assms]
  show "len q = Some (length xs)"
    using r by (simp add: len_def span_len_enc)
  show "is_empty q = Some (xs = [])"
    using r(1,3-6) by (simp add: is_empty_def enc_eq)
  show "is_full q = Some (length xs = capacity q)"
    using r(1,3-6) by (auto simp: is_full_def enc_plus_lap enc_eq)
qed

section \<open>Construction\<close>

lemma new_loop_fill:
  "length buf = N \<Longrightarrow> i \<le> N \<Longrightarrow>
   new_loop N i buf = take i buf @ map (\<lambda>j. Some \<lparr>stamp = of_nat j, slot_value = None\<rparr>) [i..<N]"
proof (induction N i buf rule: new_loop.induct)
  case (1 N i buf)
  show ?case
  proof (cases "i < N")
    case True
    let ?buf = "buf[i := Some \<lparr>stamp = of_nat i, slot_value = None\<rparr>]"
    have "take (i + 1) ?buf = take i buf @ [Some \<lparr>stamp = of_nat i, slot_value = None\<rparr>]"
      using True "1.prems" by (simp add: take_Suc_conv_app_nth)
    then show ?thesis
      using "1.IH" [OF True] True "1.prems" by (simp add: new_loop.simps [of N i buf] upt_conv_Cons)
  next
    case False
    then have "i = N" using "1.prems" by simp
    then show ?thesis using "1.prems" by (simp add: new_loop.simps [of N N buf])
  qed
qed

lemma new_repr:
  assumes "0 < N" "N \<le> max_capacity"
  shows "\<exists>q :: 'a queue. new N = Some q \<and> repr q 0 [] \<and> capacity q = N"
proof -
  have "N < 2 ^ 62" using assms(2) by (simp add: max_capacity_def)
  then obtain L where L: "one_lap_for (of_nat N) = Some L" "lap_ok N L"
    using one_lap_for_ok [OF assms(1)] by blast
  let ?q = "\<lparr>head = 0, tail = 0, buffer = new_loop N 0 (replicate N None), one_lap = L\<rparr> :: 'a queue"
  have buf: "buffer ?q = map (\<lambda>j. Some \<lparr>stamp = of_nat j, slot_value = None\<rparr>) [0..<N]"
    by (simp add: new_loop_fill)
  then have cap: "capacity ?q = N" by (simp add: capacity_def)
  have "slot_settled ?q 0 [] p" if "p < N" for p
    using that buf by (simp add: slot_settled_def get_slot_def capacity_def enc_def)
  then have "repr ?q 0 []" using L(2) assms cap by (simp add: repr_def enc_def)
  moreover have "new N = Some ?q" using assms L(1) by (simp add: new_def)
  ultimately show ?thesis using cap by blast
qed

lemma new_panics: "(new N :: 'a queue option) = None \<longleftrightarrow> N = 0 \<or> max_capacity < N"
  using new_repr [of N, where 'a = 'a] by (cases "0 < N \<and> N \<le> max_capacity") (auto simp: new_def)

section \<open>The contents of a queue, and the contract\<close>

text \<open>The payloads between the two counters, read off the memory.\<close>

definition contents :: "'a queue \<Rightarrow> 'a list" where
  "contents q =
     map (\<lambda>i. case get_slot q ((slot_index (one_lap q) (head q) + i) mod capacity q) of
                Some s \<Rightarrow> the (slot_value s))
       [0..<span_len (capacity q) (one_lap q) (head q) (tail q)]"

definition wf_queue :: "'a queue \<Rightarrow> bool" where
  "wf_queue q \<longleftrightarrow> (\<exists>h. repr q h (contents q))"

lemma repr_contents:
  assumes "repr q h xs"
  shows "contents q = xs"
proof (rule nth_equalityI)
  note r = reprD [OF assms]
  have len: "span_len (capacity q) (one_lap q) (head q) (tail q) = length xs"
    using r by (simp add: span_len_enc)
  then show "length (contents q) = length xs" by (simp add: contents_def)
  fix i
  assume "i < length (contents q)"
  then have i: "i < length xs" by (simp add: contents_def len)
  obtain s where "get_slot q ((h + i) mod capacity q) = Some s" "slot_value s = Some (xs ! i)"
    using r(4) i r(7) [of "h + i"] by (auto elim!: slot_settledE)
  moreover have "(h mod capacity q + i) mod capacity q = (h + i) mod capacity q"
    by (simp add: mod_add_left_eq)
  ultimately show "contents q ! i = xs ! i"
    using i len r(1,5) by (simp add: contents_def lap_simps)
qed

lemma repr_wf: "repr q h xs \<Longrightarrow> wf_queue q"
  by (auto simp: wf_queue_def repr_contents)

lemma wf_queueE:
  assumes "wf_queue q"
  obtains h where "repr q h (contents q)"
  using assms by (auto simp: wf_queue_def)

interpretation nq: ring_queue wf_queue contents capacity
    "\<lambda>q v. push std (ws q) q v" "\<lambda>q. pop std (ws q) q" "\<lambda>q v. force_push std (ws q) q v"
    len is_empty is_full
  for std :: bool and ws :: "'a queue \<Rightarrow> bool list"
proof (unfold_locales, goal_cases)
  case (1 q)
  then show ?case by (metis wf_queueE reprD(4))
next
  case (2 q v)
  obtain h where h: "repr q h (contents q)" by (rule wf_queueE [OF 2(1)])
  from push_or_else_total [OF h, of std "ws q" KPush v] 2(2) show ?case
    by (auto simp: push_def repr_contents intro: repr_wf)
next
  case (3 q v)
  obtain h where h: "repr q h (contents q)" by (rule wf_queueE [OF 3(1)])
  from push_or_else_total [OF h, of std "ws q" KPush v] 3 show ?case
    by (auto simp: push_def)
next
  case (4 q x xs)
  obtain h where h: "repr q h (x # xs)" using wf_queueE [OF 4(1)] 4(2) by metis
  from pop_total [OF h, of std "ws q"] show ?case
    by (auto simp: repr_contents intro: repr_wf)
next
  case (5 q)
  obtain h where h: "repr q h []" using wf_queueE [OF 5(1)] 5(2) by metis
  from pop_total [OF h, of std "ws q"] 5 show ?case by auto
next
  case (6 q)
  then show ?case by (metis wf_queueE reprD(2))
next
  case (7 q v)
  obtain h where h: "repr q h (contents q)" by (rule wf_queueE [OF 7(1)])
  from push_or_else_total [OF h, of std "ws q" KForce v] 7(2) show ?case
    by (auto simp: force_push_def repr_contents intro: repr_wf)
next
  case (8 q v)
  obtain h where h: "repr q h (contents q)" by (rule wf_queueE [OF 8(1)])
  from push_or_else_total [OF h, of std "ws q" KForce v] 8(2) show ?case
    by (auto simp: force_push_def repr_contents intro: repr_wf)
qed (auto elim!: wf_queueE simp: observers_ok)

section \<open>Dropping a queue\<close>

lemma drop_index:
  "hix < N \<Longrightarrow> i \<le> N \<Longrightarrow> (if hix + i < N then hix + i else hix + i - N) = (hix + i) mod (N :: nat)"
  by (simp add: le_mod_geq)

text \<open>The loop meets the slots of the represented positions in order, and each payload once.\<close>

lemma drop_loop_settled:
  assumes "i + length xs \<le> n" "n \<le> capacity q" "0 < capacity q"
    "\<And>j. j < length xs \<Longrightarrow>
      \<exists>s. get_slot q ((h + (i + j)) mod capacity q) = Some s \<and> slot_value s = Some (xs ! j)"
  shows "\<exists>q'. drop_loop (capacity q) (h mod capacity q) [i..<i + length xs] q = Some (q', xs)"
  using assms
proof (induction xs arbitrary: i q)
  case Nil
  then show ?case by simp
next
  case (Cons x xs)
  let ?N = "capacity q" and ?k = "(h + i) mod capacity q"
  obtain s where s: "get_slot q ?k = Some s" "slot_value s = Some x"
    using Cons.prems(4) [of 0] by auto
  let ?q = "put_slot q ?k (s\<lparr>slot_value := None\<rparr>)"
  have idx: "(if h mod ?N + i < ?N then h mod ?N + i else h mod ?N + i - ?N) = ?k"
    using Cons.prems(1-3) drop_index [of "h mod ?N" ?N i] by (simp add: mod_add_left_eq)
  have "\<exists>s. get_slot ?q ((h + (Suc i + j)) mod ?N) = Some s \<and> slot_value s = Some (xs ! j)"
    if j: "j < length xs" for j
  proof -
    have "(h + (Suc i + j)) mod ?N \<noteq> ?k"
    proof
      assume "(h + (Suc i + j)) mod ?N = ?k"
      then have "h + (Suc i + j) = h + i"
        using j Cons.prems(1-3) window_mod_inj [of "h + i" "h + (Suc i + j)" ?N "h + i"] by simp
      then show False by simp
    qed
    then show ?thesis
      using Cons.prems(4) [of "Suc j"] j by (simp add: get_put_slot)
  qed
  then obtain q' where "drop_loop ?N (h mod ?N) [Suc i..<Suc i + length xs] ?q = Some (q', xs)"
    using Cons.IH [of "Suc i" ?q] Cons.prems(1-3) by auto
  moreover have "[i..<i + length (x # xs)] = i # [Suc i..<Suc i + length xs]"
    by (simp add: upt_conv_Cons del: upt_Suc)
  ultimately show ?case
    using s by (simp only: drop_loop.simps Let_def idx) (simp add: drop_value_def del: upt_Suc)
qed

lemma drop_queue_contents:
  assumes "wf_queue q"
  shows "\<exists>q'. drop_queue True q = Some (q', contents q)"
proof -
  obtain h where h: "repr q h (contents q)" by (rule wf_queueE [OF assms])
  note r = reprD [OF h]
  let ?xs = "contents q"
  have "\<exists>s. get_slot q ((h + (0 + j)) mod capacity q) = Some s \<and> slot_value s = Some (?xs ! j)"
    if j: "j < length ?xs" for j
    using j r(4) r(7) [of "h + j"] by (auto elim!: slot_settledE)
  then have "\<exists>q'. drop_loop (capacity q) (h mod capacity q) [0..<0 + length ?xs] q = Some (q', ?xs)"
    using r(2,4) by (intro drop_loop_settled [where n = "length ?xs"]) auto
  then show ?thesis
    using r by (simp add: drop_queue_def span_len_enc lap_simps)
qed

section \<open>A queue of capacity two, written out\<close>

abbreviation queue2 :: "nat queue" where
  "queue2 \<equiv> \<lparr>head = 0, tail = 0, buffer = [Some \<lparr>stamp = 0, slot_value = None\<rparr>,
     Some \<lparr>stamp = 1, slot_value = None\<rparr>], one_lap = 4\<rparr>"

lemma new_two: "new 2 = Some queue2"
proof -
  note one_lap_for_two
  moreover have "new_loop 2 0 (replicate 2 None) = [Some \<lparr>stamp = 0, slot_value = None\<rparr>,
     Some \<lparr>stamp = 1, slot_value = (None :: nat option)\<rparr>]"
    by (simp add: new_loop.simps numeral_2_eq_2)
  ultimately show ?thesis by (simp add: new_def max_capacity_def)
qed

lemma wf_queue2: "wf_queue queue2" "contents queue2 = []"
proof -
  have "repr queue2 0 []" using new_repr [of 2, where 'a = nat] new_two by (auto simp: max_capacity_def)
  then show "wf_queue queue2" "contents queue2 = []" by (auto intro: repr_wf repr_contents)
qed

lemma new_wf:
  assumes "new N = Some (q :: 'a queue)"
  shows "wf_queue q" "contents q = []" "capacity q = N"
proof -
  have "0 < N" "N \<le> max_capacity" using assms by (auto simp: new_def split: if_splits)
  from new_repr [OF this, where 'a = 'a] have "repr q 0 []" "capacity q = N" using assms by auto
  then show "wf_queue q" "contents q = []" "capacity q = N" by (auto intro: repr_wf repr_contents)
qed

section \<open>Properties\<close>

text \<open>C6: Equivalence with the reference queue of the differential test. Any sequence of \<open>push\<close>,
  \<open>pop\<close>, \<open>force_push\<close>, \<open>len\<close>, \<open>is_empty\<close> and \<open>is_full\<close> on a new queue returns, and returns what a
  double-ended queue with the same bound returns, whatever exchanges fail spuriously.\<close>

theorem differential:
  assumes "new N = Some q"
  shows "\<exists>q' rs. run_ops (ring_op (\<lambda>q v. push std (ws q) q v) (\<lambda>q. pop std (ws q) q)
      (\<lambda>q v. force_push std (ws q) q v) len is_empty is_full) q ps = Some (q', rs) \<and>
    vec_deque_run N [] ps = (contents q', rs)"
  using nq.ring_run_refines [OF new_wf(1) [OF assms], of std ws ps] new_wf [OF assms] by auto

theorem differential_witness:
  "\<exists>q' rs. run_ops (ring_op (\<lambda>q v. push False [True] q v) (\<lambda>q. pop False [True] q)
      (\<lambda>q v. force_push False [True] q v) len is_empty is_full) queue2
      [OpPush 1, OpPush 2, OpForcePush 3, OpPop, OpLen] = Some (q', rs) \<and>
    vec_deque_run 2 [] [OpPush 1, OpPush 2, OpForcePush 3, OpPop, OpLen] = (contents q', rs)"
  using differential [OF new_two, of False "\<lambda>_. [True]"] .

text \<open>First in, first out. In any run of \<open>enqueue\<close> and \<open>dequeue\<close> the accepted values, in their
  order, are the delivered values followed by what is left in the queue.\<close>

theorem fifo_conservation:
  assumes "wf_queue q" "run_ops (fifo_op (\<lambda>q v. enqueue std (ws q) q v) (\<lambda>q. dequeue std (ws q) q)) q ps =
    Some (q', rs)"
  shows "contents q @ accepted ps rs = delivered rs @ contents q'"
  using nq.run_conserves [OF assms(1), of std ws ps q' rs] assms(2)
  by (simp add: enqueue_def dequeue_def)

theorem fifo_conservation_witness:
  "\<exists>q' rs. run_ops (fifo_op (\<lambda>q v. enqueue False [] q v) (\<lambda>q. dequeue False [] q)) queue2
      [Enq 1, Enq 2, Deq] = Some (q', rs) \<and> accepted [Enq 1, Enq 2, Deq] rs = delivered rs @ contents q'"
proof -
  obtain q' rs where r: "run_ops (fifo_op (\<lambda>q v. enqueue False [] q v) (\<lambda>q. dequeue False [] q)) queue2
      [Enq 1, Enq 2, Deq] = Some (q', rs)"
    using nq.run_refines [OF wf_queue2(1), of False "\<lambda>_. []" "[Enq 1, Enq 2, Deq]"]
    by (auto simp: enqueue_def [abs_def] dequeue_def [abs_def])
  from fifo_conservation [OF wf_queue2(1) r] r wf_queue2(2) show ?thesis by auto
qed

text \<open>C37: Construction. \<open>new\<close> panics exactly on a capacity of zero or beyond the asserted bound;
  otherwise it gives an empty, well-formed queue of that capacity.\<close>

theorem new_correct:
  "case (new N :: 'a queue option) of
     None \<Rightarrow> N = 0 \<or> max_capacity < N
   | Some q \<Rightarrow> 0 < N \<and> N \<le> max_capacity \<and> wf_queue q \<and> contents q = [] \<and> capacity q = N"
proof (cases "new N :: 'a queue option")
  case None
  then show ?thesis using new_panics [of N, where 'a = 'a] by simp
next
  case (Some q)
  then show ?thesis using new_wf [OF Some] new_panics [of N, where 'a = 'a] by (auto simp: not_less)
qed

text \<open>Destruction. On a well-formed queue \<open>drop\<close> runs the destructor of exactly the stored
  payloads, oldest first, and reads no uninitialised memory; for a type without destructor it
  does nothing.\<close>

theorem drop_exact:
  assumes "wf_queue q"
  shows "\<exists>q'. drop_queue needs_drop q = Some (q', if needs_drop then contents q else [])"
  using drop_queue_contents [OF assms] by (cases needs_drop) (auto simp: drop_queue_def)

theorem drop_exact_witness:
  "\<exists>q' q''. push False [] queue2 7 = Some (q', Ok ()) \<and> contents q' = [7] \<and>
     drop_queue True q' = Some (q'', [7])"
proof -
  obtain q' where q': "push False [] queue2 7 = Some (q', Ok ())" "wf_queue q'" "contents q' = [7]"
    using nq.enq_room [OF wf_queue2(1), of False "\<lambda>_. []" 7] wf_queue2(2) by (auto simp: capacity_def)
  from drop_exact [OF q'(2), of True] q'(1,3) show ?thesis by auto
qed

end
