(* ===== verification/Linearize.thy ===== *)
theory Linearize
  imports Prelude
begin

text \<open>
  Labelled executions of a system of threads, their histories, and the forward simulation that
  carries every history of a concurrent system over to its atomic specification. The relation
  carries a step count: a system whose counters wrap around is only related to its
  specification for a bounded number of steps.
\<close>

section \<open>Executions and histories\<close>

datatype ('c, 'r) label = Call nat 'c | Return nat 'r | Tau

inductive exec :: "('s \<Rightarrow> ('c, 'r) label \<Rightarrow> 's \<Rightarrow> bool) \<Rightarrow> 's \<Rightarrow> ('c, 'r) label list \<Rightarrow> 's \<Rightarrow> bool"
  for step and s where
  exec_nil: "exec step s [] s"
| exec_snoc: "exec step s ls s' \<Longrightarrow> step s' l s'' \<Longrightarrow> exec step s (ls @ [l]) s''"

definition history :: "('c, 'r) label list \<Rightarrow> ('c, 'r) label list" where
  "history ls = filter (\<lambda>l. l \<noteq> Tau) ls"

lemma history_simps [simp]:
  "history [] = []"
  "history (l # ls) = (if l = Tau then history ls else l # history ls)"
  "history (ls @ ms) = history ls @ history ms"
  by (auto simp: history_def)

lemma sum_list_map_history:
  fixes f :: "('c, 'r) label \<Rightarrow> 'b :: comm_monoid_add"
  shows "f Tau = 0 \<Longrightarrow> sum_list (map f (history ls)) = sum_list (map f ls)"
  by (induction ls) auto

lemma exec_one: "step s l s' \<Longrightarrow> exec step s [l] s'"
  using exec_snoc [OF exec_nil] by fastforce

lemma exec_append:
  assumes "exec step s' ms s''" "exec step s ls s'"
  shows "exec step s (ls @ ms) s''"
  using assms(1)
proof induction
  case (exec_snoc ms s'' l s''')
  then show ?case using exec.exec_snoc [of step s "ls @ ms" s'' l s'''] by simp
qed (simp add: assms(2))

lemma exec_step_first:
  assumes "step s l s'" "exec step s' ls s''"
  shows "exec step s (l # ls) s''"
  using assms(2)
proof induction
  case exec_nil
  show ?case using exec.exec_snoc [of step s "[]" s l s'] exec.exec_nil [of step s] assms(1) by simp
next
  case (exec_snoc ls s' l' s'')
  then show ?case using exec.exec_snoc by fastforce
qed

section \<open>Accounts\<close>

text \<open>
  Payloads (or numbers) that the calls pay in and the returns draw out: if every step balances what it pays and
  draws with the stock of the system and what the operation under way of one thread holds, so does every execution.
\<close>

locale balance_sheet =
  fixes step :: "'s \<Rightarrow> ('c, 'r) label \<Rightarrow> 's \<Rightarrow> bool" and s0 :: 's
    and paid drawn :: "('c, 'r) label \<Rightarrow> 'b :: cancel_comm_monoid_add"
    and stock :: "'s \<Rightarrow> 'b" and status :: "'s \<Rightarrow> nat \<Rightarrow> 't" and idle :: 't and held :: "'t \<Rightarrow> 'b"
  assumes all_idle: "status s0 = (\<lambda>_. idle)" and no_stock: "stock s0 = 0" and idle_holds: "held idle = 0"
    and balanced: "step s l s' \<Longrightarrow> \<exists>i x. paid l + stock s + held (status s i) = drawn l + stock s' + held x \<and>
      status s' = (status s)(i := x)"
begin

lemma sum_update:
  assumes "i < (n :: nat)"
  shows "(\<Sum>j<n. held ((st(i := x)) j)) + held (st i) = (\<Sum>j<n. held (st j)) + held x"
proof -
  have "(\<Sum>j\<in>{..<n} - {i}. held ((st(i := x)) j)) = (\<Sum>j\<in>{..<n} - {i}. held (st j))"
    by (intro sum.cong) auto
  then show ?thesis using assms by (simp add: sum.remove [of "{..<n}" i] ac_simps)
qed

lemma account_step:
  fixes ti :: 'b
  assumes "ti = to + I + F" "hi + I + c = ho + I' + x" "F' + c = F + x"
  shows "ti + hi = to + ho + I' + F'"
proof (rule add_right_imp_eq)
  have "ti + hi + c = to + F + (hi + I + c)" by (simp add: assms(1) ac_simps)
  also have "\<dots> = to + ho + I' + (F + x)" unfolding assms(2) by (simp add: ac_simps)
  also have "\<dots> = to + ho + I' + F' + c" unfolding assms(3) [symmetric] by (simp add: ac_simps)
  finally show "ti + hi + c = to + ho + I' + F' + c" .
qed

lemma balance:
  assumes "exec step s0 ls s"
  shows "\<exists>m. \<forall>n\<ge>m. (\<forall>j\<ge>n. status s j = idle) \<and>
    sum_list (map paid ls) = sum_list (map drawn ls) + stock s + (\<Sum>j<n. held (status s j))"
  using assms
proof induction
  case exec_nil
  then show ?case by (simp add: all_idle no_stock idle_holds)
next
  case (exec_snoc ls s l s')
  then obtain m where m: "\<And>n. n \<ge> m \<Longrightarrow> (\<forall>j\<ge>n. status s j = idle) \<and>
    sum_list (map paid ls) = sum_list (map drawn ls) + stock s + (\<Sum>j<n. held (status s j))" by auto
  obtain i x where b: "paid l + stock s + held (status s i) = drawn l + stock s' + held x"
    "status s' = (status s)(i := x)" using balanced [OF exec_snoc.hyps(2)] by blast
  have "(\<forall>j\<ge>n. status s' j = idle) \<and>
      sum_list (map paid (ls @ [l])) = sum_list (map drawn (ls @ [l])) + stock s' + (\<Sum>j<n. held (status s' j))"
    if n: "n \<ge> max m (Suc i)" for n
    using m [of n] n b(2) account_step [OF conjunct2 [OF m [of n]] b(1)] sum_update [of i n "status s" x] by auto
  then show ?case by blast
qed

end

section \<open>Schedules\<close>

text \<open>An executable scheduler: given a function that performs one move (a call, a step of a thread with
  the machine's choices for it, or a return), it runs an interleaving and gives its labels.\<close>

datatype ('c, 'x) move = MCall nat 'c | MStep nat 'x | MReturn nat

fun sched_run :: "('s \<Rightarrow> ('c, 'x) move \<Rightarrow> (('c, 'r) label \<times> 's) option) \<Rightarrow> 's \<Rightarrow> ('c, 'x) move list \<Rightarrow>
    (('c, 'r) label list \<times> 's) option" where
  "sched_run f s [] = Some ([], s)"
| "sched_run f s (m # ms) =
     (case f s m of
        None \<Rightarrow> None
      | Some (l, s') \<Rightarrow> map_option (\<lambda>(ls, s''). (l # ls, s'')) (sched_run f s' ms))"

lemma sched_run_exec:
  assumes "\<And>s m l s'. f s m = Some (l, s') \<Longrightarrow> step s l s'" "sched_run f s ms = Some (ls, s')"
  shows "exec step s ls s'"
  using assms(2)
  by (induction ms arbitrary: s ls)
    (auto intro: exec_nil exec_step_first assms(1) split: option.splits)

lemma sched_run_length: "sched_run f s ms = Some (ls, s') \<Longrightarrow> length ls = length ms"
  by (induction ms arbitrary: s ls) (auto split: option.splits)

lemma sched_run_append:
  "sched_run f s ms = Some (ls, s') \<Longrightarrow>
   sched_run f s (ms @ ns) = map_option (\<lambda>(ls', s''). (ls @ ls', s'')) (sched_run f s' ns)"
  by (induction ms arbitrary: s ls) (auto simp: option.map_comp comp_def split_def map_option.id [unfolded id_def] split: option.splits)

text \<open>The thread that moves; what the moves of others leave alone is left alone by a run without this thread.\<close>

fun mover :: "('c, 'x) move \<Rightarrow> nat" where
  "mover (MCall i c) = i"
| "mover (MStep i x) = i"
| "mover (MReturn i) = i"

lemma sched_run_frame:
  assumes "\<And>s m l s'. f s m = Some (l, s') \<Longrightarrow> i \<noteq> mover m \<Longrightarrow> view s' = view s"
  shows "sched_run f s ms = Some (ls, s') \<Longrightarrow> i \<notin> mover ` set ms \<Longrightarrow> view s' = view s"
  by (induction ms arbitrary: s ls) (auto split: option.splits dest: assms)

section \<open>Forward simulation with a step budget\<close>

locale bounded_simulation =
  fixes cstep :: "'s \<Rightarrow> ('c, 'r) label \<Rightarrow> 's \<Rightarrow> bool"
    and astep :: "'t \<Rightarrow> ('c, 'r) label \<Rightarrow> 't \<Rightarrow> bool"
    and related :: "nat \<Rightarrow> 's \<Rightarrow> 't \<Rightarrow> bool"
    and initial :: "'s \<Rightarrow> bool" and a0 :: 't and budget :: nat
  assumes related_init: "initial s \<Longrightarrow> related 0 s a0"
    and related_step: "related n s a \<Longrightarrow> n < budget \<Longrightarrow> cstep s l s' \<Longrightarrow>
      \<exists>a'. related (Suc n) s' a' \<and> (astep a l a' \<or> l = Tau \<and> a' = a)"
begin

lemma exec_related:
  assumes "exec cstep s ls s'" "initial s" "length ls \<le> budget"
  shows "\<exists>ls' a. exec astep a0 ls' a \<and> history ls' = history ls \<and> related (length ls) s' a"
  using assms(1,3)
proof induction
  case exec_nil
  then show ?case using related_init [OF assms(2)] exec.exec_nil by fastforce
next
  case (exec_snoc ls s' l s'')
  then obtain ls' a where a: "exec astep a0 ls' a" "history ls' = history ls" "related (length ls) s' a"
    by auto
  with exec_snoc obtain a' where a': "related (Suc (length ls)) s'' a'" "astep a l a' \<or> l = Tau \<and> a' = a"
    using related_step [of "length ls" s' a l s''] by auto
  show ?case
  proof (cases "astep a l a'")
    case True
    then have "exec astep a0 (ls' @ [l]) a'" using a(1) by (rule exec.exec_snoc [rotated])
    moreover have "history (ls' @ [l]) = history (ls @ [l])" using a(2) by simp
    moreover have "related (length (ls @ [l])) s'' a'" using a'(1) by simp
    ultimately show ?thesis by blast
  next
    case False
    then show ?thesis using a a' by (intro exI [of _ ls'] exI [of _ a]) auto
  qed
qed

lemma histories_included:
  assumes "exec cstep s ls s'" "initial s" "length ls \<le> budget"
  shows "\<exists>ls' a. exec astep a0 ls' a \<and> history ls' = history ls"
  using exec_related [OF assms] by blast

end

section \<open>Backward simulation\<close>

text \<open>
  Two specifications: whatever state of the second one fits the end of an execution of the first
  one, an execution of the second one with the same history leads there. It serves where the first
  specification decides later than the second.
\<close>

locale backward_simulation =
  fixes cstep :: "'s \<Rightarrow> ('c, 'r) label \<Rightarrow> 's \<Rightarrow> bool"
    and astep :: "'t \<Rightarrow> ('c, 'r) label \<Rightarrow> 't \<Rightarrow> bool"
    and inv :: "'s \<Rightarrow> bool" and fits :: "'s \<Rightarrow> 't \<Rightarrow> bool" and s0 :: 's and a0 :: 't
  assumes inv_init: "inv s0"
    and inv_step: "inv s \<Longrightarrow> cstep s l s' \<Longrightarrow> inv s'"
    and fits_init: "fits s0 a \<Longrightarrow> a = a0"
    and fits_step: "inv s \<Longrightarrow> cstep s l s' \<Longrightarrow> fits s' a' \<Longrightarrow>
      \<exists>a ls. fits s a \<and> exec astep a ls a' \<and> history ls = history [l]"
begin

lemma exec_inv:
  assumes "exec cstep s0 ls s"
  shows "inv s"
  using assms
proof induction
  case (exec_snoc ls s l s')
  from inv_step [OF exec_snoc.IH exec_snoc.hyps(2)] show ?case .
qed (rule inv_init)

lemma exec_fits:
  assumes "exec cstep s0 ls s" "fits s a"
  shows "\<exists>ls'. exec astep a0 ls' a \<and> history ls' = history ls"
  using assms
proof (induction arbitrary: a rule: exec.induct)
  case exec_nil
  then have "a = a0" by (rule fits_init)
  then show ?case using exec.exec_nil [of astep a0] by auto
next
  case (exec_snoc ls s l s')
  obtain b ms where b: "fits s b" "exec astep b ms a" "history ms = history [l]"
    using fits_step [OF exec_inv [OF exec_snoc.hyps(1)] exec_snoc.hyps(2) exec_snoc.prems] by blast
  obtain ls' where "exec astep a0 ls' b" "history ls' = history ls" using exec_snoc.IH [OF b(1)] by blast
  then show ?case using exec_append [OF b(2)] b(3) by (intro exI [of _ "ls' @ ms"]) simp
qed

end

end
