(* ===== verification/Nure_Spec.thy ===== *)
theory Nure_Spec
  imports Fifo_Spec Linearize "HOL-Library.Multiset"
begin

text \<open>
  What the Vyukov queue promises to concurrent clients. In the atomic specification an operation
  takes effect in one atomic action between its call and its return: it does to the items what
  the reference queue does. The exception is a \<open>force_push\<close> that finds the queue full, which takes
  two: it removes the oldest element, then inserts its own. The delayed specification decides
  later: an operation under way collects the answers that would have left the items alone (of an
  observer, of a \<open>push\<close> that is refused, of a \<open>pop\<close> that finds nothing) and were right at some
  moment since its call, and may return any of them. Both have the same histories as far as the
  inclusion that matters goes: a backward simulation shows that every history of the delayed
  specification is one of the atomic specification. The last section shows that the atomic
  specification loses and duplicates nothing.
\<close>

section \<open>The atomic specification\<close>

type_synonym 'a ring_label = "('a ring_cmd, 'a ring_ret) label"

record ('a, 'st) spec =
  items :: "'a list"
  stats :: "nat \<Rightarrow> 'st"

text \<open>The status of a thread: no operation, an operation that has not taken effect, a \<open>force_push\<close>
  that has removed the oldest element, an operation that has taken effect with its result.\<close>

datatype 'a astat =
    AIdle
  | APending "'a ring_cmd"
  | AReplacing 'a 'a
  | ALin "'a ring_ret"

type_synonym 'a aspec = "('a, 'a astat) spec"

inductive atomic_step :: "nat \<Rightarrow> 'a aspec \<Rightarrow> 'a ring_label \<Rightarrow> 'a aspec \<Rightarrow> bool" for N where
  a_call: "stats a i = AIdle \<Longrightarrow>
    atomic_step N a (Call i c) (a\<lparr>stats := (stats a)(i := APending c)\<rparr>)"
| a_apply: "stats a i = APending c \<Longrightarrow> vec_deque N (items a) c = (xs', r) \<Longrightarrow>
    r \<notin> range (\<lambda>x. RetForce (Some x)) \<Longrightarrow>
    atomic_step N a Tau (a\<lparr>items := xs', stats := (stats a)(i := ALin r)\<rparr>)"
| a_remove: "stats a i = APending (OpForcePush v) \<Longrightarrow> length (items a) = N \<Longrightarrow>
    items a = x # xs' \<Longrightarrow>
    atomic_step N a Tau (a\<lparr>items := xs', stats := (stats a)(i := AReplacing v x)\<rparr>)"
| a_insert: "stats a i = AReplacing v x \<Longrightarrow> length (items a) < N \<Longrightarrow> xs' = items a @ [v] \<Longrightarrow>
    atomic_step N a Tau (a\<lparr>items := xs', stats := (stats a)(i := ALin (RetForce (Some x)))\<rparr>)"
| a_return: "stats a i = ALin r \<Longrightarrow>
    atomic_step N a (Return i r) (a\<lparr>stats := (stats a)(i := AIdle)\<rparr>)"

definition init_spec :: "'a aspec" where
  "init_spec = \<lparr>items = [], stats = (\<lambda>_. AIdle)\<rparr>"

section \<open>The delayed specification\<close>

datatype 'a dstat =
    DIdle
  | DWaiting "'a ring_cmd" "'a ring_ret set"
  | DReplacing 'a 'a
  | DDone "'a ring_ret"

type_synonym 'a dspec = "('a, 'a dstat) spec"

text \<open>The results with which an operation leaves the items as they are.\<close>

definition answers :: "nat \<Rightarrow> 'a list \<Rightarrow> 'a ring_cmd \<Rightarrow> 'a ring_ret set" where
  "answers N xs c = {r. vec_deque N xs c = (xs, r) \<and> r \<notin> range (\<lambda>x. RetForce (Some x))}"

fun notice :: "nat \<Rightarrow> 'a list \<Rightarrow> 'a dstat \<Rightarrow> 'a dstat" where
  "notice N xs (DWaiting c S) = DWaiting c (S \<union> answers N xs c)"
| "notice N xs st = st"

inductive delayed_step :: "nat \<Rightarrow> 'a dspec \<Rightarrow> 'a ring_label \<Rightarrow> 'a dspec \<Rightarrow> bool" for N where
  d_call: "stats d i = DIdle \<Longrightarrow>
    delayed_step N d (Call i c) (d\<lparr>stats := (stats d)(i := DWaiting c (answers N (items d) c))\<rparr>)"
| d_apply: "stats d i = DWaiting c S \<Longrightarrow> vec_deque N (items d) c = (xs', r) \<Longrightarrow>
    r \<notin> range (\<lambda>x. RetForce (Some x)) \<Longrightarrow>
    delayed_step N d Tau
      (d\<lparr>items := xs', stats := (\<lambda>j. notice N xs' (((stats d)(i := DDone r)) j))\<rparr>)"
| d_remove: "stats d i = DWaiting (OpForcePush v) S \<Longrightarrow> length (items d) = N \<Longrightarrow>
    items d = x # xs' \<Longrightarrow>
    delayed_step N d Tau
      (d\<lparr>items := xs', stats := (\<lambda>j. notice N xs' (((stats d)(i := DReplacing v x)) j))\<rparr>)"
| d_insert: "stats d i = DReplacing v x \<Longrightarrow> length (items d) < N \<Longrightarrow> xs' = items d @ [v] \<Longrightarrow>
    delayed_step N d Tau
      (d\<lparr>items := xs', stats := (\<lambda>j. notice N xs' (((stats d)(i := DDone (RetForce (Some x)))) j))\<rparr>)"
| d_return: "stats d i = DDone r \<Longrightarrow>
    delayed_step N d (Return i r) (d\<lparr>stats := (stats d)(i := DIdle)\<rparr>)"
| d_answer: "stats d i = DWaiting c S \<Longrightarrow> r \<in> S \<Longrightarrow>
    delayed_step N d (Return i r) (d\<lparr>stats := (stats d)(i := DIdle)\<rparr>)"

definition init_delayed :: "'a dspec" where
  "init_delayed = \<lparr>items = [], stats = (\<lambda>_. DIdle)\<rparr>"

lemma answers_simps [simp]:
  "answers N xs OpLen = {RetLen (length xs)}"
  "answers N xs OpIsEmpty = {RetBool (xs = [])}"
  "answers N xs OpIsFull = {RetBool (length xs = N)}"
  "answers N xs (OpPush v) = (if length xs < N then {} else {RetPush (Err v)})"
  "answers N xs OpPop = (if xs = [] then {RetPop None} else {})"
  by (auto simp: answers_def split: list.splits)

section \<open>Delayed histories are atomic histories\<close>

text \<open>A status of the atomic specification that fits one of the delayed specification: an operation
  that has collected answers may have taken effect with any of them.\<close>

fun fit :: "'a dstat \<Rightarrow> 'a astat \<Rightarrow> bool" where
  "fit DIdle st \<longleftrightarrow> st = AIdle"
| "fit (DWaiting c S) st \<longleftrightarrow> st = APending c \<or> (\<exists>r\<in>S. st = ALin r)"
| "fit (DReplacing v x) st \<longleftrightarrow> st = AReplacing v x"
| "fit (DDone r) st \<longleftrightarrow> st = ALin r"

definition fits :: "'a dspec \<Rightarrow> 'a aspec \<Rightarrow> bool" where
  "fits d a \<longleftrightarrow> items a = items d \<and> (\<forall>i. fit (stats d i) (stats a i))"

definition finitely_active :: "'a dspec \<Rightarrow> bool" where
  "finitely_active d \<longleftrightarrow> finite {i. stats d i \<noteq> DIdle}"

text \<open>Finitely many pending operations can take effect with answers that leave the items alone.\<close>

lemma answer_all:
  assumes "finite J" "\<And>i. i \<in> J \<Longrightarrow> \<exists>r \<in> answers N (items a) (c i). stats a i = ALin r"
  shows "\<exists>ls. exec (atomic_step N) (a\<lparr>stats := (\<lambda>i. if i \<in> J then APending (c i) else stats a i)\<rparr>) ls a \<and>
    history ls = []"
  using assms
proof induction
  case empty
  have "a\<lparr>stats := (\<lambda>i. if i \<in> {} then APending (c i) else stats a i)\<rparr> = a" by simp
  then show ?case using exec_nil [of "atomic_step N" a] history_simps(1) by metis
next
  case (insert j J)
  let ?b = "\<lambda>J. a\<lparr>stats := (\<lambda>i. if i \<in> J then APending (c i) else stats a i)\<rparr>"
  obtain ls where ls: "exec (atomic_step N) (?b J) ls a" "history ls = []" using insert by auto
  obtain r where r: "r \<in> answers N (items a) (c j)" "stats a j = ALin r" using insert.prems by blast
  have "atomic_step N (?b (insert j J)) Tau
      ((?b (insert j J))\<lparr>items := items a, stats := (stats (?b (insert j J)))(j := ALin r)\<rparr>)"
    using r(1) by (intro a_apply [where c = "c j"]) (auto simp: answers_def)
  also have "(?b (insert j J))\<lparr>items := items a, stats := (stats (?b (insert j J)))(j := ALin r)\<rparr> = ?b J"
    using insert.hyps(2) r(2) by (auto intro!: arg_cong [where f = "\<lambda>f. a\<lparr>stats := f\<rparr>"])
  finally have "exec (atomic_step N) (?b (insert j J)) (Tau # ls) a" using ls(1) by (rule exec_step_first)
  then show ?case using ls(2) by (intro exI [of _ "Tau # ls"]) simp
qed

fun cmd_of :: "'a dstat \<Rightarrow> 'a ring_cmd" where
  "cmd_of (DWaiting c S) = c"
| "cmd_of _ = OpLen"

lemma fit_notice:
  assumes "fit (notice N xs st) st'" "\<not> fit st st'"
  obtains c S r where "st = DWaiting c S" "st' = ALin r" "r \<in> answers N xs c"
  using assms by (cases st) auto

lemma notice_fits:
  assumes "finite {i. st i \<noteq> DIdle}" "\<And>i. fit (notice N (items a') (st i)) (stats a' i)"
  shows "\<exists>a ls. items a = items a' \<and> (\<forall>i. fit (st i) (stats a i)) \<and>
    exec (atomic_step N) a ls a' \<and> history ls = []"
proof -
  let ?J = "{i. \<not> fit (st i) (stats a' i)}"
  let ?c = "\<lambda>i. cmd_of (st i)"
  have late: "\<exists>S. \<exists>r \<in> answers N (items a') (?c i). st i = DWaiting (?c i) S \<and> stats a' i = ALin r"
    if "i \<in> ?J" for i
    by (rule fit_notice [OF assms(2), of i]) (use that in auto)
  have "i \<in> {i. st i \<noteq> DIdle}" if "i \<in> ?J" for i using late [OF that] by auto
  then have "finite ?J" using assms(1) by (meson finite_subset subsetI)
  then obtain ls where ls: "exec (atomic_step N)
      (a'\<lparr>stats := (\<lambda>i. if i \<in> ?J then APending (?c i) else stats a' i)\<rparr>) ls a'" "history ls = []"
    using answer_all [of ?J N a' ?c] late by blast
  moreover have "fit (st i) (if i \<in> ?J then APending (?c i) else stats a' i)" for i
    using late [of i] by (cases "st i") auto
  ultimately show ?thesis
    by (intro exI [of _ "a'\<lparr>stats := (\<lambda>i. if i \<in> ?J then APending (?c i) else stats a' i)\<rparr>"] exI [of _ ls]) auto
qed

text \<open>One atomic action of thread \<open>i\<close>, then the answers that other operations collect after it.\<close>

lemma action_fits:
  assumes "finitely_active d" "fits (d\<lparr>items := xs', stats := (\<lambda>j. notice N xs' (((stats d)(i := st')) j))\<rparr>) a'"
    and "fit (stats d i) st" "\<And>st''. fit st' st'' \<Longrightarrow> st'' = st1"
    and act: "\<And>a. stats a i = st \<Longrightarrow> items a = items d \<Longrightarrow>
      atomic_step N a Tau (a\<lparr>items := xs', stats := (stats a)(i := st1)\<rparr>)"
  shows "\<exists>a ls. fits d a \<and> exec (atomic_step N) a ls a' \<and> history ls = []"
proof -
  have "finite {j. ((stats d)(i := st')) j \<noteq> DIdle}"
    by (rule finite_subset [of _ "insert i {j. stats d j \<noteq> DIdle}"]) (use assms(1) in \<open>auto simp: finitely_active_def\<close>)
  from notice_fits [OF this, of N a'] assms(2) obtain b ls where b: "items b = xs'"
    "\<And>j. fit (((stats d)(i := st')) j) (stats b j)" "exec (atomic_step N) b ls a'" "history ls = []"
    by (auto simp: fits_def)
  let ?a = "b\<lparr>items := items d, stats := (stats b)(i := st)\<rparr>"
  have st1: "stats b i = st1" using b(2) [of i] assms(4) by simp
  have "fit (stats d j) (stats ?a j)" for j using b(2) [of j] assms(3) by (cases "j = i") auto
  then have "fits d ?a" by (simp add: fits_def)
  moreover have "atomic_step N ?a Tau b"
  proof -
    have "?a\<lparr>items := xs', stats := (stats ?a)(i := st1)\<rparr> = b" using b(1) st1 by (simp flip: b(1) st1)
    then show ?thesis using act [of ?a] by simp
  qed
  then have "exec (atomic_step N) ?a (Tau # ls) a'" using b(3) by (rule exec_step_first)
  ultimately show ?thesis using b(4) by (intro exI [of _ ?a] exI [of _ "Tau # ls"]) simp
qed

text \<open>A call or a return of thread \<open>i\<close>.\<close>

lemma status_fits:
  assumes "fits (d\<lparr>stats := (stats d)(i := st')\<rparr>) a'" "fit (stats d i) st"
    and "exec (atomic_step N) (a'\<lparr>stats := (stats a')(i := st)\<rparr>) ls a'"
  shows "\<exists>a. fits d a \<and> exec (atomic_step N) a ls a'"
proof -
  have "fit (stats d j) (((stats a')(i := st)) j)" for j
    using assms(1,2) by (cases "j = i") (auto simp: fits_def dest: spec [of _ j])
  then have "fits d (a'\<lparr>stats := (stats a')(i := st)\<rparr>)" using assms(1) by (simp add: fits_def)
  then show ?thesis using assms(3) by blast
qed

lemma call_fits:
  assumes "fits (d\<lparr>stats := (stats d)(i := DWaiting c (answers N (items d) c))\<rparr>) a'" "stats d i = DIdle"
  shows "\<exists>a ls. fits d a \<and> exec (atomic_step N) a ls a' \<and> history ls = [Call i c]"
proof -
  let ?a = "a'\<lparr>stats := (stats a')(i := AIdle)\<rparr>" and ?b = "a'\<lparr>stats := (stats a')(i := APending c)\<rparr>"
  have "fit (DWaiting c (answers N (items d) c)) (stats a' i)" "items a' = items d"
    using assms(1) by (auto simp: fits_def dest: spec [of _ i])
  then consider "stats a' i = APending c" | r where "stats a' i = ALin r" "r \<in> answers N (items a') c" by auto
  then have "\<exists>ls. exec (atomic_step N) ?b ls a' \<and> history ls = []"
  proof cases
    case 1
    then have "?b = a'" by (simp flip: 1)
    then show ?thesis using exec_nil [of "atomic_step N" a'] history_simps(1) by metis
  next
    case (2 r)
    then have "atomic_step N ?b Tau (?b\<lparr>items := items a', stats := (stats ?b)(i := ALin r)\<rparr>)"
      by (intro a_apply [where c = c]) (auto simp: answers_def)
    also have "?b\<lparr>items := items a', stats := (stats ?b)(i := ALin r)\<rparr> = a'" by (simp flip: 2(1))
    finally have "exec (atomic_step N) ?b [Tau] a'" by (rule exec_one)
    then show ?thesis by (intro exI [of _ "[Tau]"]) simp
  qed
  then obtain ls where ls: "exec (atomic_step N) ?b ls a'" "history ls = []" by blast
  have "atomic_step N ?a (Call i c) ?b" using a_call [of ?a i N c] by simp
  then have "exec (atomic_step N) ?a (Call i c # ls) a'" using ls(1) by (rule exec_step_first)
  from status_fits [OF assms(1) _ this] assms(2) ls(2) show ?thesis by force
qed

lemma return_fits:
  assumes "fits (d\<lparr>stats := (stats d)(i := DIdle)\<rparr>) a'" "fit (stats d i) (ALin r)"
  shows "\<exists>a ls. fits d a \<and> exec (atomic_step N) a ls a' \<and> history ls = [Return i r]"
proof -
  let ?a = "a'\<lparr>stats := (stats a')(i := ALin r)\<rparr>"
  have "stats a' i = AIdle" using assms(1) by (auto simp: fits_def dest: spec [of _ i])
  then have "?a\<lparr>stats := (stats ?a)(i := AIdle)\<rparr> = a'" by (simp flip: \<open>stats a' i = AIdle\<close>)
  then have "exec (atomic_step N) ?a [Return i r] a'" using a_return [of ?a i r N] by (simp add: exec_one)
  from status_fits [OF assms(1,2) this] show ?thesis by (metis history_simps(1,2) label.distinct(5))
qed

lemma delayed_fits:
  assumes "finitely_active d" "delayed_step N d l d'" "fits d' a'"
  shows "\<exists>a ls. fits d a \<and> exec (atomic_step N) a ls a' \<and> history ls = history [l]"
  using assms(2)
proof cases
  case (d_call i c)
  then show ?thesis using call_fits [of d i c N a'] assms(3) by simp
next
  case (d_apply i c S xs' r)
  have "\<exists>a ls. fits d a \<and> exec (atomic_step N) a ls a' \<and> history ls = []"
  proof (rule action_fits [OF assms(1) assms(3) [unfolded d_apply(2)]])
    fix a :: "'a aspec"
    assume "stats a i = APending c" "items a = items d"
    with a_apply [of a i c N xs' r] d_apply(4,5)
    show "atomic_step N a Tau (a\<lparr>items := xs', stats := (stats a)(i := ALin r)\<rparr>)" by simp
  qed (use d_apply(3) in simp_all)
  then show ?thesis by (simp add: d_apply(1))
next
  case (d_remove i v S x xs')
  have "\<exists>a ls. fits d a \<and> exec (atomic_step N) a ls a' \<and> history ls = []"
  proof (rule action_fits [OF assms(1) assms(3) [unfolded d_remove(2)]])
    fix a :: "'a aspec"
    assume "stats a i = APending (OpForcePush v)" "items a = items d"
    with a_remove [of a i v N x xs'] d_remove(4,5)
    show "atomic_step N a Tau (a\<lparr>items := xs', stats := (stats a)(i := AReplacing v x)\<rparr>)" by simp
  qed (use d_remove(3) in simp_all)
  then show ?thesis by (simp add: d_remove(1))
next
  case (d_insert i v x xs')
  have "\<exists>a ls. fits d a \<and> exec (atomic_step N) a ls a' \<and> history ls = []"
  proof (rule action_fits [OF assms(1) assms(3) [unfolded d_insert(2)]])
    fix a :: "'a aspec"
    assume "stats a i = AReplacing v x" "items a = items d"
    with a_insert [of a i v x N xs'] d_insert(4,5)
    show "atomic_step N a Tau (a\<lparr>items := xs', stats := (stats a)(i := ALin (RetForce (Some x)))\<rparr>)" by simp
  qed (use d_insert(3) in simp_all)
  then show ?thesis by (simp add: d_insert(1))
next
  case (d_return i r)
  then show ?thesis using return_fits [of d i a' r N] assms(3) by simp
next
  case (d_answer i c S r)
  then show ?thesis using return_fits [of d i a' r N] assms(3) by simp
qed

lemma notice_idle [simp]: "notice N xs st = DIdle \<longleftrightarrow> st = DIdle"
  by (cases st) auto

lemma delayed_finitely_active:
  assumes "finitely_active d" "delayed_step N d l d'"
  shows "finitely_active d'"
proof -
  have upd: "finite {j. ((stats d)(i := st)) j \<noteq> DIdle}" for i st
    by (rule finite_subset [of _ "insert i {j. stats d j \<noteq> DIdle}"]) (use assms(1) in \<open>auto simp: finitely_active_def\<close>)
  show ?thesis
    using assms(2) upd by cases (simp_all add: finitely_active_def del: fun_upd_apply)
qed

interpretation ds: backward_simulation "delayed_step N" "atomic_step N" finitely_active fits init_delayed init_spec
  for N
proof
  show "finitely_active init_delayed" by (simp add: finitely_active_def init_delayed_def)
  show "a = init_spec" if "fits init_delayed a" for a :: "'a aspec"
    using that by (cases a) (auto simp: fits_def init_delayed_def init_spec_def)
qed (blast intro: delayed_finitely_active delayed_fits)+

text \<open>The atomic state in which no collected answer has been used.\<close>

fun undecided :: "'a dstat \<Rightarrow> 'a astat" where
  "undecided DIdle = AIdle"
| "undecided (DWaiting c S) = APending c"
| "undecided (DReplacing v x) = AReplacing v x"
| "undecided (DDone r) = ALin r"

definition atomic_of :: "'a dspec \<Rightarrow> 'a aspec" where
  "atomic_of d = \<lparr>items = items d, stats = (\<lambda>i. undecided (stats d i))\<rparr>"

lemma fits_atomic_of: "fits d (atomic_of d)"
proof -
  have "fit st (undecided st)" for st :: "'a dstat" by (cases st) auto
  then show ?thesis by (simp add: fits_def atomic_of_def)
qed

lemma delayed_atomic:
  assumes "exec (delayed_step N) init_delayed ls d"
  shows "\<exists>ls'. exec (atomic_step N) init_spec ls' (atomic_of d) \<and> history ls' = history ls"
  by (rule ds.exec_fits [OF assms fits_atomic_of])

section \<open>Ledgers\<close>

text \<open>
  What the clients pay and draw at calls and returns is accounted for by the items and by the
  operations under way, if each atomic action balances. The account may be one of payloads
  (multisets) or of numbers.
\<close>

locale ledger =
  fixes N :: nat
    and paid drawn :: "'a ring_label \<Rightarrow> 'b :: cancel_comm_monoid_add"
    and stock :: "'a list \<Rightarrow> 'b" and held :: "'a astat \<Rightarrow> 'b"
  assumes stock_empty: "stock [] = 0" and held_idle: "held AIdle = 0"
    and tau_free: "paid Tau = 0" "drawn Tau = 0"
    and call_balanced: "paid (Call i c) = drawn (Call i c) + held (APending c)"
    and apply_balanced: "vec_deque N xs c = (xs', r) \<Longrightarrow> r \<notin> range (\<lambda>x. RetForce (Some x)) \<Longrightarrow>
      stock xs + held (APending c) = stock xs' + held (ALin r)"
    and remove_balanced: "length (x # xs) = N \<Longrightarrow>
      stock (x # xs) + held (APending (OpForcePush v)) = stock xs + held (AReplacing v x)"
    and insert_balanced: "length xs < N \<Longrightarrow>
      stock xs + held (AReplacing v x) = stock (xs @ [v]) + held (ALin (RetForce (Some x)))"
    and return_balanced: "paid (Return i r) + held (ALin r) = drawn (Return i r)"
begin

text \<open>Each atomic step changes the status of one thread, and balances.\<close>

lemma step_balanced:
  assumes "atomic_step N a l a'"
  obtains i x where "paid l + stock (items a) + held (stats a i) = drawn l + stock (items a') + held x"
    "stats a' = (stats a)(i := x)"
  using assms
proof cases
  case (a_call i c)
  then show thesis using that [of i "APending c"] by (simp add: call_balanced held_idle ac_simps)
next
  case (a_apply i c xs' r)
  then show thesis using that [of i "ALin r"] apply_balanced [of "items a" c xs' r] by (simp add: tau_free)
next
  case (a_remove i v x xs')
  then show thesis using that [of i "AReplacing v x"] remove_balanced [of x xs' v] by (simp add: tau_free)
next
  case (a_insert i v x xs')
  then show thesis
    using that [of i "ALin (RetForce (Some x))"] insert_balanced [of "items a" v x] by (simp add: tau_free)
next
  case (a_return i r)
  then show thesis using that [of i AIdle] by (simp add: held_idle return_balanced [symmetric] ac_simps)
qed

end

sublocale ledger \<subseteq> balance_sheet "atomic_step N" init_spec paid drawn "\<lambda>a. stock (items a)" stats AIdle held
proof
  show "\<exists>i x. paid l + stock (items a) + held (stats a i) = drawn l + stock (items a') + held x \<and>
      stats a' = (stats a)(i := x)" if "atomic_step N a l a'" for a l a'
    by (rule step_balanced [OF that]) blast
qed (simp_all add: init_spec_def stock_empty held_idle)

section \<open>Conservation of payloads\<close>

text \<open>The payloads of a history that callers handed in, and those that callers got back: a refused
  \<open>push\<close> returns its argument, a \<open>pop\<close> an element, a replacing \<open>force_push\<close> the oldest element.\<close>

fun handed_in :: "'a ring_label \<Rightarrow> 'a multiset" where
  "handed_in (Call i (OpPush v)) = {#v#}"
| "handed_in (Call i (OpForcePush v)) = {#v#}"
| "handed_in _ = {#}"

fun payload_of :: "'a ring_ret \<Rightarrow> 'a multiset" where
  "payload_of (RetPush (Err v)) = {#v#}"
| "payload_of (RetPop (Some v)) = {#v#}"
| "payload_of (RetForce (Some v)) = {#v#}"
| "payload_of _ = {#}"

fun handed_out :: "'a ring_label \<Rightarrow> 'a multiset" where
  "handed_out (Return i r) = payload_of r"
| "handed_out _ = {#}"

definition total_in :: "'a ring_label list \<Rightarrow> 'a multiset" where
  "total_in ls = sum_list (map handed_in ls)"

definition total_out :: "'a ring_label list \<Rightarrow> 'a multiset" where
  "total_out ls = sum_list (map handed_out ls)"

lemma total_history [simp]: "total_in (history ls) = total_in ls" "total_out (history ls) = total_out ls"
  by (induction ls) (auto simp: total_in_def total_out_def)

text \<open>The payloads that an operation under way holds.\<close>

fun carried :: "'a astat \<Rightarrow> 'a multiset" where
  "carried (APending (OpPush v)) = {#v#}"
| "carried (APending (OpForcePush v)) = {#v#}"
| "carried (AReplacing v x) = {#v, x#}"
| "carried (ALin r) = payload_of r"
| "carried _ = {#}"

interpretation pl: ledger N handed_in handed_out mset carried for N
proof
  show "handed_in (Call i c) = handed_out (Call i c) + carried (APending c)" for i and c :: "'a ring_cmd"
    by (cases c) auto
  show "mset xs + carried (APending c) = mset xs' + carried (ALin r)"
    if "vec_deque N xs c = (xs', r)" "r \<notin> range (\<lambda>x. RetForce (Some x))" for xs xs' :: "'a list" and c r
    using that by (cases c) (auto split: if_splits list.splits)
qed auto

definition in_flight :: "nat \<Rightarrow> (nat \<Rightarrow> 'a astat) \<Rightarrow> 'a multiset" where
  "in_flight n st = (\<Sum>j<n. carried (st j))"

lemma spec_conserves:
  assumes "exec (atomic_step N) init_spec ls a"
  shows "\<exists>m. \<forall>n\<ge>m. (\<forall>j\<ge>n. stats a j = AIdle) \<and>
    total_in ls = total_out ls + mset (items a) + in_flight n (stats a)"
  using pl.balance [OF assms] by (simp add: total_in_def total_out_def in_flight_def)

section \<open>Clients that count\<close>

text \<open>
  A refused \<open>push\<close> has seen \<open>N\<close> payloads in the queue besides its own. So no \<open>push\<close> is refused if the
  clients hold back: they have at no time handed in more than \<open>N\<close> payloads that they have not got back.
\<close>

lemma sum_member: "i < (n :: nat) \<Longrightarrow> f i \<subseteq># (\<Sum>j<n. f j)"
  by (simp add: sum.remove [of "{..<n}" i])

lemma no_refusal:
  assumes "exec (atomic_step N) init_spec ls a" "\<And>k. size (total_in (take k ls)) \<le> N + size (total_out (take k ls))"
  shows "stats a i \<noteq> ALin (RetPush (Err v)) \<and> Return i (RetPush (Err v)) \<notin> set ls"
  using assms
proof (induction arbitrary: i v rule: exec.induct)
  case exec_nil
  then show ?case by (simp add: init_spec_def)
next
  case (exec_snoc ls a l a')
  have hold: "size (total_in (take k ls)) \<le> N + size (total_out (take k ls))" for k
    using exec_snoc.prems [of "min k (length ls)"] by (simp add: min_def split: if_splits)
  note IH = exec_snoc.IH [OF hold]
  from exec_snoc.hyps(2) show ?case
  proof cases
    case (a_apply j c xs' r)
    have "r \<noteq> RetPush (Err v)" for v
    proof
      assume r: "r = RetPush (Err v)"
      with a_apply(4) have c: "c = OpPush v" "N \<le> length (items a)"
        by (cases c; auto split: if_splits list.splits)+
      obtain m where "\<forall>n\<ge>m. total_in ls = total_out ls + mset (items a) + in_flight n (stats a)"
        using spec_conserves [OF exec_snoc.hyps(1)] by blast
      then have "total_in ls = total_out ls + mset (items a) + in_flight (m + Suc j) (stats a)" by simp
      then have "size (total_in ls) = size (total_out ls) + length (items a) + size (in_flight (m + Suc j) (stats a))"
        by simp
      moreover have "size (carried (stats a j)) \<le> size (in_flight (m + Suc j) (stats a))"
        unfolding in_flight_def by (intro size_mset_mono sum_member) simp
      ultimately show False using hold [of "length ls"] c a_apply(3) by simp
    qed
    then show ?thesis using IH a_apply by auto
  qed (use IH in auto)
qed

text \<open>Likewise, if no \<open>force_push\<close> is called and at no time more pops have been called than pushes have
  returned with success, no \<open>pop\<close> finds the queue empty.\<close>

fun pop_call :: "'a ring_label \<Rightarrow> int" where
  "pop_call (Call i OpPop) = 1"
| "pop_call _ = 0"

fun supply_of :: "'a ring_ret \<Rightarrow> int" where
  "supply_of (RetPush (Ok u)) = 1"
| "supply_of (RetPop None) = 1"
| "supply_of (RetForce None) = 1"
| "supply_of _ = 0"

fun supplied :: "'a ring_label \<Rightarrow> int" where
  "supplied (Return i r) = supply_of r"
| "supplied _ = 0"

fun demand :: "'a astat \<Rightarrow> int" where
  "demand (APending OpPop) = 1"
| "demand (AReplacing v x) = - 1"
| "demand (ALin r) = supply_of r"
| "demand _ = 0"

interpretation sd: ledger N pop_call supplied "\<lambda>xs. - int (length xs)" demand for N
proof
  show "pop_call (Call i c) = supplied (Call i c) + demand (APending c)" for i and c :: "'a ring_cmd"
    by (cases c) auto
  show "- int (length xs) + demand (APending c) = - int (length xs') + demand (ALin r)"
    if "vec_deque N xs c = (xs', r)" "r \<notin> range (\<lambda>x. RetForce (Some x))" for xs xs' :: "'a list" and c r
    using that by (cases c) (auto split: if_splits list.splits)
qed auto

fun is_pop_call :: "'a ring_label \<Rightarrow> bool" where
  "is_pop_call (Call i OpPop) = True"
| "is_pop_call _ = False"

fun is_accepted :: "'a ring_label \<Rightarrow> bool" where
  "is_accepted (Return i (RetPush (Ok u))) = True"
| "is_accepted _ = False"

fun is_force_call :: "'a ring_label \<Rightarrow> bool" where
  "is_force_call (Call i (OpForcePush v)) = True"
| "is_force_call _ = False"

definition pops_called :: "'a ring_label list \<Rightarrow> nat" where
  "pops_called ls = length (filter is_pop_call ls)"

definition pushes_accepted :: "'a ring_label list \<Rightarrow> nat" where
  "pushes_accepted ls = length (filter is_accepted ls)"

definition no_force :: "'a ring_label list \<Rightarrow> bool" where
  "no_force ls \<longleftrightarrow> \<not> list_ex is_force_call ls"

lemma pops_called_sum: "sum_list (map pop_call ls) = int (pops_called ls)"
proof (induction ls)
  case (Cons l ls)
  then show ?case by (cases l rule: pop_call.cases) (auto simp: pops_called_def)
qed (simp add: pops_called_def)

lemma supply_nonneg: "0 \<le> supplied l"
proof (cases l)
  case (Return i r)
  then show ?thesis by (cases r rule: supply_of.cases) auto
qed auto

lemma pushes_accepted_sum: "int (pushes_accepted ls) \<le> sum_list (map supplied ls)"
proof (induction ls)
  case (Cons l ls)
  then show ?case using supply_nonneg [of l] by (cases l rule: is_accepted.cases) (auto simp: pushes_accepted_def)
qed (simp add: pushes_accepted_def)

definition forcing :: "'a astat \<Rightarrow> bool" where
  "forcing st \<longleftrightarrow> (\<exists>v. st = APending (OpForcePush v)) \<or> (\<exists>v x. st = AReplacing v x)"

lemma not_forcing_step:
  assumes "atomic_step N a l a'" "\<not> is_force_call l" "\<forall>i. \<not> forcing (stats a i)"
  shows "\<not> forcing (stats a' i)"
  using assms(1) by cases (use assms(2,3) in \<open>auto simp: forcing_def\<close>)

lemma not_forcing:
  assumes "exec (atomic_step N) init_spec ls a" "no_force ls"
  shows "\<not> forcing (stats a i)"
  using assms
proof (induction arbitrary: i rule: exec.induct)
  case (exec_snoc ls a l a')
  then have "\<not> is_force_call l" "no_force ls" by (auto simp: no_force_def)
  then show ?case using not_forcing_step [OF exec_snoc.hyps(2)] exec_snoc.IH by blast
qed (simp add: init_spec_def forcing_def)

lemma demand_nonneg: "\<not> forcing st \<Longrightarrow> 0 \<le> demand st"
proof (cases st)
  case (ALin r)
  then show ?thesis by (cases r rule: supply_of.cases) auto
next
  case (APending c)
  then show ?thesis by (cases c) auto
qed (auto simp: forcing_def)

lemma no_empty_pop:
  assumes "exec (atomic_step N) init_spec ls a" "no_force ls"
    "\<And>k. pops_called (take k ls) \<le> pushes_accepted (take k ls)"
  shows "stats a i \<noteq> ALin (RetPop None) \<and> Return i (RetPop None) \<notin> set ls"
  using assms
proof (induction arbitrary: i rule: exec.induct)
  case exec_nil
  then show ?case by (simp add: init_spec_def)
next
  case (exec_snoc ls a l a')
  have nf: "no_force ls" using exec_snoc.prems(1) by (simp add: no_force_def)
  have hold: "pops_called (take k ls) \<le> pushes_accepted (take k ls)" for k
    using exec_snoc.prems(2) [of "min k (length ls)"] by (simp add: min_def split: if_splits)
  note IH = exec_snoc.IH [OF nf hold]
  from exec_snoc.hyps(2) show ?case
  proof cases
    case (a_apply j c xs' r)
    have "r \<noteq> RetPop None"
    proof
      assume r: "r = RetPop None"
      with a_apply(4) have c: "c = OpPop" "items a = []" by (cases c; auto split: if_splits list.splits)+
      obtain m where "\<forall>n\<ge>m. sum_list (map pop_call ls) = sum_list (map supplied ls) - int (length (items a)) +
          (\<Sum>k<n. demand (stats a k))"
        using sd.balance [OF exec_snoc.hyps(1)] by auto
      then have "int (pops_called ls) = sum_list (map supplied ls) - int (length (items a)) +
          (\<Sum>k<m + Suc j. demand (stats a k))"
        unfolding pops_called_sum by (meson le_add1)
      moreover have "demand (stats a j) \<le> (\<Sum>k<m + Suc j. demand (stats a k))"
        using not_forcing [OF exec_snoc.hyps(1) nf] by (intro member_le_sum demand_nonneg) auto
      ultimately show False
        using hold [of "length ls"] pushes_accepted_sum [of ls] c(1) c(2) a_apply(3)
        by (simp del: sum.lessThan_Suc add_Suc_right)
    qed
    then show ?thesis using IH a_apply by auto
  qed (use IH in auto)
qed

text \<open>Counting conditions carry over between executions with the same history.\<close>

lemma history_take: "\<exists>m. history (take k ls) = take m (history ls)"
proof (induction ls arbitrary: k)
  case (Cons l ls)
  show ?case
  proof (cases k)
    case (Suc k')
    obtain m where "history (take k' ls) = take m (history ls)" using Cons.IH by blast
    then show ?thesis using Suc by (intro exI [of _ "if l = Tau then m else Suc m"]) simp
  qed (auto intro: exI [of _ 0])
qed simp

lemma take_history: "\<exists>k. take m (history ls) = history (take k ls)"
proof (induction ls arbitrary: m)
  case (Cons l ls)
  show ?case
  proof (cases "l = Tau")
    case True
    obtain k where "take m (history ls) = history (take k ls)" using Cons.IH by blast
    then show ?thesis using True by (intro exI [of _ "Suc k"]) simp
  next
    case False
    show ?thesis
    proof (cases m)
      case (Suc m')
      obtain k where "take m' (history ls) = history (take k ls)" using Cons.IH by blast
      then show ?thesis using Suc False by (intro exI [of _ "Suc k"]) simp
    qed (auto intro: exI [of _ 0])
  qed
qed simp

lemma take_same_history:
  assumes "history ls' = history ls"
  obtains k where "history (take k' ls') = history (take k ls)"
  using history_take [of k' ls'] take_history [of _ ls] assms by metis

lemma counts_history [simp]:
  "pops_called (history ls) = pops_called ls" "pushes_accepted (history ls) = pushes_accepted ls"
  "no_force (history ls) = no_force ls"
  by (induction ls) (auto simp: pops_called_def pushes_accepted_def no_force_def)

lemma history_member: "l \<noteq> Tau \<Longrightarrow> l \<in> set (history ls) \<longleftrightarrow> l \<in> set ls"
  by (auto simp: history_def)

lemma take_of_history:
  assumes "\<And>m. m \<le> length (history ls) \<Longrightarrow> P (take m (history ls))" "\<And>ms. P (history ms) = P ms"
  shows "P (take k ls)"
proof -
  obtain m where m: "history (take k ls) = take m (history ls)" using history_take by blast
  have "P (take m (history ls))"
    using assms(1) [of "min m (length (history ls))"] by (cases "m \<le> length (history ls)") (simp_all add: min_def)
  then show ?thesis using assms(2) m by metis
qed

end
