(* ===== verification/Memory.thy ===== *)
theory Memory
  imports Prelude
begin

text \<open>
  Shared memory with Rust's orderings, as an operational model with views. Every atomic location
  has a log: the messages stored to it, in modification order. A thread has a view: for each
  location the oldest message that it may still read, and for each payload cell how many of the
  cell's accesses happened before. A message carries the view that its writer released with it.
  \<^item> A load may read any message that is not older than the thread's view; an acquire load adds the
    view of the message to the thread's view.
  \<^item> A successful exchange reads the latest message and appends to the log; a failed one is a load.
  \<^item> A store appends to the log. A store by a thread that has not seen the latest message has no
    definite place in the modification order; the model counts it as undefined behaviour.
  \<^item> Operations with \<open>SeqCst\<close> happen in the order of the execution: a \<open>SeqCst\<close> load reads a message at
    least as new as the latest \<open>SeqCst\<close> one, and after a \<open>SeqCst\<close> fence so does every load of the thread.
    (The fence is not used as an acquire or a release fence, which admits more behaviours.)
  \<^item> An access to a payload cell is a data race, hence undefined behaviour, unless every earlier
    access to the cell is in the thread's view.
  A thread's accesses take place in program order: a load does not read from a store that the
  thread performs later.
\<close>

section \<open>Views, messages, memory\<close>

datatype ordering = Relaxed | Acquire | Release | AcqRel | SeqCst

fun acquires :: "ordering \<Rightarrow> bool" where
  "acquires Acquire = True"
| "acquires AcqRel = True"
| "acquires SeqCst = True"
| "acquires _ = False"

fun releases :: "ordering \<Rightarrow> bool" where
  "releases Release = True"
| "releases AcqRel = True"
| "releases SeqCst = True"
| "releases _ = False"

record 'l view =
  seen :: "'l \<Rightarrow> nat"
  seen_cell :: "nat \<Rightarrow> nat"

record ('l, 'v) message =
  msg_value :: 'v
  msg_view :: "'l view"
  msg_sc :: bool

record ('l, 'v) memory =
  log :: "'l \<Rightarrow> ('l, 'v) message list"
  uses :: "nat \<Rightarrow> nat"

definition no_view :: "'l view" where
  "no_view = \<lparr>seen = (\<lambda>_. 0), seen_cell = (\<lambda>_. 0)\<rparr>"

definition join :: "'l view \<Rightarrow> 'l view \<Rightarrow> 'l view" where
  "join V W = \<lparr>seen = (\<lambda>l. max (seen V l) (seen W l)), seen_cell = (\<lambda>j. max (seen_cell V j) (seen_cell W j))\<rparr>"

definition see :: "'l \<Rightarrow> nat \<Rightarrow> 'l view \<Rightarrow> 'l view" where
  "see l n V = V\<lparr>seen := (seen V)(l := max (seen V l) n)\<rparr>"

definition latest :: "('l, 'v) memory \<Rightarrow> 'l \<Rightarrow> nat" where
  "latest M l = length (log M l) - 1"

text \<open>The position of the last message that a \<open>SeqCst\<close> operation stored.\<close>

definition last_sc :: "('l, 'v) message list \<Rightarrow> nat" where
  "last_sc ms = length (dropWhile (\<lambda>m. \<not> msg_sc m) (rev ms)) - 1"

section \<open>Accesses\<close>

text \<open>\<open>lag\<close> says how many messages before the latest one is read.\<close>

definition readable :: "ordering \<Rightarrow> 'l \<Rightarrow> nat \<Rightarrow> ('l, 'v) memory \<Rightarrow> 'l view \<Rightarrow> bool" where
  "readable ord l lag M V \<longleftrightarrow> lag < length (log M l) \<and> seen V l \<le> latest M l - lag \<and>
     (ord = SeqCst \<longrightarrow> last_sc (log M l) \<le> latest M l - lag)"

definition read_msg :: "'l \<Rightarrow> nat \<Rightarrow> ('l, 'v) memory \<Rightarrow> ('l, 'v) message" where
  "read_msg l lag M = log M l ! (latest M l - lag)"

definition read_view :: "ordering \<Rightarrow> 'l \<Rightarrow> nat \<Rightarrow> ('l, 'v) memory \<Rightarrow> 'l view \<Rightarrow> 'l view" where
  "read_view ord l lag M V =
     see l (latest M l - lag) (if acquires ord then join V (msg_view (read_msg l lag M)) else V)"

definition append_msg :: "'l \<Rightarrow> ('l, 'v) message \<Rightarrow> ('l, 'v) memory \<Rightarrow> ('l, 'v) memory" where
  "append_msg l m M = M\<lparr>log := (log M)(l := log M l @ [m])\<rparr>"

text \<open>The view that a store or an exchange releases; the message of an exchange also carries the view
  of the message it replaced (it continues its release sequence).\<close>

definition released_view :: "ordering \<Rightarrow> 'l \<Rightarrow> nat \<Rightarrow> 'l view \<Rightarrow> 'l view" where
  "released_view ord l n V = (if releases ord then see l n V else see l n no_view)"

definition store_definite :: "'l \<Rightarrow> ('l, 'v) memory \<Rightarrow> 'l view \<Rightarrow> bool" where
  "store_definite l M V \<longleftrightarrow> latest M l \<le> seen V l"

definition mem_store :: "ordering \<Rightarrow> 'l \<Rightarrow> 'v \<Rightarrow> ('l, 'v) memory \<Rightarrow> 'l view \<Rightarrow> ('l, 'v) memory \<times> 'l view" where
  "mem_store ord l v M V =
     (let n = Suc (latest M l)
      in (append_msg l \<lparr>msg_value = v, msg_view = released_view ord l n V, msg_sc = (ord = SeqCst)\<rparr> M,
          see l n V))"

definition mem_exchange :: "ordering \<Rightarrow> 'l \<Rightarrow> 'v \<Rightarrow> ('l, 'v) memory \<Rightarrow> 'l view \<Rightarrow> ('l, 'v) memory \<times> 'l view" where
  "mem_exchange ord l v M V =
     (let n = Suc (latest M l); W = read_view ord l 0 M V
      in (append_msg l \<lparr>msg_value = v,
            msg_view = join (released_view ord l n W) (msg_view (read_msg l 0 M)),
            msg_sc = (ord = SeqCst)\<rparr> M,
          see l n W))"

definition mem_fence :: "ordering \<Rightarrow> ('l, 'v) memory \<Rightarrow> 'l view \<Rightarrow> 'l view" where
  "mem_fence ord M V =
     (if ord = SeqCst then V\<lparr>seen := (\<lambda>l. max (seen V l) (last_sc (log M l)))\<rparr> else V)"

definition race_free :: "nat \<Rightarrow> ('l, 'v) memory \<Rightarrow> 'l view \<Rightarrow> bool" where
  "race_free j M V \<longleftrightarrow> uses M j \<le> seen_cell V j"

definition mem_cell :: "nat \<Rightarrow> ('l, 'v) memory \<Rightarrow> 'l view \<Rightarrow> ('l, 'v) memory \<times> 'l view" where
  "mem_cell j M V =
     (M\<lparr>uses := (uses M)(j := Suc (uses M j))\<rparr>,
      V\<lparr>seen_cell := (seen_cell V)(j := Suc (uses M j))\<rparr>)"

section \<open>Steps of threads\<close>

text \<open>
  A thread's next access to a location or cell, with its orderings. The access, and the local computation
  up to the next one, is a step of a machine on the latest state of the shared object, in which
  \<open>peek\<close> and \<open>poke\<close> read and write a location: a load is a step on the state with the value that the
  thread reads. \<open>weak\<close> makes a weak exchange fail spuriously, \<open>lag\<close> chooses the message that a load
  (or a failing exchange) reads. \<open>None\<close> says that the choice is not possible; undefined behaviour takes
  the thread to \<open>undef\<close>.
\<close>

datatype ('l, 'v) access =
    Load 'l ordering
  | Exchange 'l 'v ordering ordering        \<comment> \<open>weak: expected value, ordering on success, on failure\<close>
  | StrongExchange 'l 'v ordering ordering  \<comment> \<open>fails only on a value other than the expected one\<close>
  | Store 'l ordering
  | Fence ordering
  | Payload nat
  | Wild                                    \<comment> \<open>outside the object or to memory not initialised\<close>
  | NoAccess

fun mem_perform :: "('q \<Rightarrow> 'l \<Rightarrow> 'v) \<Rightarrow> ('q \<Rightarrow> 'l \<Rightarrow> 'v \<Rightarrow> 'q) \<Rightarrow> (bool \<Rightarrow> 'q \<Rightarrow> 't \<Rightarrow> 'q \<times> 't) \<Rightarrow> ('t \<Rightarrow> 't) \<Rightarrow>
    bool \<Rightarrow> nat \<Rightarrow> 'q \<Rightarrow> ('l, 'v) memory \<Rightarrow> 'l view \<Rightarrow> 't \<Rightarrow> ('l, 'v) access \<Rightarrow>
    ('q \<times> ('l, 'v) memory \<times> 'l view \<times> 't) option" where
  "mem_perform peek poke step undef weak lag q M V th (Load l ord) =
     (if readable ord l lag M V
      then Some (q, M, read_view ord l lag M V, snd (step weak (poke q l (msg_value (read_msg l lag M))) th))
      else None)"
| "mem_perform peek poke step undef weak lag q M V th (Exchange l w success failure) =
     (if \<not> weak \<and> lag = 0 \<and> peek q l = w
      then (case step False q th of
        (q', th') \<Rightarrow> (case mem_exchange success l (peek q' l) M V of (M', V') \<Rightarrow> Some (q', M', V', th')))
      else if readable failure l lag M V
      then Some (q, M, read_view failure l lag M V, snd (step True (poke q l (msg_value (read_msg l lag M))) th))
      else None)"
| "mem_perform peek poke step undef weak lag q M V th (StrongExchange l w success failure) =
     (if lag = 0 \<and> peek q l = w
      then (case step False q th of
        (q', th') \<Rightarrow> (case mem_exchange success l (peek q' l) M V of (M', V') \<Rightarrow> Some (q', M', V', th')))
      else if readable failure l lag M V \<and> msg_value (read_msg l lag M) \<noteq> w
      then Some (q, M, read_view failure l lag M V, snd (step False (poke q l (msg_value (read_msg l lag M))) th))
      else None)"
| "mem_perform peek poke step undef weak lag q M V th (Store l ord) =
     (if store_definite l M V
      then (case step weak q th of
        (q', th') \<Rightarrow> (case mem_store ord l (peek q' l) M V of (M', V') \<Rightarrow> Some (q', M', V', th')))
      else Some (q, M, V, undef th))"
| "mem_perform peek poke step undef weak lag q M V th (Fence ord) =
     Some (q, M, mem_fence ord M V, snd (step weak q th))"
| "mem_perform peek poke step undef weak lag q M V th (Payload j) =
     (if race_free j M V
      then (case step weak q th of
        (q', th') \<Rightarrow> (case mem_cell j M V of (M', V') \<Rightarrow> Some (q', M', V', th')))
      else Some (q, M, V, undef th))"
| "mem_perform peek poke step undef weak lag q M V th Wild = Some (q, M, V, undef th)"
| "mem_perform peek poke step undef weak lag q M V th NoAccess = None"

section \<open>Views grow\<close>

definition view_le :: "'l view \<Rightarrow> 'l view \<Rightarrow> bool" where
  "view_le V W \<longleftrightarrow> (\<forall>l. seen V l \<le> seen W l) \<and> (\<forall>j. seen_cell V j \<le> seen_cell W j)"

lemma view_le_refl [simp, intro]: "view_le V V"
  by (simp add: view_le_def)

lemma view_le_join [simp]: "view_le V (join V W)" "view_le W (join V W)"
  by (simp_all add: view_le_def join_def)

lemma view_le_see [simp]: "view_le V W \<Longrightarrow> view_le V (see l n W)"
  by (auto simp: view_le_def see_def max_def intro: le_trans)

lemma read_view_ge [simp]:
  "view_le V (read_view ord l lag M V)"
  "acquires ord \<Longrightarrow> view_le (msg_view (read_msg l lag M)) (read_view ord l lag M V)"
  "latest M l - lag \<le> seen (read_view ord l lag M V) l"
  by (simp_all add: read_view_def) (simp add: see_def)

lemma fence_view_ge [simp]:
  "view_le V (mem_fence ord M V)" "last_sc (log M l) \<le> seen (mem_fence SeqCst M V) l"
  by (auto simp: mem_fence_def view_le_def)

lemma log_append_msg [simp]:
  "log (append_msg l m M) l' = (if l' = l then log M l @ [m] else log M l')"
  "uses (append_msg l m M) = uses M"
  by (simp_all add: append_msg_def)

lemma last_sc_append: "msg_sc m \<Longrightarrow> last_sc (ms @ [m]) = length ms"
  by (simp add: last_sc_def)

lemma last_sc_single [simp]: "last_sc [m] = 0"
  by (simp add: last_sc_def)

lemma mem_exchange_append:
  assumes "mem_exchange ord l v M V = (M', V')"
  obtains m where "M' = append_msg l m M" "msg_value m = v" "msg_sc m = (ord = SeqCst)" "view_le V V'"
proof
  let ?W = "read_view ord l 0 M V"
  let ?m = "\<lparr>msg_value = v, msg_view = join (released_view ord l (Suc (latest M l)) ?W) (msg_view (read_msg l 0 M)),
    msg_sc = (ord = SeqCst)\<rparr>"
  show "M' = append_msg l ?m M" using assms by (simp add: mem_exchange_def Let_def)
  show "view_le V V'" using assms by (auto simp: mem_exchange_def Let_def)
qed simp_all

lemma mem_store_append:
  assumes "mem_store ord l v M V = (M', V')"
  obtains m where "M' = append_msg l m M" "msg_value m = v" "msg_sc m = (ord = SeqCst)" "view_le V V'"
    "releases ord \<Longrightarrow> view_le V (msg_view m)"
proof
  let ?m = "\<lparr>msg_value = v, msg_view = released_view ord l (Suc (latest M l)) V, msg_sc = (ord = SeqCst)\<rparr>"
  show "M' = append_msg l ?m M" using assms by (simp add: mem_store_def Let_def)
  show "view_le V V'" using assms by (auto simp: mem_store_def Let_def)
  show "view_le V (msg_view ?m)" if "releases ord" using that by (simp add: released_view_def)
qed simp_all

section \<open>Views point into the logs\<close>

definition in_logs :: "('l, 'v) memory \<Rightarrow> 'l view \<Rightarrow> bool" where
  "in_logs M V \<longleftrightarrow> (\<forall>l. seen V l \<le> latest M l)"

definition logs_ok :: "('l, 'v) memory \<Rightarrow> bool" where
  "logs_ok M \<longleftrightarrow> (\<forall>l. \<forall>m \<in> set (log M l). in_logs M (msg_view m))"

fun written :: "('l, 'v) access \<Rightarrow> 'l option" where
  "written (Exchange l w x y) = Some l"
| "written (StrongExchange l w x y) = Some l"
| "written (Store l x) = Some l"
| "written _ = None"

lemma in_logs_join [simp]: "in_logs M (join V W) \<longleftrightarrow> in_logs M V \<and> in_logs M W"
  by (auto simp: in_logs_def join_def)

lemma in_logs_see: "in_logs M V \<Longrightarrow> n \<le> latest M l \<Longrightarrow> in_logs M (see l n V)"
  by (auto simp: in_logs_def see_def)

lemma in_logs_no_view [simp]: "in_logs M no_view"
  by (simp add: in_logs_def no_view_def)

lemma last_sc_latest: "last_sc (log M l) \<le> latest M l"
proof -
  have "length (dropWhile (\<lambda>m. \<not> msg_sc m) (rev (log M l))) \<le> length (rev (log M l))"
    by (rule length_dropWhile_le)
  then show ?thesis by (simp add: last_sc_def latest_def)
qed

lemma in_logs_mono: "in_logs M V \<Longrightarrow> (\<And>l. latest M l \<le> latest M' l) \<Longrightarrow> in_logs M' V"
  unfolding in_logs_def using le_trans by blast

lemma in_logs_read:
  assumes "in_logs M V" "logs_ok M" "lag < length (log M l)"
  shows "in_logs M (read_view ord l lag M V)"
proof -
  have "read_msg l lag M \<in> set (log M l)" using assms(3) by (simp add: read_msg_def latest_def)
  then show ?thesis using assms(1,2) by (auto simp: read_view_def logs_ok_def intro!: in_logs_see)
qed

lemma latest_append: "log M l \<noteq> [] \<Longrightarrow> latest (append_msg l m M) l' = (if l' = l then Suc (latest M l) else latest M l')"
  by (simp add: latest_def)

lemma logs_ok_append:
  assumes "logs_ok M" "log M l \<noteq> []" "in_logs (append_msg l m M) (msg_view m)"
  shows "logs_ok (append_msg l m M)"
  unfolding logs_ok_def
proof (intro allI ballI)
  fix l' m'
  assume "m' \<in> set (log (append_msg l m M) l')"
  then consider "m' = m" | "m' \<in> set (log M l')" by (auto split: if_splits)
  then show "in_logs (append_msg l m M) (msg_view m')"
  proof cases
    case 2
    then have "in_logs M (msg_view m')" using assms(1) by (simp add: logs_ok_def)
    then show ?thesis by (rule in_logs_mono) (simp add: latest_append [OF assms(2)])
  qed (simp add: assms(3))
qed

lemma append_in_logs:
  assumes "logs_ok M" "log M l \<noteq> []" "in_logs M W" "in_logs M U" and n: "n = Suc (latest M l)"
    and view: "msg_view m = released_view ord l n W \<or> msg_view m = join (released_view ord l n W) U"
  shows "in_logs (append_msg l m M) (see l n W)" "logs_ok (append_msg l m M)"
    "latest M l' \<le> latest (append_msg l m M) l'"
proof -
  have up: "in_logs (append_msg l m M) V" if "in_logs M V" for V
    using that by (rule in_logs_mono) (simp add: latest_append [OF assms(2)])
  have new: "in_logs (append_msg l m M) (see l n V)" if "in_logs M V" for V
    by (rule in_logs_see [OF up [OF that]]) (simp add: n latest_append [OF assms(2)])
  show "in_logs (append_msg l m M) (see l n W)" by (rule new [OF assms(3)])
  have "in_logs (append_msg l m M) (msg_view m)"
    using view new [OF assms(3)] new [of no_view] up [OF assms(4)] by (auto simp: released_view_def)
  then show "logs_ok (append_msg l m M)" by (rule logs_ok_append [OF assms(1,2)])
  show "latest M l' \<le> latest (append_msg l m M) l'" by (simp add: latest_append [OF assms(2)])
qed

lemma store_in_logs:
  assumes "mem_store ord l v M V = (M', V')" "in_logs M V" "logs_ok M" "log M l \<noteq> []"
  shows "in_logs M' V'" "logs_ok M'" "latest M l' \<le> latest M' l'"
  using assms(1) append_in_logs [OF assms(3,4,2) in_logs_no_view refl, where ord = ord]
  by (auto simp: mem_store_def Let_def)

lemma exchange_in_logs:
  assumes "mem_exchange ord l v M V = (M', V')" "in_logs M V" "logs_ok M" "log M l \<noteq> []"
  shows "in_logs M' V'" "logs_ok M'" "latest M l' \<le> latest M' l'"
proof -
  have "in_logs M (read_view ord l 0 M V)" using assms(2-4) by (intro in_logs_read) simp_all
  moreover have "read_msg l 0 M \<in> set (log M l)" using assms(4) by (simp add: read_msg_def latest_def)
  then have "in_logs M (msg_view (read_msg l 0 M))" using assms(3) by (simp add: logs_ok_def)
  ultimately show "in_logs M' V'" "logs_ok M'" "latest M l' \<le> latest M' l'"
    using assms(1) append_in_logs [OF assms(3,4) _ _ refl, where ord = ord]
    by (auto simp: mem_exchange_def Let_def)
qed

lemma cell_in_logs:
  assumes "mem_cell j M V = (M', V')" "in_logs M V" "logs_ok M"
  shows "in_logs M' V'" "logs_ok M'" "latest M l' \<le> latest M' l'"
proof -
  have "latest M' l = latest M l" for l using assms(1) by (auto simp: mem_cell_def latest_def)
  then show "in_logs M' V'" "logs_ok M'" "latest M l' \<le> latest M' l'"
    using assms by (auto simp: mem_cell_def in_logs_def logs_ok_def)
qed

lemma perform_in_logs:
  assumes "mem_perform peek poke step undef weak lag q M V th acc = Some (q', M', V', th')"
    "in_logs M V" "logs_ok M" "\<And>l. written acc = Some l \<Longrightarrow> log M l \<noteq> []"
  shows "in_logs M' V' \<and> logs_ok M' \<and> (\<forall>l. latest M l \<le> latest M' l)"
proof (cases acc)
  case (Load l ord)
  then show ?thesis using assms(1) in_logs_read [OF assms(2,3), of lag l ord] assms(3)
    by (auto simp: readable_def split: if_splits)
next
  case (Exchange l w x y)
  show ?thesis
  proof (cases "\<not> weak \<and> lag = 0 \<and> peek q l = w")
    case True
    then have "mem_exchange x l (peek q' l) M V = (M', V')"
      using assms(1) Exchange by (auto split: prod.splits)
    from exchange_in_logs [OF this assms(2,3)] assms(4) Exchange show ?thesis by simp
  next
    case False
    then show ?thesis using assms(1,3) Exchange in_logs_read [OF assms(2,3), of lag l y]
      by (auto simp: readable_def split: if_splits)
  qed
next
  case (StrongExchange l w x y)
  show ?thesis
  proof (cases "lag = 0 \<and> peek q l = w")
    case True
    then have "mem_exchange x l (peek q' l) M V = (M', V')"
      using assms(1) StrongExchange by (auto split: prod.splits)
    from exchange_in_logs [OF this assms(2,3)] assms(4) StrongExchange show ?thesis by simp
  next
    case False
    then show ?thesis using assms(1,3) StrongExchange in_logs_read [OF assms(2,3), of lag l y]
      by (auto simp: readable_def split: if_splits)
  qed
next
  case (Store l x)
  show ?thesis
  proof (cases "store_definite l M V")
    case True
    then have "mem_store x l (peek q' l) M V = (M', V')" using assms(1) Store by (auto split: prod.splits)
    from store_in_logs [OF this assms(2,3)] assms(4) Store show ?thesis by simp
  qed (use assms(1-3) Store in auto)
next
  case (Fence ord)
  have "in_logs M (mem_fence ord M V)" using assms(2) last_sc_latest by (auto simp: mem_fence_def in_logs_def)
  then show ?thesis using assms(1,3) Fence by auto
next
  case (Payload j)
  show ?thesis
  proof (cases "race_free j M V")
    case True
    then have "mem_cell j M V = (M', V')" using assms(1) Payload by (auto split: prod.splits)
    from cell_in_logs [OF this assms(2,3)] show ?thesis by simp
  qed (use assms(1-3) Payload in auto)
qed (use assms(1-3) in auto)

lemma readable_latest:
  assumes "in_logs M V" "log M l \<noteq> []"
  shows "readable ord l 0 M V" "read_msg l 0 M = last (log M l)"
  using assms last_sc_latest [of M l] by (auto simp: readable_def in_logs_def read_msg_def latest_def last_conv_nth)

end
