(* ===== verification/Nure_Conc.thy ===== *)
theory Nure_Conc
  imports Nure_Seq Nure_Spec Memory
begin

text \<open>
  The Vyukov queue under any number of threads, on the memory of the theory \<open>Memory\<close>. A state of
  the system is the latest state of the queue, the logs and views of the memory model, and one
  program counter per thread. A step is a call, one access of one thread to shared memory, or a
  return. \<open>access_of\<close> says for each program counter which location the next access is to and with
  which ordering; the access itself, and the local computation up to the next one, is the step of
  the machine in the theory \<open>Nure_Queue\<close>, on the value that the memory model lets the thread read.
\<close>

section \<open>Threads\<close>

datatype 'a thread =
    Idle
  | Pushing "'a push_pc"
  | Popping "'a pop_pc"
  | Observing obs_pc

fun start :: "'a ring_cmd \<Rightarrow> 'a thread" where
  "start (OpPush v) = Pushing (push_start KPush v)"
| "start OpPop = Popping pop_start"
| "start (OpForcePush v) = Pushing (push_start KForce v)"
| "start OpLen = Observing LenTail"
| "start OpIsEmpty = Observing EmptyHead"
| "start OpIsFull = Observing FullTail"

fun push_ret :: "push_kind \<Rightarrow> (unit, 'a) rust_result \<Rightarrow> 'a ring_ret" where
  "push_ret KPush r = RetPush r"
| "push_ret KForce r = RetForce (err r)"

fun returned :: "'a thread \<Rightarrow> 'a ring_ret option" where
  "returned (Pushing (PushRet k r)) = Some (push_ret k r)"
| "returned (Popping (PopRet r)) = Some (RetPop r)"
| "returned (Observing (ObsBool b)) = Some (RetBool b)"
| "returned (Observing (ObsNat n)) = Some (RetLen n)"
| "returned _ = None"

fun thread_step :: "bool \<Rightarrow> bool \<Rightarrow> 'a queue \<Rightarrow> 'a thread \<Rightarrow> 'a queue \<times> 'a thread" where
  "thread_step std weak q Idle = (q, Idle)"
| "thread_step std weak q (Pushing pc) = map_prod id Pushing (push_or_else_step std weak q pc)"
| "thread_step std weak q (Popping pc) = map_prod id Popping (pop_step std weak q pc)"
| "thread_step std weak q (Observing pc) = (q, Observing (obs_step q pc))"

fun undefined_thread :: "'a thread \<Rightarrow> 'a thread" where
  "undefined_thread (Popping pc) = Popping PopUB"
| "undefined_thread _ = Pushing PushUB"

section \<open>Locations, accesses and their orderings\<close>

datatype location = Head | Tail | Stamp nat

type_synonym queue_access = "(location, index) access"

definition slot_access :: "'a queue \<Rightarrow> index \<Rightarrow> (nat \<Rightarrow> queue_access) \<Rightarrow> queue_access" where
  "slot_access q w f = (case get_slot q (index_of q w) of None \<Rightarrow> Wild | Some _ \<Rightarrow> f (index_of q w))"

definition stamp_load_access :: "nat \<Rightarrow> queue_access" where
  "stamp_load_access j = Load (Stamp j) Acquire"

definition stamp_store_access :: "nat \<Rightarrow> queue_access" where
  "stamp_store_access j = Store (Stamp j) Release"

fun push_access :: "'a queue \<Rightarrow> 'a push_pc \<Rightarrow> queue_access" where
  "push_access q (PushLoad k v b) = Load Tail Relaxed"
| "push_access q (PushStamp k v b t) = slot_access q t stamp_load_access"
| "push_access q (PushCas k v b t) = Exchange Tail t SeqCst Relaxed"
| "push_access q (PushWrite k v t) = slot_access q t Payload"
| "push_access q (PushPublish k t) = slot_access q t stamp_store_access"
| "push_access q (PushFence k v b t) = Fence SeqCst"
| "push_access q (PushFull k v b t) =
     (case k of
        KPush \<Rightarrow> Load Head Relaxed
      | KForce \<Rightarrow> Exchange Head (t - one_lap q) SeqCst Relaxed)"
| "push_access q (ForceTail v t) = Store Tail SeqCst"
| "push_access q (ForceReplace v t) = slot_access q t Payload"
| "push_access q (ForcePublish old t) = slot_access q t stamp_store_access"
| "push_access q _ = NoAccess"

fun pop_access :: "'a queue \<Rightarrow> 'a pop_pc \<Rightarrow> queue_access" where
  "pop_access q (PopLoad b) = Load Head Relaxed"
| "pop_access q (PopStamp b h) = slot_access q h stamp_load_access"
| "pop_access q (PopCas b h) = Exchange Head h SeqCst Relaxed"
| "pop_access q (PopRead h) = slot_access q h Payload"
| "pop_access q (PopPublish h msg) = slot_access q h stamp_store_access"
| "pop_access q (PopFence b h) = Fence SeqCst"
| "pop_access q (PopEmpty b h) = Load Tail Relaxed"
| "pop_access q _ = NoAccess"

fun obs_access :: "obs_pc \<Rightarrow> queue_access" where
  "obs_access EmptyHead = Load Head SeqCst"
| "obs_access (EmptyTail h) = Load Tail SeqCst"
| "obs_access FullTail = Load Tail SeqCst"
| "obs_access (FullHead t) = Load Head SeqCst"
| "obs_access LenTail = Load Tail SeqCst"
| "obs_access (LenHead t) = Load Head SeqCst"
| "obs_access (LenCheck t h) = Load Tail SeqCst"
| "obs_access _ = NoAccess"

fun access_of :: "'a queue \<Rightarrow> 'a thread \<Rightarrow> queue_access" where
  "access_of q Idle = NoAccess"
| "access_of q (Pushing pc) = push_access q pc"
| "access_of q (Popping pc) = pop_access q pc"
| "access_of q (Observing pc) = obs_access pc"

section \<open>The system\<close>

fun peek :: "'a queue \<Rightarrow> location \<Rightarrow> index" where
  "peek q Head = head q"
| "peek q Tail = tail q"
| "peek q (Stamp j) = (case get_slot q j of None \<Rightarrow> 0 | Some s \<Rightarrow> stamp s)"

fun poke :: "'a queue \<Rightarrow> location \<Rightarrow> index \<Rightarrow> 'a queue" where
  "poke q Head w = q\<lparr>head := w\<rparr>"
| "poke q Tail w = q\<lparr>tail := w\<rparr>"
| "poke q (Stamp j) w = (case get_slot q j of None \<Rightarrow> q | Some s \<Rightarrow> put_slot q j (s\<lparr>stamp := w\<rparr>))"

type_synonym queue_memory = "(location, index) memory"
type_synonym queue_view = "location view"

abbreviation perform :: "bool \<Rightarrow> bool \<Rightarrow> nat \<Rightarrow> 'a queue \<Rightarrow> queue_memory \<Rightarrow> queue_view \<Rightarrow> 'a thread \<Rightarrow> queue_access \<Rightarrow>
    ('a queue \<times> queue_memory \<times> queue_view \<times> 'a thread) option" where
  "perform std \<equiv> mem_perform peek poke (thread_step std) undefined_thread"

record 'a sys =
  mem :: "'a queue"
  shared :: queue_memory
  views :: "nat \<Rightarrow> queue_view"
  threads :: "nat \<Rightarrow> 'a thread"

abbreviation move :: "'a sys \<Rightarrow> nat \<Rightarrow> 'a queue \<Rightarrow> queue_memory \<Rightarrow> queue_view \<Rightarrow> 'a thread \<Rightarrow> 'a sys" where
  "move s i q M V th \<equiv> s\<lparr>mem := q, shared := M, views := (views s)(i := V), threads := (threads s)(i := th)\<rparr>"

inductive sys_step :: "bool \<Rightarrow> 'a sys \<Rightarrow> 'a ring_label \<Rightarrow> 'a sys \<Rightarrow> bool" for std where
  call: "threads s i = Idle \<Longrightarrow>
    sys_step std s (Call i c) (s\<lparr>threads := (threads s)(i := start c)\<rparr>)"
| internal: "perform std weak lag (mem s) (shared s) (views s i) (threads s i) (access_of (mem s) (threads s i)) =
      Some (q', M', V', th') \<Longrightarrow>
    sys_step std s Tau (move s i q' M' V' th')"
| return: "returned (threads s i) = Some r \<Longrightarrow>
    sys_step std s (Return i r) (s\<lparr>threads := (threads s)(i := Idle)\<rparr>)"

text \<open>A new queue: every atomic has the one message with which \<open>new\<close> initialised it.\<close>

definition first_msg :: "index \<Rightarrow> (location, index) message" where
  "first_msg w = \<lparr>msg_value = w, msg_view = no_view, msg_sc = False\<rparr>"

fun first_log :: "'a queue \<Rightarrow> location \<Rightarrow> (location, index) message list" where
  "first_log q (Stamp j) = (case get_slot q j of None \<Rightarrow> [] | Some s \<Rightarrow> [first_msg (stamp s)])"
| "first_log q l = [first_msg (peek q l)]"

definition init_sys :: "'a queue \<Rightarrow> 'a sys" where
  "init_sys q = \<lparr>mem = q, shared = \<lparr>log = first_log q, uses = (\<lambda>_. 0)\<rparr>, views = (\<lambda>_. no_view),
     threads = (\<lambda>_. Idle)\<rparr>"

section \<open>Schedules\<close>

text \<open>An executable scheduler of the system. A step of a thread comes with the flag \<open>weak\<close> and the
  number \<open>lag\<close>.\<close>

type_synonym 'a ring_move = "('a ring_cmd, bool \<times> nat) move"

fun sched_step :: "bool \<Rightarrow> 'a sys \<Rightarrow> 'a ring_move \<Rightarrow> ('a ring_label \<times> 'a sys) option" where
  "sched_step std s (MCall i c) =
     (case threads s i of
        Idle \<Rightarrow> Some (Call i c, s\<lparr>threads := (threads s)(i := start c)\<rparr>)
      | _ \<Rightarrow> None)"
| "sched_step std s (MStep i (weak, lag)) =
     (case perform std weak lag (mem s) (shared s) (views s i) (threads s i)
         (access_of (mem s) (threads s i)) of
        None \<Rightarrow> None
      | Some (q', M', V', th') \<Rightarrow> Some (Tau, move s i q' M' V' th'))"
| "sched_step std s (MReturn i) =
     (case returned (threads s i) of
        Some r \<Rightarrow> Some (Return i r, s\<lparr>threads := (threads s)(i := Idle)\<rparr>)
      | None \<Rightarrow> None)"

lemma sched_step_sound: "sched_step std s m = Some (l, s') \<Longrightarrow> sys_step std s l s'"
proof (induction m)
  case (MStep i x)
  obtain weak lag where x: "x = (weak, lag)" by fastforce
  from MStep [unfolded x] show ?case
    using sys_step.internal [of std weak lag s i] by (auto split: option.splits)
qed (auto intro: sys_step.intros split: thread.splits option.splits)

lemma sched_run_sound: "sched_run (sched_step std) s ms = Some (ls, s') \<Longrightarrow> exec (sys_step std) s ls s'"
  by (rule sched_run_exec [where f = "sched_step std"]) (auto intro: sched_step_sound)

end
