(* ===== verification/Nure_Sim.thy ===== *)
theory Nure_Sim
  imports Nure_Conc
begin

text \<open>
  The simulation between the interleaved system and the delayed specification, as far as the latest
  values in memory go (what the logs and views hold is the subject of the theory \<open>Nure_Weak\<close>).
  Positions are natural numbers: \<open>h\<close> counts the removals so far, and the abstract
  items occupy the positions from \<open>h\<close> to \<open>h + length xs\<close>. A thread that has claimed a position
  with a successful exchange owns the position's slot until it publishes the slot's stamp; a
  slot that nobody owns is settled. The frame lemmas say how the three kinds of change (a claim
  at the tail, a claim at the head, an update of an owned slot) leave the other threads'
  assertions true; the step lemmas treat the moving thread.
\<close>

section \<open>The simulation relation\<close>

definition stamp_at :: "'a queue \<Rightarrow> nat \<Rightarrow> index \<Rightarrow> bool" where
  "stamp_at q p w \<longleftrightarrow> (\<exists>s. get_slot q (p mod capacity q) = Some s \<and> stamp s = w)"

definition value_at :: "'a queue \<Rightarrow> nat \<Rightarrow> 'a \<Rightarrow> bool" where
  "value_at q p v \<longleftrightarrow> (\<exists>s. get_slot q (p mod capacity q) = Some s \<and> slot_value s = Some v)"

fun push_cmd :: "push_kind \<Rightarrow> 'a \<Rightarrow> 'a ring_cmd" where
  "push_cmd KPush v = OpPush v"
| "push_cmd KForce v = OpForcePush v"

text \<open>The slot index that a thread owns: it has claimed the slot's position with a successful
  exchange and has not yet published the slot.\<close>

fun own_index :: "index \<Rightarrow> 'a thread \<Rightarrow> nat option" where
  "own_index L (Pushing (PushWrite k v w)) = Some (slot_index L w)"
| "own_index L (Pushing (PushPublish k w)) = Some (slot_index L w)"
| "own_index L (Pushing (ForceTail v w)) = Some (slot_index L w)"
| "own_index L (Pushing (ForceReplace v w)) = Some (slot_index L w)"
| "own_index L (Pushing (ForcePublish x w)) = Some (slot_index L w)"
| "own_index L (Popping (PopRead w)) = Some (slot_index L w)"
| "own_index L (Popping (PopPublish w m)) = Some (slot_index L w)"
| "own_index L _ = None"

text \<open>
  The assertions at each program counter. The ghost arguments are the position \<open>p\<close> whose encoding
  a thread holds in its local variable, and the element \<open>x\<close> that it is taking out; \<open>V\<close> is the thread's
  view. A thread whose operation has not taken effect is \<open>waiting\<close>, with the answers that were right
  since its call; it may return what it was \<open>told\<close>. After the fence a pusher that reads a head one
  lap behind, or a popper that reads a tail equal to its head, has been told so.
\<close>

definition waiting :: "nat \<Rightarrow> 'a list \<Rightarrow> 'a ring_cmd \<Rightarrow> 'a dstat \<Rightarrow> bool" where
  "waiting N xs c st \<longleftrightarrow> (\<exists>S. st = DWaiting c S \<and> answers N xs c \<subseteq> S)"

definition told :: "'a dstat \<Rightarrow> 'a ring_ret \<Rightarrow> bool" where
  "told st r \<longleftrightarrow> st = DDone r \<or> (\<exists>c S. st = DWaiting c S \<and> r \<in> S)"

definition behind_ok :: "'a queue \<Rightarrow> nat \<Rightarrow> 'a list \<Rightarrow> nat \<Rightarrow> bool" where
  "behind_ok q h xs p \<longleftrightarrow> p \<le> h + length xs \<and> capacity q \<le> p \<and>
     (h \<le> p - capacity q \<longrightarrow> stamp_at q p (enc_q q (p - capacity q) + 1))"

fun push_at :: "'a queue \<Rightarrow> nat \<Rightarrow> 'a list \<Rightarrow> queue_view \<Rightarrow> nat \<Rightarrow> 'a \<Rightarrow> 'a push_pc \<Rightarrow> 'a dstat \<Rightarrow> bool" where
  "push_at q h xs V p x (PushLoad k v b) st \<longleftrightarrow> waiting (capacity q) xs (push_cmd k v) st"
| "push_at q h xs V p x (PushStamp k v b w) st \<longleftrightarrow> waiting (capacity q) xs (push_cmd k v) st \<and>
     w = enc_q q p \<and> p \<le> h + length xs"
| "push_at q h xs V p x (PushCas k v b w) st \<longleftrightarrow> waiting (capacity q) xs (push_cmd k v) st \<and>
     w = enc_q q p \<and> p \<le> h + length xs \<and> (p = h + length xs \<longrightarrow> stamp_at q p (enc_q q p))"
| "push_at q h xs V p x (PushFence k v b w) st \<longleftrightarrow> waiting (capacity q) xs (push_cmd k v) st \<and>
     w = enc_q q p \<and> behind_ok q h xs p"
| "push_at q h xs V p x (PushFull k v b w) st \<longleftrightarrow> waiting (capacity q) xs (push_cmd k v) st \<and>
     w = enc_q q p \<and> behind_ok q h xs p \<and> p \<le> seen V Tail \<and>
     (k = KPush \<longrightarrow> p \<le> seen V Head + capacity q \<and>
        (p = seen V Head + capacity q \<longrightarrow> told st (RetPush (Err v))))"
| "push_at q h xs V p x (PushWrite k v w) st \<longleftrightarrow> st = DDone (push_ret k (Ok ())) \<and>
     w = enc_q q p \<and> h \<le> p \<and> p < h + length xs \<and> xs ! (p - h) = v \<and> stamp_at q p (enc_q q p)"
| "push_at q h xs V p x (PushPublish k w) st \<longleftrightarrow> st = DDone (push_ret k (Ok ())) \<and>
     w = enc_q q p \<and> h \<le> p \<and> p < h + length xs \<and> stamp_at q p (enc_q q p) \<and>
     value_at q p (xs ! (p - h))"
| "push_at q h xs V p x (ForceTail v w) st \<longleftrightarrow> st = DReplacing v x \<and>
     w = enc_q q p \<and> p = h + length xs \<and> capacity q \<le> p \<and> p < h + capacity q \<and>
     stamp_at q p (enc_q q (p - capacity q) + 1) \<and> value_at q p x \<and> p \<le> seen V Tail"
| "push_at q h xs V p x (ForceReplace v w) st \<longleftrightarrow> st = DDone (RetForce (Some x)) \<and>
     w = enc_q q p \<and> capacity q \<le> p \<and> h \<le> p \<and> p < h + length xs \<and> xs ! (p - h) = v \<and>
     stamp_at q p (enc_q q (p - capacity q) + 1) \<and> value_at q p x"
| "push_at q h xs V p x (ForcePublish y w) st \<longleftrightarrow> st = DDone (RetForce (Some y)) \<and>
     w = enc_q q p \<and> capacity q \<le> p \<and> h \<le> p \<and> p < h + length xs \<and>
     stamp_at q p (enc_q q (p - capacity q) + 1) \<and> value_at q p (xs ! (p - h))"
| "push_at q h xs V p x (PushRet k r) st \<longleftrightarrow> told st (push_ret k r)"
| "push_at q h xs V p x PushUB st \<longleftrightarrow> False"

fun pop_at :: "'a queue \<Rightarrow> nat \<Rightarrow> 'a list \<Rightarrow> queue_view \<Rightarrow> nat \<Rightarrow> 'a \<Rightarrow> 'a pop_pc \<Rightarrow> 'a dstat \<Rightarrow> bool" where
  "pop_at q h xs V p x (PopLoad b) st \<longleftrightarrow> waiting (capacity q) xs OpPop st"
| "pop_at q h xs V p x (PopStamp b w) st \<longleftrightarrow> waiting (capacity q) xs OpPop st \<and> w = enc_q q p \<and> p \<le> h"
| "pop_at q h xs V p x (PopCas b w) st \<longleftrightarrow> waiting (capacity q) xs OpPop st \<and> w = enc_q q p \<and> p \<le> h \<and>
     (p = h \<longrightarrow> stamp_at q p (enc_q q p + 1))"
| "pop_at q h xs V p x (PopRead w) st \<longleftrightarrow> st = DDone (RetPop (Some x)) \<and> w = enc_q q p \<and> p < h \<and>
     h + length xs \<le> p + capacity q \<and> stamp_at q p (enc_q q p + 1) \<and> value_at q p x"
| "pop_at q h xs V p x (PopPublish w m) st \<longleftrightarrow> st = DDone (RetPop (Some m)) \<and> w = enc_q q p \<and> p < h \<and>
     h + length xs \<le> p + capacity q \<and> stamp_at q p (enc_q q p + 1)"
| "pop_at q h xs V p x (PopFence b w) st \<longleftrightarrow> waiting (capacity q) xs OpPop st \<and> w = enc_q q p \<and> p \<le> h"
| "pop_at q h xs V p x (PopEmpty b w) st \<longleftrightarrow> waiting (capacity q) xs OpPop st \<and> w = enc_q q p \<and> p \<le> h \<and>
     p \<le> seen V Tail \<and> (p = seen V Tail \<longrightarrow> told st (RetPop None))"
| "pop_at q h xs V p x (PopRet r) st \<longleftrightarrow> told st (RetPop r)"
| "pop_at q h xs V p x PopUB st \<longleftrightarrow> False"

text \<open>An observer at positions \<open>p\<close> (and \<open>r\<close>, its second counter).\<close>

fun obs_at :: "'a queue \<Rightarrow> nat \<Rightarrow> 'a list \<Rightarrow> nat \<Rightarrow> nat \<Rightarrow> obs_pc \<Rightarrow> 'a dstat \<Rightarrow> bool" where
  "obs_at q h xs p r EmptyHead st \<longleftrightarrow> waiting (capacity q) xs OpIsEmpty st"
| "obs_at q h xs p r (EmptyTail w) st \<longleftrightarrow> waiting (capacity q) xs OpIsEmpty st \<and>
     w = enc_q q p \<and> p \<le> h \<and> (p < h + length xs \<longrightarrow> told st (RetBool False))"
| "obs_at q h xs p r FullTail st \<longleftrightarrow> waiting (capacity q) xs OpIsFull st"
| "obs_at q h xs p r (FullHead w) st \<longleftrightarrow> waiting (capacity q) xs OpIsFull st \<and>
     w = enc_q q p \<and> p \<le> h + length xs \<and> (p < h + capacity q \<longrightarrow> told st (RetBool False))"
| "obs_at q h xs p r LenTail st \<longleftrightarrow> waiting (capacity q) xs OpLen st"
| "obs_at q h xs p r (LenHead w) st \<longleftrightarrow> waiting (capacity q) xs OpLen st \<and>
     w = enc_q q p \<and> p \<le> h + length xs"
| "obs_at q h xs p r (LenCheck w u) st \<longleftrightarrow> waiting (capacity q) xs OpLen st \<and>
     w = enc_q q p \<and> p \<le> h + length xs \<and> u = enc_q q r \<and> r \<le> h \<and>
     (p = h + length xs \<longrightarrow> p \<le> r + capacity q \<and> told st (RetLen (p - r)))"
| "obs_at q h xs p r (ObsBool b) st \<longleftrightarrow> told st (RetBool b)"
| "obs_at q h xs p r (ObsNat n) st \<longleftrightarrow> told st (RetLen n)"

fun thread_ok :: "'a queue \<Rightarrow> nat \<Rightarrow> 'a list \<Rightarrow> queue_view \<Rightarrow> 'a thread \<Rightarrow> 'a dstat \<Rightarrow> bool" where
  "thread_ok q h xs V Idle st \<longleftrightarrow> st = DIdle"
| "thread_ok q h xs V (Pushing pc) st \<longleftrightarrow> (\<exists>p x. push_at q h xs V p x pc st)"
| "thread_ok q h xs V (Popping pc) st \<longleftrightarrow> (\<exists>p x. pop_at q h xs V p x pc st)"
| "thread_ok q h xs V (Observing pc) st \<longleftrightarrow> (\<exists>p r. obs_at q h xs p r pc st)"

definition queue_ok :: "'a queue \<Rightarrow> nat \<Rightarrow> 'a list \<Rightarrow> bool" where
  "queue_ok q h xs \<longleftrightarrow>
     lap_ok (capacity q) (one_lap q) \<and> capacity q < 2 ^ 62 \<and> length xs \<le> capacity q \<and>
     h + length xs \<le> 2 ^ 62 \<and> head q = enc_q q h \<and> tail q = enc_q q (h + length xs)"

definition owned_ok :: "'a queue \<Rightarrow> nat \<Rightarrow> 'a list \<Rightarrow> (nat \<Rightarrow> nat option) \<Rightarrow> bool" where
  "owned_ok q h xs own \<longleftrightarrow>
     (\<forall>i j k. own i = Some k \<longrightarrow> own j = Some k \<longrightarrow> i = j) \<and>
     (\<forall>p. h \<le> p \<longrightarrow> p < h + capacity q \<longrightarrow> (\<forall>i. own i \<noteq> Some (p mod capacity q)) \<longrightarrow>
        slot_settled q h xs p)"

definition owns :: "'a sys \<Rightarrow> nat \<Rightarrow> nat option" where
  "owns s = (\<lambda>i. own_index (one_lap (mem s)) (threads s i))"

definition sys_ok :: "'a sys \<Rightarrow> 'a dspec \<Rightarrow> nat \<Rightarrow> bool" where
  "sys_ok s a h \<longleftrightarrow>
     queue_ok (mem s) h (items a) \<and>
     (\<forall>i. thread_ok (mem s) h (items a) (views s i) (threads s i) (stats a i)) \<and>
     owned_ok (mem s) h (items a) (owns s)"

section \<open>Ownership\<close>

lemma stamp_at_simps [simp]:
  "stamp_at (q\<lparr>head := w\<rparr>) p x = stamp_at q p x"
  "stamp_at (q\<lparr>tail := w\<rparr>) p x = stamp_at q p x"
  "value_at (q\<lparr>head := w\<rparr>) p v = value_at q p v"
  "value_at (q\<lparr>tail := w\<rparr>) p v = value_at q p v"
  by (simp_all add: stamp_at_def value_at_def)

lemma stamp_at_put_slot:
  "k < capacity q \<Longrightarrow> stamp_at (put_slot q k s) p x =
     (if p mod capacity q = k then stamp s = x else stamp_at q p x)"
  by (auto simp: stamp_at_def get_put_slot)

lemma value_at_put_slot:
  "k < capacity q \<Longrightarrow> value_at (put_slot q k s) p v =
     (if p mod capacity q = k then slot_value s = Some v else value_at q p v)"
  by (auto simp: value_at_def get_put_slot)

lemma stamp_at_unique: "stamp_at q p x \<Longrightarrow> stamp_at q r y \<Longrightarrow> p mod capacity q = r mod capacity q \<Longrightarrow> x = y"
  by (auto simp: stamp_at_def)

lemma queue_okD:
  assumes "queue_ok q h xs"
  shows "lap_ok (capacity q) (one_lap q)" "0 < capacity q" "capacity q < 2 ^ 62"
    "length xs \<le> capacity q" "h + length xs \<le> 2 ^ 62" "head q = enc_q q h"
    "tail q = enc_q q (h + length xs)"
  using assms by (auto simp: queue_ok_def lap_ok_def)

text \<open>Equality of encoded positions in the range that matters.\<close>

lemma enc_q_eq:
  assumes "queue_ok q h xs" "p \<le> h + length xs + capacity q" "r \<le> h + length xs + capacity q"
  shows "enc_q q p = enc_q q r \<longleftrightarrow> p = r"
  using queue_okD [OF assms(1)] assms(2,3) by (intro enc_eq) auto

text \<open>The stamp of an owned slot is neither that of a published live position nor that of the
  free position at the tail.\<close>

lemma sub_cap_mod: "N \<le> p \<Longrightarrow> (p - N) mod N = p mod (N :: nat)"
  by (metis le_add_diff_inverse2 mod_add_self2)

lemma owned_position:
  assumes "queue_ok q h xs" "thread_ok q h xs V th st" "own_index (one_lap q) th = Some k"
  obtains p x where "k = p mod capacity q" "stamp_at q p x"
    "x = enc_q q p \<and> h \<le> p \<and> p < h + length xs \<or>
     (\<exists>r < h. r mod capacity q = k \<and> x = enc_q q r + 1)"
proof -
  note r = queue_okD [OF assms(1)]
  have idx: "index_of q (enc_q q p) = p mod capacity q" for p using r(1) by (rule slot_index_enc)
  have earlier: "\<exists>r < h. r mod capacity q = p mod capacity q \<and> enc_q q (p - capacity q) + 1 = enc_q q r + 1"
    if "capacity q \<le> p" "p < h + capacity q" for p
    using that sub_cap_mod [of "capacity q" p] by (intro exI [of _ "p - capacity q"]) auto
  show thesis
  proof (cases th)
    case (Pushing pc)
    then obtain p x where "push_at q h xs V p x pc st" using assms(2) by auto
    then show thesis using assms(3) Pushing that [of p "enc_q q p"]
        that [of p "enc_q q (p - capacity q) + 1"] earlier [of p] r(4) by (cases pc) (auto simp: idx)
  next
    case (Popping pc)
    then obtain p x where "pop_at q h xs V p x pc st" using assms(2) by auto
    then show thesis using assms(3) Popping that [of p "enc_q q p + 1"] by (cases pc) (auto simp: idx)
  qed (use assms in auto)
qed

lemma owned_stamp:
  assumes "queue_ok q h xs" "thread_ok q h xs V th st" "own_index (one_lap q) th = Some k"
  shows "k < capacity q" "\<exists>s. get_slot q k = Some s"
    "h \<le> p \<Longrightarrow> p \<le> h + length xs \<Longrightarrow> p mod capacity q = k \<Longrightarrow> \<not> stamp_at q p (enc_q q p + 1)"
    "(h + length xs) mod capacity q = k \<Longrightarrow> \<not> stamp_at q (h + length xs) (enc_q q (h + length xs))"
proof -
  note r = queue_okD [OF assms(1)]
  obtain p0 x where p0: "k = p0 mod capacity q" "stamp_at q p0 x"
    "x = enc_q q p0 \<and> h \<le> p0 \<and> p0 < h + length xs \<or>
     (\<exists>r < h. r mod capacity q = k \<and> x = enc_q q r + 1)"
    by (rule owned_position [OF assms])
  show "k < capacity q" using r(2) by (simp add: p0(1))
  show "\<exists>s. get_slot q k = Some s" using p0 by (auto simp: stamp_at_def)
  have ne: "enc_q q p \<noteq> enc_q q p' + 1" if "p mod capacity q = p' mod capacity q" for p p'
    using r(1) that by (rule enc_ne_Suc)
  note eq = enc_q_eq [OF assms(1)]
  show "\<not> stamp_at q p (enc_q q p + 1)"
    if "h \<le> p" "p \<le> h + length xs" "p mod capacity q = k" for p
  proof
    assume "stamp_at q p (enc_q q p + 1)"
    then have x: "x = enc_q q p + 1" using stamp_at_unique [OF p0(2)] that(3) p0(1) by simp
    from p0(3) show False
      using x ne [of p0 p] that p0(1) eq by auto
  qed
  show "\<not> stamp_at q (h + length xs) (enc_q q (h + length xs))"
    if "(h + length xs) mod capacity q = k"
  proof
    assume "stamp_at q (h + length xs) (enc_q q (h + length xs))"
    then have x: "x = enc_q q (h + length xs)" using stamp_at_unique [OF p0(2)] that p0(1) by simp
    from p0(3) show False using x ne that eq by auto
  qed
qed

section \<open>Frame lemmas\<close>

lemma waiting_notice [simp]: "waiting N xs c st \<Longrightarrow> waiting N ys c (notice N ys st)"
  by (auto simp: waiting_def)

lemma told_notice [simp]: "told st r \<Longrightarrow> told (notice N ys st) r"
  by (auto simp: told_def)

lemma waiting_told: "waiting N xs c st \<Longrightarrow> r \<in> answers N xs c \<Longrightarrow> told st r"
  by (auto simp: waiting_def told_def)

lemma waiting_told_notice: "waiting N xs c st \<Longrightarrow> r \<in> answers N ys c \<Longrightarrow> told (notice N ys st) r"
  by (rule waiting_told [OF waiting_notice])

lemma notice_simps [simp]:
  "notice N xs (DDone r) = DDone r" "notice N xs (DReplacing v x) = DReplacing v x"
  "notice N xs DIdle = DIdle"
  by simp_all

lemma thread_ok_mono:
  assumes "thread_ok q h xs V th st"
    and "\<And>pc p x. th = Pushing pc \<Longrightarrow> push_at q h xs V p x pc st \<Longrightarrow> push_at q' h' xs' V p x pc st'"
    and "\<And>pc p x. th = Popping pc \<Longrightarrow> pop_at q h xs V p x pc st \<Longrightarrow> pop_at q' h' xs' V p x pc st'"
    and "\<And>pc p r. th = Observing pc \<Longrightarrow> obs_at q h xs p r pc st \<Longrightarrow> obs_at q' h' xs' p r pc st'"
    and "th = Idle \<Longrightarrow> st = DIdle \<Longrightarrow> st' = DIdle"
  shows "thread_ok q' h' xs' V th st'"
proof (cases th)
  case (Pushing pc)
  then obtain p x where "push_at q h xs V p x pc st" using assms(1) by auto
  from assms(2) [OF Pushing this] Pushing show ?thesis by auto
next
  case (Popping pc)
  then obtain p x where "pop_at q h xs V p x pc st" using assms(1) by auto
  from assms(3) [OF Popping this] Popping show ?thesis by auto
next
  case (Observing pc)
  then obtain p r where "obs_at q h xs p r pc st" using assms(1) by auto
  from assms(4) [OF Observing this] Observing show ?thesis by auto
qed (use assms(1,5) in simp)

text \<open>A claim at the tail: the items grow, the memory keeps its slots.\<close>

lemma frame_tail_push:
  assumes "queue_ok q h xs" "push_at q h xs V p x pc st"
    "own_index (one_lap q) (Pushing pc) \<noteq> Some ((h + length xs) mod capacity q)"
  shows "push_at (q\<lparr>tail := w\<rparr>) h (xs @ [v]) V p x pc (notice (capacity q) (xs @ [v]) st)"
proof -
  have idx: "index_of q (enc_q q p) = p mod capacity q" for p
    using queue_okD(1) [OF assms(1)] by (rule slot_index_enc)
  show ?thesis
    using assms(2,3) by (cases pc) (auto simp: idx nth_append behind_ok_def)
qed

lemma frame_tail_pop:
  assumes "queue_ok q h xs" "pop_at q h xs V p x pc st"
    "own_index (one_lap q) (Popping pc) \<noteq> Some ((h + length xs) mod capacity q)"
  shows "pop_at (q\<lparr>tail := w\<rparr>) h (xs @ [v]) V p x pc (notice (capacity q) (xs @ [v]) st)"
proof -
  have idx: "index_of q (enc_q q p) = p mod capacity q"
    using queue_okD(1) [OF assms(1)] by (rule slot_index_enc)
  have next_lap: "Suc (h + length xs) \<le> p + capacity q"
    if "h + length xs \<le> p + capacity q" "p mod capacity q \<noteq> (h + length xs) mod capacity q"
    using that by (metis Suc_leI le_neq_implies_less mod_add_self2)
  show ?thesis
    using assms(2,3) next_lap by (cases pc) (auto simp: idx)
qed

lemma frame_tail_obs:
  assumes "obs_at q h xs p r pc st"
  shows "obs_at (q\<lparr>tail := w\<rparr>) h (xs @ [v]) p r pc (notice (capacity q) (xs @ [v]) st)"
  using assms waiting_told_notice [of "capacity q" xs OpIsEmpty st "RetBool False" "xs @ [v]"]
  by (cases pc) auto

lemma frame_tail:
  assumes "queue_ok q h xs" "thread_ok q h xs V th st"
    "own_index (one_lap q) th \<noteq> Some ((h + length xs) mod capacity q)"
  shows "thread_ok (q\<lparr>tail := w\<rparr>) h (xs @ [v]) V th (notice (capacity q) (xs @ [v]) st)"
  by (rule thread_ok_mono [OF assms(2)])
    (use assms(1,3) in \<open>simp_all add: frame_tail_push frame_tail_pop frame_tail_obs\<close>)

text \<open>A claim at the head: the oldest item leaves, the memory keeps its slots.\<close>

lemma frame_head_push:
  assumes "queue_ok q h (y # ys)" "push_at q h (y # ys) V p x pc st"
    "own_index (one_lap q) (Pushing pc) \<noteq> Some (h mod capacity q)"
  shows "push_at (q\<lparr>head := w\<rparr>) (Suc h) ys V p x pc (notice (capacity q) ys st)"
proof -
  have idx: "index_of q (enc_q q p) = p mod capacity q" for p
    using queue_okD(1) [OF assms(1)] by (rule slot_index_enc)
  have later: "Suc h \<le> p \<and> (y # ys) ! (p - h) = ys ! (p - Suc h)"
    if "h \<le> p" "p mod capacity q \<noteq> h mod capacity q"
  proof -
    have "Suc h \<le> p" using that by (metis Suc_leI le_neq_implies_less)
    then show ?thesis by (simp add: nth_Cons')
  qed
  show ?thesis
    using assms(2,3) later by (cases pc) (auto simp: idx behind_ok_def)
qed

lemma frame_head_pop:
  assumes "pop_at q h (y # ys) V p x pc st"
  shows "pop_at (q\<lparr>head := w\<rparr>) (Suc h) ys V p x pc (notice (capacity q) ys st)"
  using assms by (cases pc) auto

lemma frame_head_obs:
  assumes "queue_ok q h (y # ys)" "obs_at q h (y # ys) p r pc st"
  shows "obs_at (q\<lparr>head := w\<rparr>) (Suc h) ys p r pc (notice (capacity q) ys st)"
proof -
  have "length ys < capacity q" using queue_okD(4) [OF assms(1)] by simp
  then show ?thesis
    using assms(2) waiting_told_notice [of "capacity q" "y # ys" OpIsFull st "RetBool False" ys]
    by (cases pc) auto
qed

lemma frame_head:
  assumes "queue_ok q h (y # ys)" "thread_ok q h (y # ys) V th st"
    "own_index (one_lap q) th \<noteq> Some (h mod capacity q)"
  shows "thread_ok (q\<lparr>head := w\<rparr>) (Suc h) ys V th (notice (capacity q) ys st)"
  by (rule thread_ok_mono [OF assms(2)])
    (use assms(1,3) in \<open>simp_all add: frame_head_push frame_head_pop frame_head_obs\<close>)

text \<open>An update of a slot that another thread owns.\<close>

lemma frame_slot_push:
  assumes "queue_ok q h xs" "push_at q h xs V p x pc st"
    "own_index (one_lap q) (Pushing pc) \<noteq> Some k" "k < capacity q"
    "\<And>p. h \<le> p \<Longrightarrow> p \<le> h + length xs \<Longrightarrow> p mod capacity q = k \<Longrightarrow> \<not> stamp_at q p (enc_q q p + 1)"
    "(h + length xs) mod capacity q = k \<Longrightarrow> \<not> stamp_at q (h + length xs) (enc_q q (h + length xs))"
  shows "push_at (put_slot q k s) h xs V p x pc st"
proof -
  have idx: "index_of q (enc_q q p) = p mod capacity q" for p
    using queue_okD(1) [OF assms(1)] by (rule slot_index_enc)
  have full: "p mod capacity q \<noteq> k"
    if "capacity q \<le> p" "h \<le> p - capacity q" "p \<le> h + length xs"
      "stamp_at q p (enc_q q (p - capacity q) + 1)"
  proof
    assume "p mod capacity q = k"
    with that sub_cap_mod [of "capacity q" p] have "\<not> stamp_at q (p - capacity q) (enc_q q (p - capacity q) + 1)"
      by (intro assms(5)) simp_all
    with that sub_cap_mod [of "capacity q" p] show False by (simp add: stamp_at_def)
  qed
  show ?thesis
    using assms(2-4,6) full by (cases pc) (auto simp: idx stamp_at_put_slot value_at_put_slot behind_ok_def)
qed

lemma frame_slot_pop:
  assumes "queue_ok q h xs" "pop_at q h xs V p x pc st"
    "own_index (one_lap q) (Popping pc) \<noteq> Some k" "k < capacity q"
    "\<And>p. h \<le> p \<Longrightarrow> p \<le> h + length xs \<Longrightarrow> p mod capacity q = k \<Longrightarrow> \<not> stamp_at q p (enc_q q p + 1)"
  shows "pop_at (put_slot q k s) h xs V p x pc st"
proof -
  have idx: "index_of q (enc_q q p) = p mod capacity q" for p
    using queue_okD(1) [OF assms(1)] by (rule slot_index_enc)
  show ?thesis
    using assms(2-4) assms(5) [of h]
    by (cases pc) (auto simp: idx stamp_at_put_slot value_at_put_slot)
qed

lemma frame_slot_obs: "obs_at q h xs p r pc st \<Longrightarrow> obs_at (put_slot q k s) h xs p r pc st"
  by (cases pc) auto

lemma frame_slot:
  assumes "queue_ok q h xs" "thread_ok q h xs V th st" "own_index (one_lap q) th \<noteq> Some k"
    and owner: "thread_ok q h xs V' th' st'" "own_index (one_lap q) th' = Some k"
  shows "thread_ok (put_slot q k s) h xs V th st"
proof -
  note o = owned_stamp [OF assms(1) owner]
  show ?thesis
  proof (rule thread_ok_mono [OF assms(2)])
    fix pc p x
    assume th: "th = Pushing pc" "push_at q h xs V p x pc st"
    show "push_at (put_slot q k s) h xs V p x pc st"
      by (rule frame_slot_push [OF assms(1) th(2) assms(3) [unfolded th(1)] o(1) o(3) o(4)])
  next
    fix pc p x
    assume th: "th = Popping pc" "pop_at q h xs V p x pc st"
    show "pop_at (put_slot q k s) h xs V p x pc st"
      by (rule frame_slot_pop [OF assms(1) th(2) assms(3) [unfolded th(1)] o(1) o(3)])
  qed (use frame_slot_obs in blast)+
qed

section \<open>The three kinds of change on the whole system\<close>

lemma sys_okD:
  assumes "sys_ok s a h"
  shows "queue_ok (mem s) h (items a)"
    "thread_ok (mem s) h (items a) (views s i) (threads s i) (stats a i)"
    "owned_ok (mem s) h (items a) (owns s)"
  using assms by (auto simp: sys_ok_def)

lemma owns_update:
  "one_lap q = one_lap (mem s) \<Longrightarrow>
   owns (move s i q M V th) = (owns s)(i := own_index (one_lap q) th)"
  by (auto simp: owns_def)

lemma owned_ok_settled:
  "owned_ok q h xs own \<Longrightarrow> h \<le> p \<Longrightarrow> p < h + capacity q \<Longrightarrow> (\<And>i. own i \<noteq> Some (p mod capacity q)) \<Longrightarrow>
   slot_settled q h xs p"
  by (simp add: owned_ok_def)

text \<open>Thread \<open>i\<close> comes to own the slot of position \<open>t\<close>, or nothing; nobody else owns that slot.\<close>

lemma owned_ok_update:
  assumes "owned_ok q h xs own"
    and "\<And>j. j \<noteq> i \<Longrightarrow> o' \<noteq> None \<Longrightarrow> own j \<noteq> o'"
    and "\<And>p. h' \<le> p \<Longrightarrow> p < h' + capacity q' \<Longrightarrow> o' \<noteq> Some (p mod capacity q') \<Longrightarrow>
      (\<And>j. j \<noteq> i \<Longrightarrow> own j \<noteq> Some (p mod capacity q')) \<Longrightarrow> slot_settled q' h' xs' p"
  shows "owned_ok q' h' xs' (own(i := o'))"
  unfolding owned_ok_def
proof (intro conjI allI impI)
  fix j j' k
  assume "(own(i := o')) j = Some k" "(own(i := o')) j' = Some k"
  then show "j = j'"
    using assms(1,2) by (auto simp: owned_ok_def split: if_splits)
next
  fix p
  assume p: "h' \<le> p" "p < h' + capacity q'" "\<forall>j. (own(i := o')) j \<noteq> Some (p mod capacity q')"
  then have "o' \<noteq> Some (p mod capacity q')" "\<And>j. j \<noteq> i \<Longrightarrow> own j \<noteq> Some (p mod capacity q')"
    by (metis fun_upd_same, metis fun_upd_other)
  with p show "slot_settled q' h' xs' p" by (intro assms(3)) auto
qed

lemma sys_ok_local:
  assumes "sys_ok s a h"
    and "thread_ok (mem s) h (items a) V th st" "own_index (one_lap (mem s)) th = owns s i"
  shows "sys_ok (move s i (mem s) M V th) (a\<lparr>stats := (stats a)(i := st)\<rparr>) h"
  using sys_okD [OF assms(1)] assms(2,3)
  by (simp only: sys_ok_def owns_update) (simp add: fun_upd_idem)

lemma sys_ok_tail:
  assumes "sys_ok s a h" and q: "q = mem s" and xs: "xs = items a" and t: "t = h + length xs"
    and room: "length xs < capacity q" and bound: "t < 2 ^ 62"
    and old: "owns s i = None \<or> owns s i = Some (t mod capacity q)"
    and others: "\<And>j. j \<noteq> i \<Longrightarrow> owns s j \<noteq> Some (t mod capacity q)"
    and own: "own_index (one_lap q) th = Some (t mod capacity q)"
    and th: "thread_ok (q\<lparr>tail := enc_q q (Suc t)\<rparr>) h (xs @ [v]) V th (notice (capacity q) (xs @ [v]) st)"
  shows "sys_ok (move s i (q\<lparr>tail := enc_q q (Suc t)\<rparr>) M V th)
    (a\<lparr>items := xs @ [v], stats := (\<lambda>j. notice (capacity q) (xs @ [v]) (((stats a)(i := st)) j))\<rparr>) h"
proof -
  note d = sys_okD [OF assms(1), folded q xs]
  let ?q = "q\<lparr>tail := enc_q q (Suc t)\<rparr>"
  have qok: "queue_ok ?q h (xs @ [v])" using d(1) room bound by (simp add: queue_ok_def t)
  have "thread_ok ?q h (xs @ [v]) (((views s)(i := V)) j) (((threads s)(i := th)) j)
      (notice (capacity q) (xs @ [v]) (((stats a)(i := st)) j))" for j
    using th frame_tail [OF d(1) d(2), of j] others [of j] by (auto simp: q t owns_def)
  moreover have "owned_ok ?q h (xs @ [v]) ((owns s)(i := own_index (one_lap q) th))"
  proof (rule owned_ok_update [OF d(3)])
    fix p
    assume p: "h \<le> p" "p < h + capacity ?q" "own_index (one_lap q) th \<noteq> Some (p mod capacity ?q)"
      and un: "\<And>j. j \<noteq> i \<Longrightarrow> owns s j \<noteq> Some (p mod capacity ?q)"
    then have ne: "p mod capacity q \<noteq> t mod capacity q" using own by simp
    have "owns s j \<noteq> Some (p mod capacity q)" for j using un [of j] old ne by (cases "j = i") auto
    then have "slot_settled q h xs p" using p by (intro owned_ok_settled [OF d(3)]) auto
    moreover have "p \<noteq> t" using ne by auto
    ultimately show "slot_settled ?q h (xs @ [v]) p"
      using t p by (intro slot_settled_other [of ?q p q h xs]) (auto simp: nth_append)
  qed (use others own in auto)
  ultimately show ?thesis
    using qok owns_update [of ?q s i th V M] by (simp add: sys_ok_def q)
qed

lemma sys_ok_head:
  assumes "sys_ok s a h" and q: "q = mem s" and xs: "items a = y # ys"
    and old: "owns s i = None"
    and others: "\<And>j. owns s j \<noteq> Some (h mod capacity q)"
    and own: "own_index (one_lap q) th = Some (h mod capacity q)"
    and th: "thread_ok (q\<lparr>head := enc_q q (Suc h)\<rparr>) (Suc h) ys V th (notice (capacity q) ys st)"
  shows "sys_ok (move s i (q\<lparr>head := enc_q q (Suc h)\<rparr>) M V th)
    (a\<lparr>items := ys, stats := (\<lambda>j. notice (capacity q) ys (((stats a)(i := st)) j))\<rparr>) (Suc h)"
proof -
  note d = sys_okD [OF assms(1), folded q, unfolded xs]
  let ?q = "q\<lparr>head := enc_q q (Suc h)\<rparr>"
  have qok: "queue_ok ?q (Suc h) ys" using d(1) by (simp add: queue_ok_def)
  have "thread_ok ?q (Suc h) ys (((views s)(i := V)) j) (((threads s)(i := th)) j)
      (notice (capacity q) ys (((stats a)(i := st)) j))" for j
    using th frame_head [OF d(1) d(2), of j] others [of j] by (auto simp: q owns_def)
  moreover have "owned_ok ?q (Suc h) ys ((owns s)(i := own_index (one_lap q) th))"
  proof (rule owned_ok_update [OF d(3)])
    fix p
    assume p: "Suc h \<le> p" "p < Suc h + capacity ?q" "own_index (one_lap q) th \<noteq> Some (p mod capacity ?q)"
      and un: "\<And>j. j \<noteq> i \<Longrightarrow> owns s j \<noteq> Some (p mod capacity ?q)"
    then have ne: "p mod capacity q \<noteq> h mod capacity q" using own by simp
    have "owns s j \<noteq> Some (p mod capacity q)" for j using un [of j] old by (cases "j = i") auto
    moreover have "p \<noteq> h + capacity q" using ne by auto
    ultimately have "slot_settled q h (y # ys) p" using p by (intro owned_ok_settled [OF d(3)]) auto
    then show "slot_settled ?q (Suc h) ys p"
      using p by (intro slot_settled_other [of ?q p q h "y # ys"]) (auto simp: nth_Cons')
  qed (use others own in auto)
  ultimately show ?thesis
    using qok owns_update [of ?q s i th V M] by (simp add: sys_ok_def q)
qed

lemma sys_ok_slot:
  assumes "sys_ok s a h" and q: "q = mem s" and xs: "xs = items a"
    and old: "owns s i = Some k"
    and th: "thread_ok (put_slot q k sl) h xs V th (stats a i)"
    and own: "own_index (one_lap q) th = Some k \<or> own_index (one_lap q) th = None \<and>
      (\<forall>p. h \<le> p \<longrightarrow> p < h + capacity q \<longrightarrow> p mod capacity q = k \<longrightarrow>
        slot_settled (put_slot q k sl) h xs p)"
  shows "sys_ok (move s i (put_slot q k sl) M V th) a h"
proof -
  note d = sys_okD [OF assms(1), folded q xs]
  let ?q = "put_slot q k sl"
  have qok: "queue_ok ?q h xs" using d(1) by (simp add: queue_ok_def)
  have others: "owns s j \<noteq> Some k" if "j \<noteq> i" for j
    using d(3) old that by (auto simp: owned_ok_def)
  have "thread_ok ?q h xs (((views s)(i := V)) j) (((threads s)(i := th)) j) (stats a j)" for j
    using th others [of j] old frame_slot [OF d(1) d(2) _ d(2), of j k i]
    by (auto simp: q owns_def)
  moreover have "owned_ok ?q h xs ((owns s)(i := own_index (one_lap q) th))"
  proof (rule owned_ok_update [OF d(3)])
    fix p
    assume p: "h \<le> p" "p < h + capacity ?q" "own_index (one_lap q) th \<noteq> Some (p mod capacity ?q)"
      and un: "\<And>j. j \<noteq> i \<Longrightarrow> owns s j \<noteq> Some (p mod capacity ?q)"
    show "slot_settled ?q h xs p"
    proof (cases "p mod capacity q = k")
      case True
      with own p show ?thesis by auto
    next
      case False
      have "owns s j \<noteq> Some (p mod capacity q)" for j using un [of j] old False by (cases "j = i") auto
      then have "slot_settled q h xs p" using p by (intro owned_ok_settled [OF d(3)]) auto
      then show ?thesis
        using False by (intro slot_settled_other [of ?q p q h xs]) (auto simp: get_put_slot)
    qed
  qed (use others own in auto)
  ultimately show ?thesis
    using qok owns_update [of ?q s i th V M] by (simp add: sys_ok_def q xs)
qed

section \<open>What a thread may conclude from a stamp\<close>

lemma stamp_free_tail:
  assumes "sys_ok s a h" "q = mem s" "xs = items a" "stamp_at q (h + length xs) (enc_q q (h + length xs))"
  shows "length xs < capacity q" "owns s j \<noteq> Some ((h + length xs) mod capacity q)"
proof -
  note d = sys_okD [OF assms(1), folded assms(2,3)] and r = queue_okD [OF sys_okD(1) [OF assms(1)], folded assms(2,3)]
  show un: "owns s j \<noteq> Some ((h + length xs) mod capacity q)" for j
    using owned_stamp(4) [OF d(1) d(2)] assms(2,4) by (auto simp: owns_def)
  show "length xs < capacity q"
  proof (rule ccontr)
    assume "\<not> length xs < capacity q"
    then have len: "length xs = capacity q" using r(4) by simp
    then have "slot_settled q h xs h"
      using un r(2) by (intro owned_ok_settled [OF d(3)]) auto
    then have "stamp_at q (h + length xs) (enc_q q h + 1)"
      using r(2) len by (auto simp: stamp_at_def elim!: slot_settledE)
    with assms(4) have "enc_q q (h + length xs) = enc_q q h + 1" by (auto simp: stamp_at_def)
    then show False using enc_ne_Suc [OF r(1), of "h + length xs" h] len by simp
  qed
qed

lemma stamp_full_head:
  assumes "sys_ok s a h" "q = mem s" "xs = items a" "stamp_at q h (enc_q q h + 1)"
  obtains y ys where "xs = y # ys" "value_at q h y" "\<And>j. owns s j \<noteq> Some (h mod capacity q)"
proof -
  note d = sys_okD [OF assms(1), folded assms(2,3)] and r = queue_okD [OF sys_okD(1) [OF assms(1)], folded assms(2,3)]
  have un: "owns s j \<noteq> Some (h mod capacity q)" for j
    using owned_stamp(3) [OF d(1) d(2), of j _ h] assms(2,4) by (auto simp: owns_def)
  have settled: "slot_settled q h xs h"
    using un r(2) by (intro owned_ok_settled [OF d(3)]) auto
  show thesis
  proof (cases xs)
    case Nil
    then have "stamp_at q h (enc_q q h)" using settled by (auto simp: stamp_at_def elim!: slot_settledE)
    with assms(4) have "enc_q q h = enc_q q h + 1" by (auto simp: stamp_at_def)
    then show thesis using enc_ne_Suc [OF r(1), of h h] by simp
  next
    case (Cons y ys)
    then have "value_at q h y" using settled by (auto simp: value_at_def elim!: slot_settledE)
    then show thesis using that Cons un by blast
  qed
qed

lemma window_position:
  assumes "0 < (N :: nat)"
  obtains r where "h \<le> r" "r < h + N" "r mod N = p mod N"
proof
  let ?r = "h + (p + N * h - h) mod N"
  have "h \<le> N * h" using assms by simp
  have "?r mod N = (h + (p + N * h - h)) mod N" by (rule mod_add_right_eq)
  also have "h + (p + N * h - h) = p + N * h" using \<open>h \<le> N * h\<close> by linarith
  finally show "?r mod N = p mod N" by simp
qed (use assms in auto)

text \<open>Every slot exists and carries the stamp of a free or of a published position.\<close>

lemma stamp_cases:
  assumes "sys_ok s a h" "q = mem s" "xs = items a"
  obtains sl r where "get_slot q (p mod capacity q) = Some sl" "r mod capacity q = p mod capacity q"
    "stamp sl = enc_q q r \<or> stamp sl = enc_q q r + 1 \<and> r \<le> h + length xs"
proof -
  note d = sys_okD [OF assms(1), folded assms(2,3)] and b = queue_okD [OF sys_okD(1) [OF assms(1)], folded assms(2,3)]
  obtain r where r: "h \<le> r" "r < h + capacity q" "r mod capacity q = p mod capacity q"
    by (rule window_position [OF b(2)])
  show thesis
  proof (cases "\<exists>j. owns s j = Some (p mod capacity q)")
    case True
    then obtain j where "own_index (one_lap q) (threads s j) = Some (p mod capacity q)"
      using assms(2) by (auto simp: owns_def)
    from owned_position [OF d(1) d(2) this] obtain p0 x where p0: "p mod capacity q = p0 mod capacity q"
      "stamp_at q p0 x" "x = enc_q q p0 \<and> h \<le> p0 \<and> p0 < h + length xs \<or>
        (\<exists>r < h. r mod capacity q = p mod capacity q \<and> x = enc_q q r + 1)" by blast
    then obtain sl where sl: "get_slot q (p mod capacity q) = Some sl" "stamp sl = x"
      by (auto simp: stamp_at_def)
    from p0(3) show thesis
    proof (elim disjE exE conjE)
      assume "x = enc_q q p0"
      then show thesis using that [OF sl(1), of p0] sl(2) p0(1) by simp
    next
      fix r
      assume "r < h" "r mod capacity q = p mod capacity q" "x = enc_q q r + 1"
      then show thesis using that [OF sl(1), of r] sl(2) by simp
    qed
  next
    case False
    then have "slot_settled q h xs r" using r by (intro owned_ok_settled [OF d(3)]) auto
    then show thesis using that [of _ r] r by (cases "r < h + length xs") (auto elim!: slot_settledE)
  qed
qed

end
