(* ===== verification/Nure_Weak.thy ===== *)
theory Nure_Weak
  imports Nure_Sim
begin

text \<open>
  What the logs and views hold. The logs of the two counters list the encodings of all positions
  so far. A message in the log of a stamp that promises a free position at or after the tail, or a
  published position at or after the head, is the newest one: this is what makes a thread that
  read a stale counter or a stale stamp fail. The views carry the right to access payloads: the
  newest message of a slot that nobody owns has seen all accesses to the slot's payload, and so has
  the thread that owns the slot, or whose exchange would make it the owner.
\<close>

section \<open>The invariant\<close>

definition counter_log :: "'a queue \<Rightarrow> nat \<Rightarrow> (location, index) message list \<Rightarrow> bool" where
  "counter_log q n ms \<longleftrightarrow>
     length ms = Suc n \<and> (\<forall>k\<le>n. msg_value (ms ! k) = enc_q q k) \<and> last_sc ms = n"

definition stamp_msg :: "'a queue \<Rightarrow> nat \<Rightarrow> nat \<Rightarrow> nat \<Rightarrow> bool \<Rightarrow> index \<Rightarrow> bool" where
  "stamp_msg q h t j newest w \<longleftrightarrow> (\<exists>r. r mod capacity q = j \<and>
     (w = enc_q q r \<and> r < h + capacity q \<and> (t \<le> r \<longrightarrow> newest) \<or>
      w = enc_q q r + 1 \<and> r < t \<and> (h \<le> r \<longrightarrow> newest)))"

definition stamp_log :: "'a queue \<Rightarrow> nat \<Rightarrow> nat \<Rightarrow> nat \<Rightarrow> (location, index) message list \<Rightarrow> bool" where
  "stamp_log q h t j ms \<longleftrightarrow> ms \<noteq> [] \<and> peek q (Stamp j) = msg_value (last ms) \<and>
     (\<forall>n<length ms. stamp_msg q h t j (Suc n = length ms) (msg_value (ms ! n)))"

text \<open>The slot that a thread would own after its next exchange, if that succeeded now.\<close>

fun claims :: "'a queue \<Rightarrow> 'a thread \<Rightarrow> nat option" where
  "claims q (Pushing (PushCas k v b w)) = (if w = tail q then Some (index_of q w) else None)"
| "claims q (Pushing (PushFence KForce v b w)) =
     (if w = head q + one_lap q then Some (index_of q w) else None)"
| "claims q (Pushing (PushFull KForce v b w)) =
     (if w = head q + one_lap q then Some (index_of q w) else None)"
| "claims q (Popping (PopCas b w)) = (if w = head q then Some (index_of q w) else None)"
| "claims q _ = None"

definition fresh :: "queue_memory \<Rightarrow> queue_view \<Rightarrow> nat \<Rightarrow> bool" where
  "fresh M V j \<longleftrightarrow> race_free j M V \<and> store_definite (Stamp j) M V"

definition handed_over :: "queue_memory \<Rightarrow> nat \<Rightarrow> bool" where
  "handed_over M j \<longleftrightarrow> uses M j \<le> seen_cell (msg_view (last (log M (Stamp j)))) j"

definition weak_ok :: "'a sys \<Rightarrow> nat \<Rightarrow> nat \<Rightarrow> bool" where
  "weak_ok s h t \<longleftrightarrow>
     counter_log (mem s) h (log (shared s) Head) \<and> counter_log (mem s) t (log (shared s) Tail) \<and>
     (\<forall>j<capacity (mem s). stamp_log (mem s) h t j (log (shared s) (Stamp j))) \<and>
     (\<forall>i j. owns s i = Some j \<or> claims (mem s) (threads s i) = Some j \<longrightarrow> fresh (shared s) (views s i) j) \<and>
     (\<forall>j<capacity (mem s). (\<forall>i. owns s i \<noteq> Some j) \<longrightarrow> handed_over (shared s) j)"

lemma weak_okD:
  assumes "weak_ok s h t"
  shows "counter_log (mem s) h (log (shared s) Head)" "counter_log (mem s) t (log (shared s) Tail)"
    "j < capacity (mem s) \<Longrightarrow> stamp_log (mem s) h t j (log (shared s) (Stamp j))"
    "owns s i = Some j \<Longrightarrow> fresh (shared s) (views s i) j"
    "claims (mem s) (threads s i) = Some j \<Longrightarrow> fresh (shared s) (views s i) j"
    "j < capacity (mem s) \<Longrightarrow> (\<And>i. owns s i \<noteq> Some j) \<Longrightarrow> handed_over (shared s) j"
  using assms by (auto simp: weak_ok_def)

lemma fresh_mono: "fresh M V j \<Longrightarrow> view_le V W \<Longrightarrow> fresh M W j"
  by (auto simp: fresh_def race_free_def store_definite_def view_le_def intro: le_trans)

section \<open>Claims\<close>

lemma claim_cases:
  assumes "sys_ok s a h" "claims (mem s) (threads s i) = Some j"
  obtains "stamp_at (mem s) (h + length (items a)) (enc_q (mem s) (h + length (items a)))"
      "j = (h + length (items a)) mod capacity (mem s)"
  | "stamp_at (mem s) h (enc_q (mem s) h + 1)" "j = h mod capacity (mem s)"
proof -
  let ?q = "mem s :: 'a queue"
  note tail_claim = that(1) and head_claim = that(2)
  note d = sys_okD [OF assms(1)] note b = queue_okD [OF d(1)]
  note eq = enc_q_eq [OF d(1)]
  have idx: "index_of ?q (enc_q ?q p) = p mod capacity ?q" for p using b(1) by (rule slot_index_enc)
  have force: thesis if "w = enc_q ?q p" "behind_ok ?q h (items a) p" "w = head ?q + one_lap ?q" "j = index_of ?q w" for w p
  proof -
    have "enc_q ?q p = enc_q ?q (h + capacity ?q)" using that b(6) enc_plus_lap [OF b(1), of h] by simp
    then have p: "p = h + capacity ?q" using eq [of p "h + capacity ?q"] that(2) b(4) by (auto simp: behind_ok_def)
    then have "stamp_at ?q h (enc_q ?q h + 1)" using that(2) by (simp add: behind_ok_def stamp_at_def)
    then show thesis using that(1,4) p idx by (intro head_claim) simp_all
  qed
  show thesis
  proof (cases "threads s i")
    case (Pushing pc)
    then obtain p x where at: "push_at ?q h (items a) (views s i) p x pc (stats a i)" using d(2) [of i] by auto
    show thesis
    proof (cases pc)
      case (PushCas k v b w)
      with at assms(2) Pushing b(7) eq [of p "h + length (items a)"] have "p = h + length (items a)"
        by (auto split: if_splits)
      then show thesis
        using at assms(2) Pushing PushCas idx [of p] by (intro tail_claim) (simp_all split: if_splits)
    next
      case (PushFence k v b w)
      then show thesis using at assms(2) Pushing by (intro force [of w p]) (cases k; auto split: if_splits)+
    next
      case (PushFull k v b w)
      then show thesis using at assms(2) Pushing by (intro force [of w p]) (cases k; auto split: if_splits)+
    qed (use assms(2) Pushing in auto)
  next
    case (Popping pc)
    then obtain p x where at: "pop_at ?q h (items a) (views s i) p x pc (stats a i)" using d(2) [of i] by auto
    show thesis
    proof (cases pc)
      case (PopCas b w)
      with at assms(2) Popping b(6) eq [of p h] have "p = h" by (auto split: if_splits)
      then show thesis
        using at assms(2) Popping PopCas idx [of p] by (intro head_claim) (simp_all split: if_splits)
    qed (use assms(2) Popping in auto)
  qed (use assms(2) in auto)
qed

lemma claim_unowned:
  assumes "sys_ok s a h" "claims (mem s) (threads s i) = Some j"
  shows "owns s k \<noteq> Some j"
proof (rule claim_cases [OF assms])
  assume *: "stamp_at (mem s) (h + length (items a)) (enc_q (mem s) (h + length (items a)))"
    "j = (h + length (items a)) mod capacity (mem s)"
  from stamp_free_tail(2) [OF assms(1) refl refl *(1)] *(2) show ?thesis by simp
next
  assume *: "stamp_at (mem s) h (enc_q (mem s) h + 1)" "j = h mod capacity (mem s)"
  show ?thesis using *(2) by (rule_tac stamp_full_head [OF assms(1) refl refl *(1)]) simp
qed

text \<open>A move of the tail or of the head gives no thread a claim that it had not.\<close>

lemma claims_tail:
  assumes "queue_ok q h xs" "thread_ok q h xs V th st" "claims (q\<lparr>tail := enc_q q (Suc (h + length xs))\<rparr>) th = Some j"
  shows "claims q th = Some j"
proof (cases "\<exists>k v b w. th = Pushing (PushCas k v b w)")
  case True
  then obtain k v b w p where th: "th = Pushing (PushCas k v b w)" "w = enc_q q p" "p \<le> h + length xs"
    using assms(2) by auto
  have "enc_q q p \<noteq> enc_q q (Suc (h + length xs))"
    using enc_q_eq [OF assms(1), of p "Suc (h + length xs)"] th(3) queue_okD(2) [OF assms(1)] by auto
  then show ?thesis using assms(3) th by simp
next
  case False
  then show ?thesis using assms(3) by (cases "(q, th)" rule: claims.cases) (auto split: if_splits)
qed

lemma claims_head:
  assumes "queue_ok q h (y # ys)" "thread_ok q h (y # ys) V th st" "claims (q\<lparr>head := enc_q q (Suc h)\<rparr>) th = Some j"
  shows "claims q th = Some j"
proof -
  note b = queue_okD [OF assms(1)]
  have lap: "enc_q q (Suc h) + one_lap q = enc_q q (Suc h + capacity q)" by (rule enc_plus_lap [OF b(1)])
  have force: False if "enc_q q p = enc_q q (Suc h) + one_lap q" "behind_ok q h (y # ys) p" for p
  proof -
    have "p \<le> h + capacity q" using that(2) b(4) by (simp add: behind_ok_def)
    then show False using that(1) lap enc_q_eq [OF assms(1), of p "Suc h + capacity q"] by auto
  qed
  have pop: False if "enc_q q p = enc_q q (Suc h)" "p \<le> h" for p
    using that enc_q_eq [OF assms(1), of p "Suc h"] by auto
  show ?thesis
    using assms(2,3) force pop
    by (cases "(q, th)" rule: claims.cases) (auto split: if_splits)
qed

section \<open>Preservation\<close>

lemma counter_log_append:
  assumes "counter_log q n ms" "msg_value m = enc_q q (Suc n)" "msg_sc m"
  shows "counter_log q (Suc n) (ms @ [m])"
  using assms by (auto simp: counter_log_def nth_append last_sc_append le_Suc_eq)

lemma counter_log_cong:
  "capacity q' = capacity q \<Longrightarrow> one_lap q' = one_lap q \<Longrightarrow> counter_log q' n ms = counter_log q n ms"
  by (simp add: counter_log_def)

lemma stamp_log_mono:
  assumes "stamp_log q h t j ms" "capacity q' = capacity q" "one_lap q' = one_lap q"
    "peek q' (Stamp j) = peek q (Stamp j)" "h \<le> h'" "t \<le> t'"
  shows "stamp_log q' h' t' j ms"
proof -
  have "stamp_msg q' h' t' j b w" if old: "stamp_msg q h t j b w" for b w
  proof -
    obtain r where "r mod capacity q = j" "w = enc_q q r \<and> r < h + capacity q \<and> (t \<le> r \<longrightarrow> b) \<or>
      w = enc_q q r + 1 \<and> r < t \<and> (h \<le> r \<longrightarrow> b)" using old unfolding stamp_msg_def by blast
    then show ?thesis using assms(2-6) by (auto simp: stamp_msg_def intro!: exI [of _ r])
  qed
  then show ?thesis using assms by (simp add: stamp_log_def)
qed

text \<open>A thread's own step that changes neither the queue nor the logs.\<close>

lemma weak_ok_local:
  assumes "weak_ok s h t" "view_le (views s i) V" "own_index (one_lap (mem s)) th = owns s i"
    "\<And>j. claims (mem s) th = Some j \<Longrightarrow> fresh (shared s) V j"
  shows "weak_ok (move s i (mem s) (shared s) V th) h t"
proof -
  have own: "owns (move s i (mem s) (shared s) V th) = owns s"
    using assms(3) owns_update [of "mem s" s i th V "shared s"] by (metis fun_upd_triv)
  have "fresh (shared s) (((views s)(i := V)) k) j"
    if "owns s k = Some j \<or> claims (mem s) (((threads s)(i := th)) k) = Some j" for k j
    using that weak_okD(4,5) [OF assms(1), of k j] assms(4) fresh_mono [OF _ assms(2)]
    by (cases "k = i") auto
  then show ?thesis
    using assms(1) by (simp only: weak_ok_def own) (auto simp del: fun_upd_apply)
qed

text \<open>A claim at the tail or at the head: a \<open>SeqCst\<close> message is appended to the counter's log, and the
  thread comes to own the slot. Both are instances of one lemma.\<close>

lemma fresh_append: "l \<noteq> Stamp j \<Longrightarrow> fresh (append_msg l m M) V j = fresh M V j"
  by (cases l) (auto simp: fresh_def race_free_def store_definite_def latest_def)

lemma weak_ok_claim:
  assumes "weak_ok s h t" and q: "q = mem s" and M: "M = append_msg l m (shared s)" and l: "\<And>j. l \<noteq> Stamp j"
    and q': "capacity q' = capacity q" "one_lap q' = one_lap q" "\<And>j. get_slot q' j = get_slot q j"
    and logs: "counter_log q h' (log M Head)" "counter_log q t' (log M Tail)" "h \<le> h'" "t \<le> t'"
    and own: "own_index (one_lap q) th = Some k" "owns s i = None \<or> owns s i = Some k" "fresh (shared s) V k"
    and none: "claims q' th = None"
    and others: "\<And>n j. n \<noteq> i \<Longrightarrow> claims q' (threads s n) = Some j \<Longrightarrow> claims q (threads s n) = Some j"
  shows "weak_ok (move s i q' M V th) h' t'"
proof -
  let ?s = "move s i q' M V th"
  have owns: "owns ?s = (owns s)(i := Some k)" using own(1) q q'(2) by (simp add: owns_update)
  have "stamp_log q' h' t' j (log M (Stamp j))" if "j < capacity q" for j
    using stamp_log_mono [OF weak_okD(3) [OF assms(1), of j], of q' h' t'] that q q' logs(3,4) M l [of j]
    by (auto simp: eq_commute [of l])
  moreover have "fresh M (views ?s n) j" if "owns ?s n = Some j \<or> claims q' (threads ?s n) = Some j" for n j
  proof -
    have "fresh (shared s) (views ?s n) j"
    proof (cases "n = i")
      case True
      then show ?thesis using that own(3) none owns by auto
    next
      case False
      then show ?thesis using that others [of n j] weak_okD(4,5) [OF assms(1), of n j] owns q by auto
    qed
    then show ?thesis using fresh_append [OF l] M by simp
  qed
  moreover have "handed_over M j" if "j < capacity q" "\<forall>n. owns ?s n \<noteq> Some j" for j
  proof -
    have "owns s n \<noteq> Some j" for n using that(2) own(2) owns by (cases "n = i") (auto dest: spec [of _ n])
    then have "handed_over (shared s) j" using weak_okD(6) [OF assms(1), of j] that(1) q by simp
    then show ?thesis using l [of j] M by (auto simp: handed_over_def)
  qed
  ultimately show ?thesis
    using logs q' by (simp add: weak_ok_def counter_log_cong [OF q'(1,2)])
qed

text \<open>An access to the payload of an owned slot.\<close>

lemma mem_cell_fresh:
  assumes "mem_cell k M V = (M', V')" "fresh M V k"
  shows "fresh M' V' k" "j \<noteq> k \<Longrightarrow> fresh M' W j = fresh M W j" "log M' = log M"
    "j \<noteq> k \<Longrightarrow> handed_over M' j = handed_over M j"
  using assms by (auto simp: mem_cell_def fresh_def race_free_def store_definite_def latest_def handed_over_def)

lemma weak_ok_cell:
  assumes "sys_ok s a h" "weak_ok s h t" "q = mem s" "owns s i = Some k"
    and M: "mem_cell k (shared s) (views s i) = (M', V')"
    and q': "capacity q' = capacity q" "one_lap q' = one_lap q" "head q' = head q" "tail q' = tail q"
      "\<And>j. peek q' (Stamp j) = peek q (Stamp j)"
    and own: "own_index (one_lap q) th = Some k" "claims q th = None"
  shows "weak_ok (move s i q' M' V' th) h t"
proof -
  let ?s = "move s i q' M' V' th"
  have owns: "owns ?s = owns s" using own(1) q' assms(3,4) by (simp add: owns_update fun_upd_idem)
  note c = mem_cell_fresh [OF M weak_okD(4) [OF assms(2,4)]]
  have claims: "claims q' th' = claims q th'" for th' :: "'a thread"
    using q' by (cases "(q, th')" rule: claims.cases) auto
  have "stamp_log q' h t j (log M' (Stamp j))" if "j < capacity q" for j
    using stamp_log_mono [OF weak_okD(3) [OF assms(2), of j], of q' h t] that assms(3) q' c(3) by simp
  moreover have "fresh M' (views ?s n) j" if *: "owns s n = Some j \<or> claims q (threads ?s n) = Some j" for n j
  proof (cases "n = i")
    case True
    then show ?thesis using * assms(4) own(2) c(1) by auto
  next
    case False
    then have "fresh (shared s) (views s n) j" using * weak_okD(4,5) [OF assms(2), of n j] assms(3) by auto
    moreover have "j \<noteq> k"
      using * False claim_unowned [OF assms(1), of n j i] sys_okD(3) [OF assms(1)] assms(3,4) by (auto simp: owned_ok_def)
    ultimately show ?thesis using False c(2) by simp
  qed
  moreover have "handed_over M' j" if "j < capacity q" "\<forall>n. owns s n \<noteq> Some j" for j
    using that assms(3,4) weak_okD(6) [OF assms(2), of j] c(4) [of j] by auto
  ultimately show ?thesis
    using weak_okD(1,2) [OF assms(2)] q' assms(3) owns claims c(3)
    by (simp add: weak_ok_def counter_log_cong [OF q'(1,2)])
qed

text \<open>The publication of a slot's stamp. The stamp of an owned slot promised nothing that still holds.\<close>

lemma owned_stamp_old:
  assumes "sys_ok s a h" "owns s i = Some k" "stamp_msg (mem s) h (h + length (items a)) k b (peek (mem s) (Stamp k))"
  shows "stamp_msg (mem s) h (h + length (items a)) k False (peek (mem s) (Stamp k))"
proof -
  let ?q = "mem s :: 'a queue" and ?w = "peek (mem s) (Stamp k)"
  note d = sys_okD [OF assms(1)] note b = queue_okD [OF d(1)]
  obtain p x where p: "k = p mod capacity ?q" "stamp_at ?q p x"
    "x = enc_q ?q p \<and> h \<le> p \<and> p < h + length (items a) \<or>
     (\<exists>r<h. r mod capacity ?q = k \<and> x = enc_q ?q r + 1)"
    by (rule owned_position [OF d(1) d(2), of i k]) (use assms(2) in \<open>auto simp: owns_def\<close>)
  then have "?w = x" by (auto simp: stamp_at_def)
  with p(1,3) b(4) show ?thesis by (fastforce simp: stamp_msg_def)
qed

lemma weak_ok_stamp:
  assumes "sys_ok s a h" "weak_ok s h t" "t = h + length (items a)" "q = mem s" "owns s i = Some k"
    and M: "M = append_msg (Stamp k) m (shared s)"
    and m: "msg_value m = w" "uses (shared s) k \<le> seen_cell (msg_view m) k" "stamp_msg q h t k True w"
    and q': "q' = put_slot q k sl" "stamp sl = w"
    and own: "own_index (one_lap q) th = None" "claims q th = None"
  shows "weak_ok (move s i q' M V th) h t"
proof -
  let ?s = "move s i q' M V th" and ?ms = "log (shared s) (Stamp k)"
  have k: "k < capacity q"
    using owned_stamp(1) [OF sys_okD(1,2) [OF assms(1)], of i k] assms(4,5) by (simp add: owns_def)
  have owns: "owns ?s = (owns s)(i := None)" using own(1) assms(4) q' by (simp add: owns_update)
  have claims: "claims q' th' = claims q th'" for th' :: "'a thread"
    using q' by (cases "(q, th')" rule: claims.cases) auto
  have peek: "peek q' (Stamp j) = (if j = k then w else peek q (Stamp j))" for j
    using q' k by (simp add: get_put_slot)
  have msg: "stamp_msg q' = stamp_msg q" by (simp add: stamp_msg_def fun_eq_iff q')
  have old: "stamp_log q h t k ?ms" using weak_okD(3) [OF assms(2), of k] k assms(4) by simp
  have "stamp_msg q h t k False (msg_value (?ms ! n))" if n: "n < length ?ms" for n
  proof (cases "Suc n = length ?ms")
    case True
    then have "n = length ?ms - 1" by simp
    then have "msg_value (?ms ! n) = peek q (Stamp k)" using old by (simp add: stamp_log_def last_conv_nth)
    moreover have "stamp_msg q h t k (Suc n = length ?ms) (msg_value (?ms ! n))"
      using old n by (simp add: stamp_log_def)
    then have "stamp_msg q h t k True (msg_value (?ms ! n))" using True by metis
    ultimately show ?thesis using owned_stamp_old [OF assms(1,5), of True] assms(3,4) by simp
  next
    case False
    then show ?thesis using old n by (auto simp: stamp_log_def)
  qed
  then have new: "stamp_log q' h t k (?ms @ [m])"
    using m peek [of k] by (auto simp: stamp_log_def msg nth_append less_Suc_eq)
  have "stamp_log q' h t j (log M (Stamp j))" if "j < capacity q" for j
    using new stamp_log_mono [OF weak_okD(3) [OF assms(2), of j], of q' h t] that assms(4) peek [of j] q'(1) M
    by auto
  moreover have "fresh M (views ?s n) j"
    if *: "((owns s)(i := None)) n = Some j \<or> claims q (threads ?s n) = Some j" for n j
  proof -
    have n: "n \<noteq> i" using * own(2) by auto
    then have "fresh (shared s) (views s n) j" using * weak_okD(4,5) [OF assms(2), of n j] assms(4) by auto
    moreover have "j \<noteq> k"
      using * n claim_unowned [OF assms(1), of n j i] sys_okD(3) [OF assms(1)] assms(4,5) by (auto simp: owned_ok_def)
    ultimately show ?thesis using n fresh_append [of "Stamp k" j] M by simp
  qed
  moreover have "handed_over M j" if "j < capacity q" "\<forall>n. ((owns s)(i := None)) n \<noteq> Some j" for j
  proof (cases "j = k")
    case True
    then show ?thesis using m(2) M by (simp add: handed_over_def)
  next
    case False
    have "owns s n \<noteq> Some j" for n using that(2) assms(5) False by (cases "n = i") (auto dest: spec [of _ n])
    then have "handed_over (shared s) j" using weak_okD(6) [OF assms(2), of j] that(1) assms(4) by simp
    then show ?thesis using False M by (simp add: handed_over_def)
  qed
  ultimately show ?thesis
    using weak_okD(1,2) [OF assms(2)] assms(4) owns claims M
    by (simp add: weak_ok_def counter_log_def q')
qed

section \<open>What a thread may conclude from a message\<close>

lemma counter_read:
  assumes "counter_log q n (log M l)" "readable ord l lag M V"
  obtains k where "k \<le> n" "msg_value (read_msg l lag M) = enc_q q k" "seen V l \<le> k"
    "seen (read_view ord l lag M V) l \<ge> k" "ord = SeqCst \<Longrightarrow> k = n"
proof
  let ?k = "latest M l - lag"
  have len: "latest M l = n" using assms(1) by (simp add: latest_def counter_log_def)
  then show k: "?k \<le> n" by simp
  show "msg_value (read_msg l lag M) = enc_q q ?k" using k assms(1) by (simp add: read_msg_def counter_log_def)
  show "seen V l \<le> ?k" using assms(2) by (simp add: readable_def)
  show "?k \<le> seen (read_view ord l lag M V) l" by simp
  show "ord = SeqCst \<Longrightarrow> ?k = n" using assms k by (simp add: readable_def counter_log_def)
qed

lemma stamp_read:
  assumes "stamp_log q h t j (log M (Stamp j))" "readable ord (Stamp j) lag M V"
  shows "stamp_msg q h t j (lag = 0) (msg_value (read_msg (Stamp j) lag M))"
    "lag = 0 \<Longrightarrow> peek q (Stamp j) = msg_value (read_msg (Stamp j) lag M)"
proof -
  let ?n = "latest M (Stamp j) - lag"
  have n: "?n < length (log M (Stamp j))" "Suc ?n = length (log M (Stamp j)) \<longleftrightarrow> lag = 0"
    using assms by (auto simp: readable_def latest_def stamp_log_def)
  show "stamp_msg q h t j (lag = 0) (msg_value (read_msg (Stamp j) lag M))"
    using assms(1) n by (auto simp: stamp_log_def read_msg_def)
  show "peek q (Stamp j) = msg_value (read_msg (Stamp j) lag M)" if "lag = 0"
    using assms(1) that by (simp add: stamp_log_def read_msg_def latest_def last_conv_nth)
qed

lemma fresh_read:
  assumes "handed_over M j" "acquires ord" "log M (Stamp j) \<noteq> []"
  shows "fresh M (read_view ord (Stamp j) 0 M V) j"
proof -
  have "uses M j \<le> seen_cell (msg_view (read_msg (Stamp j) 0 M)) j"
    using assms(1,3) by (simp add: handed_over_def read_msg_def latest_def last_conv_nth)
  also have "\<dots> \<le> seen_cell (read_view ord (Stamp j) 0 M V) j"
    using read_view_ge(2) [OF assms(2), of "Stamp j" 0 M V] by (simp add: view_le_def)
  finally show ?thesis
    using read_view_ge(3) [of M "Stamp j" 0 ord V] by (simp add: fresh_def race_free_def store_definite_def)
qed

end
