(* ===== verification/Nure_Rel.thy ===== *)
theory Nure_Rel
  imports Nure_Weak
begin

text \<open>
  The simulation relation puts together that of the theory \<open>Nure_Sim\<close> on the latest values and that of
  the theory \<open>Nure_Weak\<close> on logs and views. Each kind of step (local, a claim at the tail or at the head,
  an access to a payload, the publication of a stamp) keeps it; a stamp that a thread reads, however
  stale, tells it what it needs.
\<close>

section \<open>The relation, and the kinds of steps\<close>

definition related :: "'a sys \<Rightarrow> 'a dspec \<Rightarrow> nat \<Rightarrow> bool" where
  "related s a h \<longleftrightarrow> sys_ok s a h \<and> weak_ok s h (h + length (items a))"

lemma relatedD:
  assumes "related s a h"
  shows "sys_ok s a h" "weak_ok s h (h + length (items a))"
  using assms by (simp_all add: related_def)

text \<open>What a silent step of the system must establish.\<close>

definition simulated :: "'a sys \<Rightarrow> 'a dspec \<Rightarrow> nat \<Rightarrow> bool" where
  "simulated s' a h \<longleftrightarrow> (\<exists>a' h'. related s' a' h' \<and>
     h' + length (items a') \<le> Suc (h + length (items a)) \<and>
     (delayed_step (capacity (mem s')) a Tau a' \<or> a' = a))"

lemma simulatedI:
  "related s' a' h' \<Longrightarrow> h' + length (items a') \<le> Suc (h + length (items a)) \<Longrightarrow>
   delayed_step (capacity (mem s')) a Tau a' \<or> a' = a \<Longrightarrow> simulated s' a h"
  by (auto simp: simulated_def)

lemma related_local:
  assumes "related s a h" "thread_ok (mem s) h (items a) V th st"
    "own_index (one_lap (mem s)) th = owns s i" "view_le (views s i) V"
    "\<And>j. claims (mem s) th = Some j \<Longrightarrow> fresh (shared s) V j"
  shows "related (move s i (mem s) (shared s) V th) (a\<lparr>stats := (stats a)(i := st)\<rparr>) h"
  unfolding related_def
proof
  show "sys_ok (move s i (mem s) (shared s) V th) (a\<lparr>stats := (stats a)(i := st)\<rparr>) h"
    by (rule sys_ok_local [OF relatedD(1) [OF assms(1)] assms(2,3)])
  show "weak_ok (move s i (mem s) (shared s) V th) h (h + length (items (a\<lparr>stats := (stats a)(i := st)\<rparr>)))"
    using weak_ok_local [OF relatedD(2) [OF assms(1)] assms(4,3,5)] by simp
qed

lemma simulated_local:
  assumes "related s a h" "thread_ok (mem s) h (items a) V th (stats a i)"
    "own_index (one_lap (mem s)) th = owns s i" "view_le (views s i) V"
    "\<And>j. claims (mem s) th = Some j \<Longrightarrow> fresh (shared s) V j"
  shows "simulated (move s i (mem s) (shared s) V th) a h"
  using related_local [OF assms] by (intro simulatedI [where a' = a and h' = h]) simp_all

lemma related_tail:
  assumes "related s a h" and q: "q = mem s" and xs: "xs = items a" and t: "t = h + length xs"
    and room: "length xs < capacity q" and bound: "t < 2 ^ 62"
    and old: "owns s i = None \<or> owns s i = Some (t mod capacity q)"
    and others: "\<And>j. j \<noteq> i \<Longrightarrow> owns s j \<noteq> Some (t mod capacity q)"
    and own: "own_index (one_lap q) th = Some (t mod capacity q)"
    and th: "thread_ok (q\<lparr>tail := enc_q q (Suc t)\<rparr>) h (xs @ [v]) V th (notice (capacity q) (xs @ [v]) st)"
    and m: "msg_value m = enc_q q (Suc t)" "msg_sc m"
    and fresh: "fresh (shared s) V (t mod capacity q)" "claims (q\<lparr>tail := enc_q q (Suc t)\<rparr>) th = None"
  shows "related (move s i (q\<lparr>tail := enc_q q (Suc t)\<rparr>) (append_msg Tail m (shared s)) V th)
    (a\<lparr>items := xs @ [v], stats := (\<lambda>j. notice (capacity q) (xs @ [v]) (((stats a)(i := st)) j))\<rparr>) h"
proof -
  note d = relatedD [OF assms(1)] note w = weak_okD [OF d(2), folded q xs, folded t]
  have "weak_ok (move s i (q\<lparr>tail := enc_q q (Suc t)\<rparr>) (append_msg Tail m (shared s)) V th) h (Suc t)"
  proof (rule weak_ok_claim [OF d(2) q refl, where k = "t mod capacity q"])
    fix n j
    assume "claims (q\<lparr>tail := enc_q q (Suc t)\<rparr>) (threads s n) = Some j"
    then show "claims q (threads s n) = Some j"
      using claims_tail [OF sys_okD(1,2) [OF d(1)], of n j] by (simp add: q xs t)
  qed (use w(1) counter_log_append [OF w(2) m] own old fresh xs t in auto)
  then show ?thesis
    using sys_ok_tail [OF d(1) q xs t room bound old others own th] t by (simp add: related_def)
qed

lemma related_head:
  assumes "related s a h" and q: "q = mem s" and xs: "items a = y # ys"
    and old: "owns s i = None" and others: "\<And>j. owns s j \<noteq> Some (h mod capacity q)"
    and own: "own_index (one_lap q) th = Some (h mod capacity q)"
    and th: "thread_ok (q\<lparr>head := enc_q q (Suc h)\<rparr>) (Suc h) ys V th (notice (capacity q) ys st)"
    and m: "msg_value m = enc_q q (Suc h)" "msg_sc m"
    and fresh: "fresh (shared s) V (h mod capacity q)" "claims (q\<lparr>head := enc_q q (Suc h)\<rparr>) th = None"
  shows "related (move s i (q\<lparr>head := enc_q q (Suc h)\<rparr>) (append_msg Head m (shared s)) V th)
    (a\<lparr>items := ys, stats := (\<lambda>j. notice (capacity q) ys (((stats a)(i := st)) j))\<rparr>) (Suc h)"
proof -
  note d = relatedD [OF assms(1)] note w = weak_okD [OF d(2), folded q]
  have "weak_ok (move s i (q\<lparr>head := enc_q q (Suc h)\<rparr>) (append_msg Head m (shared s)) V th) (Suc h)
      (h + length (items a))"
  proof (rule weak_ok_claim [OF d(2) q refl, where k = "h mod capacity q"])
    fix n j
    assume "claims (q\<lparr>head := enc_q q (Suc h)\<rparr>) (threads s n) = Some j"
    then show "claims q (threads s n) = Some j"
      using claims_head [of q h y ys _ "threads s n"] sys_okD(1,2) [OF d(1)] q xs by (metis sys_okD(2))
  qed (use w(2) counter_log_append [OF w(1) m] own old fresh in auto)
  then show ?thesis
    using sys_ok_head [OF d(1) q xs old others own th] xs by (simp add: related_def)
qed

lemma simulated_cell:
  assumes "related s a h" "owns s i = Some k" "mem_cell k (shared s) (views s i) = (M', V')"
    "thread_ok (put_slot (mem s) k sl) h (items a) V' th (stats a i)"
    "own_index (one_lap (mem s)) th = Some k" "claims (mem s) th = None"
    "get_slot (mem s) k = Some sl'" "stamp sl = stamp sl'"
  shows "simulated (move s i (put_slot (mem s) k sl) M' V' th) a h"
proof (rule simulatedI [where a' = a and h' = h])
  note d = relatedD [OF assms(1)]
  have "sys_ok (move s i (put_slot (mem s) k sl) M' V' th) a h"
    using sys_ok_slot [OF d(1) refl refl assms(2,4)] assms(5) by simp
  moreover have "weak_ok (move s i (put_slot (mem s) k sl) M' V' th) h (h + length (items a))"
    using assms(5-8) by (intro weak_ok_cell [OF d refl assms(2,3)]) (auto simp: get_put_slot)
  ultimately show "related (move s i (put_slot (mem s) k sl) M' V' th) a h" by (simp add: related_def)
qed simp_all

lemma simulated_stamp:
  assumes "related s a h" "owns s i = Some (p mod capacity (mem s))" "h \<le> p" "p < h + capacity (mem s)"
    "thread_ok (put_slot (mem s) (p mod capacity (mem s)) sl) h (items a) V th (stats a i)"
    "own_index (one_lap (mem s)) th = None" "claims (mem s) th = None"
    "slot_settled (put_slot (mem s) (p mod capacity (mem s)) sl) h (items a) p"
    and m: "msg_value m = stamp sl" "view_le (views s i) (msg_view m)"
  shows "simulated (move s i (put_slot (mem s) (p mod capacity (mem s)) sl)
    (append_msg (Stamp (p mod capacity (mem s))) m (shared s)) V th) a h"
proof (rule simulatedI [where a' = a and h' = h])
  let ?q = "mem s :: 'a queue" and ?t = "h + length (items a)"
  let ?k = "p mod capacity ?q"
  note d = relatedD [OF assms(1)] note b = queue_okD [OF sys_okD(1) [OF d(1)]]
  have settled: "slot_settled (put_slot ?q ?k sl) h (items a) r"
    if "h \<le> r" "r < h + capacity ?q" "r mod capacity ?q = ?k" for r
    using window_mod_inj [OF that(1,2) assms(3,4) that(3)] assms(8) by simp
  have "sys_ok (move s i (put_slot ?q ?k sl) M V th) a h" for M
    using assms(6) settled by (intro sys_ok_slot [OF d(1) refl refl assms(2,5)]) simp
  moreover have "stamp_msg ?q h ?t ?k True (stamp sl)"
    using assms(3,4,8) b(2) by (auto simp: stamp_msg_def slot_settled_def get_put_slot split: if_splits)
  then have "weak_ok (move s i (put_slot ?q ?k sl) (append_msg (Stamp ?k) m (shared s)) V th) h ?t"
    using assms(6,7) m weak_okD(4) [OF d(2) assms(2)]
    by (intro weak_ok_stamp [OF d refl refl assms(2) refl, where w = "stamp sl" and sl = sl])
      (auto simp: view_le_def fresh_def race_free_def intro: le_trans)
  ultimately show "related (move s i (put_slot ?q ?k sl) (append_msg (Stamp ?k) m (shared s)) V th) a h"
    by (simp add: related_def)
qed simp_all

section \<open>Positions, slots, messages\<close>

lemma related_index:
  "related s a h \<Longrightarrow> index_of (mem s) (enc_q (mem s) p) = p mod capacity (mem s)"
  "related s a h \<Longrightarrow> next_of (mem s) (enc_q (mem s) p) = enc_q (mem s) (Suc p)"
  by (auto simp: slot_index_enc advance_enc dest!: relatedD(1) sys_okD(1) queue_okD(1))

lemma related_bounds:
  assumes "related s a h"
  shows "lap_ok (capacity (mem s)) (one_lap (mem s))" "0 < capacity (mem s)"
    "length (items a) \<le> capacity (mem s)" "head (mem s) = enc_q (mem s) h"
    "tail (mem s) = enc_q (mem s) (h + length (items a))" "queue_ok (mem s) h (items a)"
  using sys_okD(1) [OF relatedD(1) [OF assms]] queue_okD [OF sys_okD(1) [OF relatedD(1) [OF assms]]] by simp_all

lemma related_slot:
  assumes "related s a h"
  obtains sl where "get_slot (mem s) (p mod capacity (mem s)) = Some sl"
  using stamp_cases [OF relatedD(1) [OF assms] refl refl, of p] by metis

text \<open>The slot of a claimed position.\<close>

lemma claimed_slot:
  assumes "related s a h" "threads s i = th" "w = enc_q (mem s) p"
    "own_index (one_lap (mem s)) th = Some (index_of (mem s) w)"
  obtains sl where "owns s i = Some (p mod capacity (mem s))"
    "get_slot (mem s) (p mod capacity (mem s)) = Some sl" "index_of (mem s) w = p mod capacity (mem s)"
    "fresh (shared s) (views s i) (p mod capacity (mem s))"
proof -
  have idx: "index_of (mem s) w = p mod capacity (mem s)" using related_index(1) [OF assms(1)] assms(3) by simp
  then have own: "owns s i = Some (p mod capacity (mem s))" using assms(2,4) by (simp add: owns_def)
  moreover obtain sl where "get_slot (mem s) (p mod capacity (mem s)) = Some sl"
    by (rule related_slot [OF assms(1)])
  ultimately show thesis using idx that weak_okD(4) [OF relatedD(2) [OF assms(1)] own] by blast
qed

lemma stamp_at_get: "get_slot q (p mod capacity q) = Some sl \<Longrightarrow> stamp_at q p w \<longleftrightarrow> stamp sl = w"
  and value_at_get: "get_slot q (p mod capacity q) = Some sl \<Longrightarrow> value_at q p v \<longleftrightarrow> slot_value sl = Some v"
  by (auto simp: stamp_at_def value_at_def)

lemmas slot_update = stamp_at_put_slot value_at_put_slot stamp_at_get value_at_get slot_defs

text \<open>Which positions a message in the log of a stamp speaks about.\<close>

lemma msg_free:
  assumes "queue_ok q h xs" "stamp_msg q h (h + length xs) (p mod capacity q) b (enc_q q p)" "p \<le> h + length xs"
  shows "p = h + length xs \<longrightarrow> b"
proof -
  note d = queue_okD [OF assms(1)]
  obtain r where r: "r mod capacity q = p mod capacity q"
    "enc_q q p = enc_q q r \<and> r < h + capacity q \<and> (h + length xs \<le> r \<longrightarrow> b) \<or> enc_q q p = enc_q q r + 1"
    using assms(2) unfolding stamp_msg_def by blast
  then show ?thesis using enc_ne_Suc [OF d(1), of p r] enc_q_eq [OF assms(1), of p r] assms(3) by auto
qed

lemma msg_full:
  assumes "queue_ok q h xs" "stamp_msg q h (h + length xs) (p mod capacity q) b (enc_q q p + 1)" "p \<le> h + length xs"
  shows "h \<le> p \<longrightarrow> b"
proof -
  note d = queue_okD [OF assms(1)]
  obtain r where r: "r mod capacity q = p mod capacity q"
    "enc_q q p + 1 = enc_q q r \<or> enc_q q p + 1 = enc_q q r + 1 \<and> r < h + length xs \<and> (h \<le> r \<longrightarrow> b)"
    using assms(2) unfolding stamp_msg_def by blast
  then show ?thesis using enc_ne_Suc [OF d(1), of r p] enc_q_eq [OF assms(1), of p r] assms(3) by auto
qed

lemma msg_lap_behind:
  assumes "queue_ok q h xs" "stamp_msg q h (h + length xs) (p mod capacity q) b w" "w + one_lap q = enc_q q p + 1"
    "p \<le> h + length xs"
  shows "capacity q \<le> p" "w = enc_q q (p - capacity q) + 1"
proof -
  note d = queue_okD [OF assms(1)]
  obtain r where r: "r mod capacity q = p mod capacity q"
    "w = enc_q q r \<or> w = enc_q q r + 1 \<and> r < h + length xs"
    using assms(2) unfolding stamp_msg_def by blast
  have lap: "enc_q q r + one_lap q = enc_q q (r + capacity q)" using d(1) by (rule enc_plus_lap)
  from r(2) assms(3) have "enc_q q (r + capacity q) = enc_q q p + 1 \<or>
      w = enc_q q r + 1 \<and> r < h + length xs \<and> enc_q q (r + capacity q) = enc_q q p"
    using lap by (auto simp: algebra_simps)
  then have "w = enc_q q r + 1 \<and> r + capacity q = p"
    using enc_ne_Suc [OF d(1), of "r + capacity q" p] r(1) assms(4) enc_q_eq [OF assms(1), of "r + capacity q" p]
    by auto
  then show "capacity q \<le> p" "w = enc_q q (p - capacity q) + 1" by auto
qed

text \<open>A stamp load at position \<open>p\<close>: what the message says, and that a thread which reads the newest
  message of a slot that nobody owns may access the slot.\<close>

lemma related_stamp_read:
  assumes "related s a h" "readable ord (Stamp (p mod capacity (mem s))) lag (shared s) V" "acquires ord"
  defines "w \<equiv> msg_value (read_msg (Stamp (p mod capacity (mem s))) lag (shared s))"
  shows "stamp_msg (mem s) h (h + length (items a)) (p mod capacity (mem s)) (lag = 0) w"
    "lag = 0 \<Longrightarrow> stamp_at (mem s) p w"
    "lag = 0 \<Longrightarrow> (\<And>n. owns s n \<noteq> Some (p mod capacity (mem s))) \<Longrightarrow>
      fresh (shared s) (read_view ord (Stamp (p mod capacity (mem s))) lag (shared s) V) (p mod capacity (mem s))"
proof -
  let ?k = "p mod capacity (mem s)"
  have k: "?k < capacity (mem s)" using related_bounds(2) [OF assms(1)] by simp
  note l = weak_okD(3) [OF relatedD(2) [OF assms(1)] k]
  note r = stamp_read [OF l assms(2), folded w_def]
  show "stamp_msg (mem s) h (h + length (items a)) ?k (lag = 0) w" by (fact r(1))
  obtain sl where "get_slot (mem s) ?k = Some sl" by (rule related_slot [OF assms(1)])
  then show "stamp_at (mem s) p w" if "lag = 0" using r(2) [OF that] by (simp add: stamp_at_def)
  show "fresh (shared s) (read_view ord (Stamp ?k) lag (shared s) V) ?k"
    if "lag = 0" "\<And>n. owns s n \<noteq> Some ?k"
    using fresh_read [OF weak_okD(6) [OF relatedD(2) [OF assms(1)] k that(2)] assms(3)] l that(1)
    by (simp add: stamp_log_def)
qed

end
