(* ===== verification/Nure_Step.thy ===== *)
theory Nure_Step
  imports Nure_Rel
begin

text \<open>
  One lemma per program counter: a step of the system either performs an action of the delayed
  specification or leaves the specification where it is, and re-establishes the simulation
  relation. The interpretation at the end gives the inclusion of histories.
\<close>

abbreviation performs :: "bool \<Rightarrow> bool \<Rightarrow> nat \<Rightarrow> 'a sys \<Rightarrow> nat \<Rightarrow>
    'a queue \<times> queue_memory \<times> queue_view \<times> 'a thread \<Rightarrow> bool" where
  "performs std weak lag s i r \<equiv> perform std weak lag (mem s) (shared s) (views s i) (threads s i)
     (access_of (mem s) (threads s i)) = Some r"

lemma put_slot_same: "get_slot q k = Some sl \<Longrightarrow> put_slot q k sl = q"
  by (auto simp: get_slot_def put_slot_def list_update_same_conv split: if_splits)

section \<open>Steps of a pushing thread\<close>

lemma push_step_load:
  assumes "related s a h" "threads s i = Pushing (PushLoad k v b)"
    "push_at (mem s) h (items a) (views s i) p x (PushLoad k v b) (stats a i)"
    "performs std weak lag s i (q', M', V', th')"
  shows "simulated (move s i q' M' V' th') a h"
proof -
  have rd: "readable Relaxed Tail lag (shared s) (views s i)" using assms(2,4) by (auto split: if_splits)
  obtain n where n: "n \<le> h + length (items a)" "msg_value (read_msg Tail lag (shared s)) = enc_q (mem s) n"
    by (rule counter_read [OF weak_okD(2) [OF relatedD(2) [OF assms(1)]] rd]) blast
  have res: "q' = mem s" "M' = shared s" "V' = read_view Relaxed Tail lag (shared s) (views s i)"
    "th' = Pushing (PushStamp k v b (enc_q (mem s) n))"
    using assms(2,4) rd n by auto
  show ?thesis
    unfolding res using assms(2,3) n(1) by (intro simulated_local [OF assms(1)]) (auto simp: owns_def)
qed

lemma slot_access_some:
  "get_slot q (index_of q w) = Some sl \<Longrightarrow> slot_access q w f = f (index_of q w)"
  by (simp add: slot_access_def)

lemma push_step_stamp:
  assumes "related s a h" "threads s i = Pushing (PushStamp k v b w)"
    "push_at (mem s) h (items a) (views s i) p x (PushStamp k v b w) (stats a i)"
    "performs std weak lag s i (q', M', V', th')"
  shows "simulated (move s i q' M' V' th') a h"
proof -
  let ?q = "mem s :: 'a queue" and ?t = "h + length (items a)"
  let ?k = "p mod capacity ?q"
  let ?u = "msg_value (read_msg (Stamp ?k) lag (shared s))"
  let ?V = "read_view Acquire (Stamp ?k) lag (shared s) (views s i)"
  note bd = related_bounds [OF assms(1)]
  have w: "w = enc_q ?q p" "p \<le> ?t" "index_of ?q w = ?k" "waiting (capacity ?q) (items a) (push_cmd k v) (stats a i)"
    using assms(3) related_index(1) [OF assms(1)] by auto
  obtain sl where sl: "get_slot ?q ?k = Some sl" by (rule related_slot [OF assms(1)])
  have acc: "access_of ?q (threads s i) = Load (Stamp ?k) Acquire"
    using assms(2) slot_access_some [of ?q w sl] sl w(3) by (simp add: stamp_load_access_def)
  then have rd: "readable Acquire (Stamp ?k) lag (shared s) (views s i)" using assms(4) by (simp split: if_splits)
  note r = related_stamp_read [OF assms(1) rd, simplified]
  have k: "?k < capacity ?q" using bd(2) by simp
  let ?pc = "if w = ?u then PushCas k v b w else if ?u + one_lap ?q = w + 1 then PushFence k v b w
      else PushLoad k v (fst (snooze std b))"
  have res: "q' = ?q" "M' = shared s" "V' = ?V" "th' = Pushing ?pc"
    using assms(4) acc rd assms(2) sl k w(3) by (auto simp: get_put_slot slot_defs Let_def)
  have "push_at ?q h (items a) ?V p x ?pc (stats a i) \<and>
    (\<forall>j. claims ?q (Pushing ?pc) = Some j \<longrightarrow> fresh (shared s) ?V j)"
  proof (cases "w = ?u")
    case True
    then have at: "p = ?t \<longrightarrow> lag = 0" using msg_free [OF bd(6), of p "lag = 0"] r(1) w by simp
    have stamp: "stamp_at ?q p (enc_q ?q p)" if "p = ?t" using r(2) at True w(1) that by simp
    have "fresh (shared s) ?V ?k" if "w = tail ?q"
    proof -
      have p: "p = ?t" using enc_q_eq [OF bd(6), of p ?t] that w(1,2) bd(5) by simp
      then show ?thesis using r(3) at stamp_free_tail(2) [OF relatedD(1) [OF assms(1)] refl refl] stamp by simp
    qed
    then show ?thesis using True stamp w by auto
  next
    case False
    show ?thesis
    proof (cases "?u + one_lap ?q = w + 1")
      case True
      have m: "capacity ?q \<le> p" "?u = enc_q ?q (p - capacity ?q) + 1"
        using msg_lap_behind [OF bd(6) r(1) _ w(2)] True w(1) by auto
      let ?r = "p - capacity ?q"
      have mod: "?r mod capacity ?q = ?k" using sub_cap_mod [OF m(1)] .
      then have at: "h \<le> ?r \<longrightarrow> lag = 0"
        using msg_full [OF bd(6), of ?r "lag = 0"] r(1) w(2) m by simp
      then have behind: "behind_ok ?q h (items a) p" using r(2) m w(2) by (auto simp: behind_ok_def)
      have "fresh (shared s) ?V ?k" if "w = head ?q + one_lap ?q"
      proof -
        have "enc_q ?q p = enc_q ?q (h + capacity ?q)" using that w(1) bd(4) enc_plus_lap [OF bd(1), of h] by simp
        then have p: "p = h + capacity ?q" using enc_q_eq [OF bd(6), of p "h + capacity ?q"] w(2) by simp
        then have "stamp_at ?q h (enc_q ?q h + 1)" using behind by (simp add: behind_ok_def stamp_at_def)
        from stamp_full_head [OF relatedD(1) [OF assms(1)] refl refl this]
        have "owns s n \<noteq> Some ?k" for n using p by (metis mod_add_self2)
        then show ?thesis using r(3) at p by simp
      qed
      then show ?thesis using False True behind w by (cases k) auto
    qed (use False w in auto)
  qed
  moreover have "own_index (one_lap ?q) (Pushing ?pc) = None" by simp
  ultimately show ?thesis
    unfolding res using assms(2) by (intro simulated_local [OF assms(1)]) (auto simp: owns_def)
qed

text \<open>A failing exchange is a relaxed load of the counter.\<close>

lemma push_step_cas:
  assumes "related s a h" "threads s i = Pushing (PushCas k v b w)" "h + length (items a) < 2 ^ 62"
    "push_at (mem s) h (items a) (views s i) p x (PushCas k v b w) (stats a i)"
    "performs std weak lag s i (q', M', V', th')"
  shows "simulated (move s i q' M' V' th') a h"
proof (cases "\<not> weak \<and> lag = 0 \<and> tail (mem s) = w")
  case True
  let ?q = "mem s :: 'a queue" and ?t = "h + length (items a)"
  note bd = related_bounds [OF assms(1)] and idx = related_index [OF assms(1)]
  have "enc_q ?q p = enc_q ?q ?t" "p \<le> ?t" using True assms(4) bd by auto
  then have p: "p = ?t" using enc_q_eq [OF bd(6), of p ?t] by simp
  have at: "stamp_at ?q ?t (enc_q ?q ?t)" using assms(4) p by simp
  note free = stamp_free_tail [OF relatedD(1) [OF assms(1)] refl refl at]
  have w: "w = enc_q ?q ?t" using True bd(5) by simp
  have res: "q' = ?q\<lparr>tail := enc_q ?q (Suc ?t)\<rparr>" "th' = Pushing (PushWrite k v (enc_q ?q ?t))"
    "mem_exchange SeqCst Tail (enc_q ?q (Suc ?t)) (shared s) (views s i) = (M', V')"
    using True assms(2,5) idx(2) [of ?t] w by (auto simp: compare_exchange_weak_def split: prod.splits)
  obtain m where m: "M' = append_msg Tail m (shared s)" "msg_value m = enc_q ?q (Suc ?t)" "msg_sc m"
    "view_le (views s i) V'" by (rule mem_exchange_append [OF res(3)]) simp
  have "claims ?q (threads s i) = Some (?t mod capacity ?q)" using assms(2) w bd(5) idx(1) by simp
  then have fresh: "fresh (shared s) V' (?t mod capacity ?q)"
    using weak_okD(5) [OF relatedD(2) [OF assms(1)]] fresh_mono [OF _ m(4)] by blast
  let ?r = "push_ret k (Ok ()) :: 'a ring_ret"
  let ?a = "a\<lparr>items := items a @ [v], stats := (\<lambda>j. notice (capacity ?q) (items a @ [v]) (((stats a)(i := DDone ?r)) j))\<rparr>"
  have "related (move s i (?q\<lparr>tail := enc_q ?q (Suc ?t)\<rparr>) M' V' (Pushing (PushWrite k v (enc_q ?q ?t)))) ?a h"
    unfolding m(1)
  proof (rule related_tail [OF assms(1) refl refl refl free(1) assms(3) _ _ _ _ m(2,3) fresh])
    show "thread_ok (?q\<lparr>tail := enc_q ?q (Suc ?t)\<rparr>) h (items a @ [v]) V'
      (Pushing (PushWrite k v (enc_q ?q ?t))) (notice (capacity ?q) (items a @ [v]) (DDone ?r))"
      using at by (auto intro!: exI [of _ ?t])
  qed (use free(2) idx assms(2) in \<open>auto simp: owns_def\<close>)
  moreover obtain S where "stats a i = DWaiting (push_cmd k v) S" using assms(4) by (auto simp: waiting_def)
  then have "delayed_step (capacity ?q) a Tau ?a"
    using free(1) by (intro d_apply [of _ _ "push_cmd k v" S]) (cases k; auto)+
  ultimately show ?thesis
    using res by (intro simulatedI [of _ ?a h]) simp_all
next
  case False
  then have rd: "readable Relaxed Tail lag (shared s) (views s i)" using assms(2,5) by (auto split: if_splits)
  obtain n where n: "n \<le> h + length (items a)" "msg_value (read_msg Tail lag (shared s)) = enc_q (mem s) n"
    by (rule counter_read [OF weak_okD(2) [OF relatedD(2) [OF assms(1)]] rd]) blast
  obtain b' where res: "q' = mem s" "M' = shared s" "V' = read_view Relaxed Tail lag (shared s) (views s i)"
    "th' = Pushing (PushStamp k v b' (enc_q (mem s) n))"
    using assms(2,5) rd n False by (auto simp: compare_exchange_weak_def split: if_splits)
  show ?thesis
    unfolding res using assms(2,4) n(1) by (intro simulated_local [OF assms(1)]) (auto simp: owns_def)
qed

lemma push_step_write:
  assumes "related s a h" "threads s i = Pushing (PushWrite k v w)"
    "push_at (mem s) h (items a) (views s i) p x (PushWrite k v w) (stats a i)"
    "performs std weak lag s i (q', M', V', th')"
  shows "simulated (move s i q' M' V' th') a h"
proof -
  let ?k = "p mod capacity (mem s)"
  obtain sl where sl: "owns s i = Some ?k" "get_slot (mem s) ?k = Some sl" "index_of (mem s) w = ?k"
    "fresh (shared s) (views s i) ?k"
    by (rule claimed_slot [OF assms(1,2), of w p]) (use assms(3) in auto)
  have res: "q' = put_slot (mem s) ?k (write_value sl v)" "th' = Pushing (PushPublish k w)"
    "mem_cell ?k (shared s) (views s i) = (M', V')"
    using assms(2,4) sl by (auto simp: slot_access_some fresh_def split: prod.splits)
  show ?thesis
    unfolding res(1,2) using assms(3) sl related_bounds(2) [OF assms(1)]
    by (intro simulated_cell [OF assms(1) sl(1) res(3)]) (auto simp: slot_update intro!: exI [of _ p])
qed

lemma push_step_publish:
  assumes "related s a h" "threads s i = Pushing (PushPublish k w)"
    "push_at (mem s) h (items a) (views s i) p x (PushPublish k w) (stats a i)"
    "performs std weak lag s i (q', M', V', th')"
  shows "simulated (move s i q' M' V' th') a h"
proof -
  let ?k = "p mod capacity (mem s)"
  note bd = related_bounds [OF assms(1)]
  obtain sl where sl: "owns s i = Some ?k" "get_slot (mem s) ?k = Some sl" "index_of (mem s) w = ?k"
    "fresh (shared s) (views s i) ?k"
    by (rule claimed_slot [OF assms(1,2), of w p]) (use assms(3) in auto)
  have res: "q' = put_slot (mem s) ?k (stamp_store sl (w + 1))" "th' = Pushing (PushRet k (Ok ()))"
    "mem_store Release (Stamp ?k) (w + 1) (shared s) (views s i) = (M', V')"
    using assms(2,4) sl bd(2)
    by (auto simp: slot_access_some stamp_store_access_def fresh_def get_put_slot stamp_store_def split: prod.splits)
  obtain m where m: "M' = append_msg (Stamp ?k) m (shared s)" "msg_value m = w + 1"
    "view_le (views s i) (msg_view m)" by (rule mem_store_append [OF res(3)]) simp
  show ?thesis
    unfolding res(1,2) m(1) using assms(3) sl bd(2,3) m(2,3)
    by (intro simulated_stamp [OF assms(1) sl(1)])
      (auto simp: slot_settled_def get_put_slot slot_update told_def)
qed

lemma push_step_fence:
  assumes "related s a h" "threads s i = Pushing (PushFence k v b w)"
    "push_at (mem s) h (items a) (views s i) p x (PushFence k v b w) (stats a i)"
    "performs std weak lag s i (q', M', V', th')"
  shows "simulated (move s i q' M' V' th') a h"
proof -
  let ?q = "mem s :: 'a queue" and ?t = "h + length (items a)"
  let ?V = "mem_fence SeqCst (shared s) (views s i)"
  note bd = related_bounds [OF assms(1)] and wk = weak_okD [OF relatedD(2) [OF assms(1)]]
  have res: "q' = ?q" "M' = shared s" "V' = ?V" "th' = Pushing (PushFull k v b w)" using assms(2,4) by auto
  have seen: "h \<le> seen ?V Head" "?t \<le> seen ?V Tail"
    using fence_view_ge(2) [where M = "shared s" and V = "views s i"] wk(1,2) by (metis counter_log_def)+
  have p: "p \<le> ?t" "waiting (capacity ?q) (items a) (push_cmd k v) (stats a i)"
    using assms(3) by (auto simp: behind_ok_def)
  have "told (stats a i) (RetPush (Err v))" if "k = KPush" "p = seen ?V Head + capacity ?q"
    using that seen(1) p bd(3) by (intro waiting_told [OF p(2)]) auto
  then have "push_at ?q h (items a) ?V p x (PushFull k v b w) (stats a i)"
    using assms(3) seen p bd(3) by auto
  moreover have "fresh (shared s) ?V j" if "claims ?q (Pushing (PushFull k v b w)) = Some j" for j
    using that wk(5) [of i j] assms(2) fresh_mono [of "shared s" "views s i" j ?V] by (cases k) auto
  ultimately show ?thesis
    unfolding res using assms(2) by (intro simulated_local [OF assms(1)]) (auto simp: owns_def)
qed

lemma push_step_full:
  assumes "related s a h" "threads s i = Pushing (PushFull KPush v b w)"
    "push_at (mem s) h (items a) (views s i) p x (PushFull KPush v b w) (stats a i)"
    "performs std weak lag s i (q', M', V', th')"
  shows "simulated (move s i q' M' V' th') a h"
proof -
  let ?q = "mem s :: 'a queue"
  note bd = related_bounds [OF assms(1)]
  have rd: "readable Relaxed Head lag (shared s) (views s i)" using assms(2,4) by (auto split: if_splits)
  obtain n where n: "n \<le> h" "msg_value (read_msg Head lag (shared s)) = enc_q ?q n" "seen (views s i) Head \<le> n"
    by (rule counter_read [OF weak_okD(1) [OF relatedD(2) [OF assms(1)]] rd]) blast
  let ?pc = "if enc_q ?q n + one_lap ?q = w then PushRet KPush (Err v) else PushLoad KPush v (fst (spin std b))"
  have res: "q' = ?q" "M' = shared s" "V' = read_view Relaxed Head lag (shared s) (views s i)" "th' = Pushing ?pc"
    using assms(2,4) rd n by (auto simp: push_closure_def Let_def)
  have "told (stats a i) (RetPush (Err v))" if "enc_q ?q n + one_lap ?q = w"
  proof -
    have "enc_q ?q (n + capacity ?q) = enc_q ?q p" using that assms(3) enc_plus_lap [OF bd(1), of n] by simp
    then have "n + capacity ?q = p"
      using enc_q_eq [OF bd(6), of "n + capacity ?q" p] n(1) assms(3) by (auto simp: behind_ok_def)
    then show ?thesis using assms(3) n(3) by auto
  qed
  then have "thread_ok ?q h (items a) V' th' (stats a i)" "own_index (one_lap ?q) th' = None" "claims ?q th' = None"
    using assms(3) by (auto simp: res)
  then have "simulated (move s i ?q (shared s) V' th') a h"
    using assms(2) by (intro simulated_local [OF assms(1)]) (simp_all add: owns_def res(3))
  then show ?thesis by (simp add: res(1,2))
qed

lemma force_step_full:
  assumes "related s a h" "threads s i = Pushing (PushFull KForce v b w)"
    "push_at (mem s) h (items a) (views s i) p x (PushFull KForce v b w) (stats a i)"
    "performs std weak lag s i (q', M', V', th')"
  shows "simulated (move s i q' M' V' th') a h"
proof (cases "\<not> weak \<and> lag = 0 \<and> head (mem s) = w - one_lap (mem s)")
  case True
  let ?q = "mem s :: 'a queue"
  note bd = related_bounds [OF assms(1)] and idx = related_index [OF assms(1)]
  have p: "capacity ?q \<le> p" "p \<le> h + length (items a)" "w = enc_q ?q p" "p \<le> seen (views s i) Tail"
    using assms(3) by (auto simp: behind_ok_def)
  then have "enc_q ?q h = enc_q ?q (p - capacity ?q)" using True bd enc_minus_lap [OF bd(1) p(1)] by simp
  then have h: "p = h + capacity ?q" using enc_q_eq [OF bd(6), of h "p - capacity ?q"] p by auto
  then have at: "stamp_at ?q h (enc_q ?q h + 1)" using assms(3) by (auto simp: behind_ok_def stamp_at_def)
  obtain y ys where y: "items a = y # ys" "value_at ?q h y" "\<And>j. owns s j \<noteq> Some (h mod capacity ?q)"
    by (rule stamp_full_head [OF relatedD(1) [OF assms(1)] refl refl at]) blast
  have len: "Suc (length ys) = capacity ?q" using p(2) h bd(3) y(1) by simp
  have tail_slot: "p = Suc h + length ys" "stamp_at ?q p (enc_q ?q (p - capacity ?q) + 1)" "value_at ?q p y"
    using h len at y(2) by (simp, simp_all add: stamp_at_def value_at_def)
  have "next_of ?q w - one_lap ?q = enc_q ?q (Suc h)"
    using idx(2) [of p] enc_minus_lap [OF bd(1), of "Suc p"] p h by simp
  then have res: "q' = ?q\<lparr>head := enc_q ?q (Suc h)\<rparr>" "th' = Pushing (ForceTail v w)"
    "mem_exchange SeqCst Head (enc_q ?q (Suc h)) (shared s) (views s i) = (M', V')"
    using True assms(2,4) by (auto simp: compare_exchange_weak_def Let_def split: prod.splits)
  obtain m where m: "M' = append_msg Head m (shared s)" "msg_value m = enc_q ?q (Suc h)" "msg_sc m"
    "view_le (views s i) V'" by (rule mem_exchange_append [OF res(3)]) simp
  have seen: "p \<le> seen V' Tail" using m(4) p(4) by (auto simp: view_le_def intro: le_trans)
  have w: "w = head ?q + one_lap ?q" using True by simp
  then have "claims ?q (threads s i) = Some (h mod capacity ?q)" using assms(2) idx(1) [of p] p(3) h by simp
  then have fresh: "fresh (shared s) V' (h mod capacity ?q)"
    using weak_okD(5) [OF relatedD(2) [OF assms(1)]] fresh_mono [OF _ m(4)] by blast
  let ?a = "a\<lparr>items := ys, stats := (\<lambda>j. notice (capacity ?q) ys (((stats a)(i := DReplacing v y)) j))\<rparr>"
  have "related (move s i (?q\<lparr>head := enc_q ?q (Suc h)\<rparr>) M' V' (Pushing (ForceTail v w))) ?a (Suc h)"
    unfolding m(1)
  proof (rule related_head [OF assms(1) refl y(1) _ _ _ _ m(2,3) fresh])
    show "thread_ok (?q\<lparr>head := enc_q ?q (Suc h)\<rparr>) (Suc h) ys V' (Pushing (ForceTail v w))
        (notice (capacity ?q) ys (DReplacing v y))"
      using tail_slot p(1,3) len seen by simp
  qed (use y(3) idx(1) [of p] assms(2) p(3) h in \<open>auto simp: owns_def\<close>)
  moreover obtain S where "stats a i = DWaiting (OpForcePush v) S" using assms(3) by (auto simp: waiting_def)
  then have "delayed_step (capacity ?q) a Tau ?a"
    using y(1) len by (intro d_remove [of _ _ v S]) auto
  ultimately show ?thesis
    unfolding res using y(1) by (intro simulatedI [of _ ?a "Suc h"]) simp_all
next
  case False
  then have rd: "readable Relaxed Head lag (shared s) (views s i)" using assms(2,4) by (auto split: if_splits)
  obtain b' where res: "q' = mem s" "M' = shared s" "V' = read_view Relaxed Head lag (shared s) (views s i)"
    "th' = Pushing (PushLoad KForce v b')"
    using assms(2,4) rd False by (auto simp: compare_exchange_weak_def Let_def split: if_splits)
  show ?thesis
    unfolding res using assms(2,3) by (intro simulated_local [OF assms(1)]) (auto simp: owns_def)
qed

lemma force_step_tail:
  assumes "related s a h" "threads s i = Pushing (ForceTail v w)" "h + length (items a) < 2 ^ 62"
    "push_at (mem s) h (items a) (views s i) p x (ForceTail v w) (stats a i)"
    "performs std weak lag s i (q', M', V', th')"
  shows "simulated (move s i q' M' V' th') a h"
proof -
  let ?q = "mem s :: 'a queue" and ?t = "h + length (items a)"
  note bd = related_bounds [OF assms(1)] and idx = related_index [OF assms(1)]
  have p: "p = ?t" "w = enc_q ?q ?t" "length (items a) < capacity ?q" "?t \<le> seen (views s i) Tail"
    using assms(4) by auto
  have def: "store_definite Tail (shared s) (views s i)"
    using weak_okD(2) [OF relatedD(2) [OF assms(1)]] p(4) by (simp add: store_definite_def latest_def counter_log_def)
  have own: "owns s i = Some (?t mod capacity ?q)" using assms(2) p idx by (auto simp: owns_def)
  have others: "owns s j \<noteq> Some (?t mod capacity ?q)" if "j \<noteq> i" for j
    using sys_okD(3) [OF relatedD(1) [OF assms(1)]] own that by (auto simp: owned_ok_def)
  have res: "q' = ?q\<lparr>tail := enc_q ?q (Suc ?t)\<rparr>" "th' = Pushing (ForceReplace v w)"
    "mem_store SeqCst Tail (enc_q ?q (Suc ?t)) (shared s) (views s i) = (M', V')"
    using assms(2,5) idx(2) [of ?t] p(2) def by (auto split: prod.splits)
  obtain m where m: "M' = append_msg Tail m (shared s)" "msg_value m = enc_q ?q (Suc ?t)" "msg_sc m"
    "view_le (views s i) V'" by (rule mem_store_append [OF res(3)]) simp
  have fresh: "fresh (shared s) V' (?t mod capacity ?q)"
    using weak_okD(4) [OF relatedD(2) [OF assms(1)] own] fresh_mono [OF _ m(4)] by blast
  let ?r = "RetForce (Some x)"
  let ?a = "a\<lparr>items := items a @ [v], stats := (\<lambda>j. notice (capacity ?q) (items a @ [v]) (((stats a)(i := DDone ?r)) j))\<rparr>"
  have "related (move s i (?q\<lparr>tail := enc_q ?q (Suc ?t)\<rparr>) M' V' (Pushing (ForceReplace v w))) ?a h"
    unfolding m(1)
  proof (rule related_tail [OF assms(1) refl refl refl p(3) assms(3) _ _ _ _ m(2,3) fresh])
    show "thread_ok (?q\<lparr>tail := enc_q ?q (Suc ?t)\<rparr>) h (items a @ [v]) V' (Pushing (ForceReplace v w))
      (notice (capacity ?q) (items a @ [v]) (DDone ?r))"
      using assms(4) by (auto intro!: exI [of _ p] exI [of _ x])
  qed (use own others idx p in auto)
  moreover have "delayed_step (capacity ?q) a Tau ?a"
    using assms(4) p(3) by (intro d_insert) auto
  ultimately show ?thesis
    unfolding res by (intro simulatedI [of _ ?a h]) simp_all
qed

lemma force_step_replace:
  assumes "related s a h" "threads s i = Pushing (ForceReplace v w)"
    "push_at (mem s) h (items a) (views s i) p x (ForceReplace v w) (stats a i)"
    "performs std weak lag s i (q', M', V', th')"
  shows "simulated (move s i q' M' V' th') a h"
proof -
  let ?k = "p mod capacity (mem s)"
  obtain sl where sl: "owns s i = Some ?k" "get_slot (mem s) ?k = Some sl" "index_of (mem s) w = ?k"
    "fresh (shared s) (views s i) ?k"
    by (rule claimed_slot [OF assms(1,2), of w p]) (use assms(3) in auto)
  have val: "slot_value sl = Some x" using assms(3) sl by (simp add: value_at_get)
  have res: "q' = put_slot (mem s) ?k (sl\<lparr>slot_value := Some v\<rparr>)" "th' = Pushing (ForcePublish x w)"
    "mem_cell ?k (shared s) (views s i) = (M', V')"
    using assms(2,4) sl val by (auto simp: slot_access_some slot_defs fresh_def split: prod.splits)
  show ?thesis
    unfolding res(1,2) using assms(3) sl related_bounds(2) [OF assms(1)]
    by (intro simulated_cell [OF assms(1) sl(1) res(3)]) (auto simp: slot_update intro!: exI [of _ p])
qed

lemma force_step_publish:
  assumes "related s a h" "threads s i = Pushing (ForcePublish y w)"
    "push_at (mem s) h (items a) (views s i) p x (ForcePublish y w) (stats a i)"
    "performs std weak lag s i (q', M', V', th')"
  shows "simulated (move s i q' M' V' th') a h"
proof -
  let ?k = "p mod capacity (mem s)"
  note bd = related_bounds [OF assms(1)]
  obtain sl where sl: "owns s i = Some ?k" "get_slot (mem s) ?k = Some sl" "index_of (mem s) w = ?k"
    "fresh (shared s) (views s i) ?k"
    by (rule claimed_slot [OF assms(1,2), of w p]) (use assms(3) in auto)
  have res: "q' = put_slot (mem s) ?k (stamp_store sl (w + 1))" "th' = Pushing (PushRet KForce (Err y))"
    "mem_store Release (Stamp ?k) (w + 1) (shared s) (views s i) = (M', V')"
    using assms(2,4) sl bd(2)
    by (auto simp: slot_access_some stamp_store_access_def fresh_def get_put_slot stamp_store_def split: prod.splits)
  obtain m where m: "M' = append_msg (Stamp ?k) m (shared s)" "msg_value m = w + 1"
    "view_le (views s i) (msg_view m)" by (rule mem_store_append [OF res(3)]) simp
  show ?thesis
    unfolding res(1,2) m(1) using assms(3) sl bd(2,3) m(2,3)
    by (intro simulated_stamp [OF assms(1) sl(1)])
      (auto simp: slot_settled_def get_put_slot slot_update told_def)
qed

lemma push_simulated:
  assumes "related s a h" "threads s i = Pushing pc" "h + length (items a) < 2 ^ 62"
    "performs std weak lag s i (q', M', V', th')"
    "push_at (mem s) h (items a) (views s i) p x pc (stats a i)"
  shows "simulated (move s i q' M' V' th') a h"
proof (cases pc)
  case pc: (PushLoad k v b)
  show ?thesis by (rule push_step_load [OF assms(1) assms(2,5) [unfolded pc] assms(4)])
next
  case pc: (PushStamp k v b w)
  show ?thesis by (rule push_step_stamp [OF assms(1) assms(2,5) [unfolded pc] assms(4)])
next
  case pc: (PushCas k v b w)
  show ?thesis by (rule push_step_cas [OF assms(1) assms(2) [unfolded pc] assms(3) assms(5) [unfolded pc] assms(4)])
next
  case pc: (PushWrite k v w)
  show ?thesis by (rule push_step_write [OF assms(1) assms(2,5) [unfolded pc] assms(4)])
next
  case pc: (PushPublish k w)
  show ?thesis by (rule push_step_publish [OF assms(1) assms(2,5) [unfolded pc] assms(4)])
next
  case pc: (PushFence k v b w)
  show ?thesis by (rule push_step_fence [OF assms(1) assms(2,5) [unfolded pc] assms(4)])
next
  case pc: (PushFull k v b w)
  show ?thesis
  proof (cases k)
    case k: KPush
    show ?thesis by (rule push_step_full [OF assms(1) assms(2,5) [unfolded pc k] assms(4)])
  next
    case k: KForce
    show ?thesis by (rule force_step_full [OF assms(1) assms(2,5) [unfolded pc k] assms(4)])
  qed
next
  case pc: (ForceTail v w)
  show ?thesis by (rule force_step_tail [OF assms(1) assms(2) [unfolded pc] assms(3) assms(5) [unfolded pc] assms(4)])
next
  case pc: (ForceReplace v w)
  show ?thesis by (rule force_step_replace [OF assms(1) assms(2,5) [unfolded pc] assms(4)])
next
  case pc: (ForcePublish v w)
  show ?thesis by (rule force_step_publish [OF assms(1) assms(2,5) [unfolded pc] assms(4)])
qed (use assms(2,4,5) in auto)

section \<open>Steps of a popping thread\<close>

lemma pop_step_load:
  assumes "related s a h" "threads s i = Popping (PopLoad b)"
    "pop_at (mem s) h (items a) (views s i) p x (PopLoad b) (stats a i)"
    "performs std weak lag s i (q', M', V', th')"
  shows "simulated (move s i q' M' V' th') a h"
proof -
  have rd: "readable Relaxed Head lag (shared s) (views s i)" using assms(2,4) by (auto split: if_splits)
  obtain n where n: "n \<le> h" "msg_value (read_msg Head lag (shared s)) = enc_q (mem s) n"
    by (rule counter_read [OF weak_okD(1) [OF relatedD(2) [OF assms(1)]] rd]) blast
  have res: "q' = mem s" "M' = shared s" "V' = read_view Relaxed Head lag (shared s) (views s i)"
    "th' = Popping (PopStamp b (enc_q (mem s) n))"
    using assms(2,4) rd n by auto
  show ?thesis
    unfolding res using assms(2,3) n(1) by (intro simulated_local [OF assms(1)]) (auto simp: owns_def)
qed

lemma pop_step_stamp:
  assumes "related s a h" "threads s i = Popping (PopStamp b w)"
    "pop_at (mem s) h (items a) (views s i) p x (PopStamp b w) (stats a i)"
    "performs std weak lag s i (q', M', V', th')"
  shows "simulated (move s i q' M' V' th') a h"
proof -
  let ?q = "mem s :: 'a queue"
  let ?k = "p mod capacity ?q"
  let ?u = "msg_value (read_msg (Stamp ?k) lag (shared s))"
  let ?V = "read_view Acquire (Stamp ?k) lag (shared s) (views s i)"
  note bd = related_bounds [OF assms(1)]
  have w: "w = enc_q ?q p" "p \<le> h" "index_of ?q w = ?k" "waiting (capacity ?q) (items a) OpPop (stats a i)"
    using assms(3) related_index(1) [OF assms(1)] by auto
  obtain sl where sl: "get_slot ?q ?k = Some sl" by (rule related_slot [OF assms(1)])
  have acc: "access_of ?q (threads s i) = Load (Stamp ?k) Acquire"
    using assms(2) slot_access_some [of ?q w sl] sl w(3) by (simp add: stamp_load_access_def)
  then have rd: "readable Acquire (Stamp ?k) lag (shared s) (views s i)" using assms(4) by (simp split: if_splits)
  note r = related_stamp_read [OF assms(1) rd, simplified]
  have k: "?k < capacity ?q" using bd(2) by simp
  let ?pc = "if w + 1 = ?u then PopCas b w else if ?u = w then PopFence b w else PopLoad (fst (snooze std b))"
  have res: "q' = ?q" "M' = shared s" "V' = ?V" "th' = Popping ?pc"
    using assms(4) acc rd assms(2) sl k w(3) by (auto simp: get_put_slot slot_defs Let_def)
  have "pop_at ?q h (items a) ?V p x ?pc (stats a i) \<and>
    (\<forall>j. claims ?q (Popping ?pc) = Some j \<longrightarrow> fresh (shared s) ?V j)"
  proof (cases "w + 1 = ?u")
    case True
    then have at: "p = h \<longrightarrow> lag = 0" using msg_full [OF bd(6), of p "lag = 0"] r(1) w by simp
    have stamp: "stamp_at ?q p (enc_q ?q p + 1)" if "p = h" using r(2) at True w(1) that by simp
    have "fresh (shared s) ?V ?k" if "w = head ?q"
    proof -
      have p: "p = h" using enc_q_eq [OF bd(6), of p h] that w(1,2) bd(4) by simp
      then have "stamp_at ?q h (enc_q ?q h + 1)" using stamp by simp
      from stamp_full_head [OF relatedD(1) [OF assms(1)] refl refl this]
      have "owns s n \<noteq> Some ?k" for n using p by metis
      then show ?thesis using r(3) at p by simp
    qed
    then show ?thesis using True stamp w by auto
  qed (use w in auto)
  moreover have "own_index (one_lap ?q) (Popping ?pc) = None" by simp
  ultimately show ?thesis
    unfolding res using assms(2) by (intro simulated_local [OF assms(1)]) (auto simp: owns_def)
qed

lemma pop_step_cas:
  assumes "related s a h" "threads s i = Popping (PopCas b w)"
    "pop_at (mem s) h (items a) (views s i) p x (PopCas b w) (stats a i)"
    "performs std weak lag s i (q', M', V', th')"
  shows "simulated (move s i q' M' V' th') a h"
proof (cases "\<not> weak \<and> lag = 0 \<and> head (mem s) = w")
  case True
  let ?q = "mem s :: 'a queue"
  note bd = related_bounds [OF assms(1)] and idx = related_index [OF assms(1)]
  have "enc_q ?q p = enc_q ?q h" "p \<le> h" using True assms(3) bd by auto
  then have p: "p = h" using enc_q_eq [OF bd(6), of p h] by simp
  have at: "stamp_at ?q h (enc_q ?q h + 1)" using assms(3) p by simp
  obtain y ys where y: "items a = y # ys" "value_at ?q h y" "\<And>j. owns s j \<noteq> Some (h mod capacity ?q)"
    by (rule stamp_full_head [OF relatedD(1) [OF assms(1)] refl refl at]) blast
  have w: "w = enc_q ?q h" using True bd(4) by simp
  have res: "q' = ?q\<lparr>head := enc_q ?q (Suc h)\<rparr>" "th' = Popping (PopRead (enc_q ?q h))"
    "mem_exchange SeqCst Head (enc_q ?q (Suc h)) (shared s) (views s i) = (M', V')"
    using True assms(2,4) idx(2) [of h] w by (auto simp: compare_exchange_weak_def split: prod.splits)
  obtain m where m: "M' = append_msg Head m (shared s)" "msg_value m = enc_q ?q (Suc h)" "msg_sc m"
    "view_le (views s i) V'" by (rule mem_exchange_append [OF res(3)]) simp
  have "claims ?q (threads s i) = Some (h mod capacity ?q)" using assms(2) w bd(4) idx(1) by simp
  then have fresh: "fresh (shared s) V' (h mod capacity ?q)"
    using weak_okD(5) [OF relatedD(2) [OF assms(1)]] fresh_mono [OF _ m(4)] by blast
  let ?r = "RetPop (Some y)"
  let ?a = "a\<lparr>items := ys, stats := (\<lambda>j. notice (capacity ?q) ys (((stats a)(i := DDone ?r)) j))\<rparr>"
  have "related (move s i (?q\<lparr>head := enc_q ?q (Suc h)\<rparr>) M' V' (Popping (PopRead (enc_q ?q h)))) ?a (Suc h)"
    unfolding m(1)
  proof (rule related_head [OF assms(1) refl y(1) _ _ _ _ m(2,3) fresh])
    show "thread_ok (?q\<lparr>head := enc_q ?q (Suc h)\<rparr>) (Suc h) ys V' (Popping (PopRead (enc_q ?q h)))
        (notice (capacity ?q) ys (DDone ?r))"
      using at y(1,2) bd(3) by (auto intro!: exI [of _ h] exI [of _ y])
  qed (use y(3) idx(1) [of h] assms(2) in \<open>auto simp: owns_def\<close>)
  moreover obtain S where "stats a i = DWaiting OpPop S" using assms(3) by (auto simp: waiting_def)
  then have "delayed_step (capacity ?q) a Tau ?a"
    using y(1) by (intro d_apply [of _ _ OpPop S]) auto
  ultimately show ?thesis
    unfolding res using y(1) by (intro simulatedI [of _ ?a "Suc h"]) simp_all
next
  case False
  then have rd: "readable Relaxed Head lag (shared s) (views s i)" using assms(2,4) by (auto split: if_splits)
  obtain n where n: "n \<le> h" "msg_value (read_msg Head lag (shared s)) = enc_q (mem s) n"
    by (rule counter_read [OF weak_okD(1) [OF relatedD(2) [OF assms(1)]] rd]) blast
  obtain b' where res: "q' = mem s" "M' = shared s" "V' = read_view Relaxed Head lag (shared s) (views s i)"
    "th' = Popping (PopStamp b' (enc_q (mem s) n))"
    using assms(2,4) rd n False by (auto simp: compare_exchange_weak_def split: if_splits)
  show ?thesis
    unfolding res using assms(2,3) n(1) by (intro simulated_local [OF assms(1)]) (auto simp: owns_def)
qed

lemma pop_step_read:
  assumes "related s a h" "threads s i = Popping (PopRead w)"
    "pop_at (mem s) h (items a) (views s i) p x (PopRead w) (stats a i)"
    "performs std weak lag s i (q', M', V', th')"
  shows "simulated (move s i q' M' V' th') a h"
proof -
  let ?k = "p mod capacity (mem s)"
  obtain sl where sl: "owns s i = Some ?k" "get_slot (mem s) ?k = Some sl" "index_of (mem s) w = ?k"
    "fresh (shared s) (views s i) ?k"
    by (rule claimed_slot [OF assms(1,2), of w p]) (use assms(3) in auto)
  have put: "put_slot (mem s) ?k sl = mem s" using sl(2) by (rule put_slot_same)
  have res: "q' = put_slot (mem s) ?k sl" "th' = Popping (PopPublish w x)" "mem_cell ?k (shared s) (views s i) = (M', V')"
    using assms(2-4) sl put by (auto simp: slot_access_some slot_defs value_at_get fresh_def split: prod.splits)
  show ?thesis
    unfolding res(1,2) using assms(3) sl put
    by (intro simulated_cell [OF assms(1) sl(1) res(3)]) auto
qed

lemma pop_step_publish:
  assumes "related s a h" "threads s i = Popping (PopPublish w y)"
    "pop_at (mem s) h (items a) (views s i) p x (PopPublish w y) (stats a i)"
    "performs std weak lag s i (q', M', V', th')"
  shows "simulated (move s i q' M' V' th') a h"
proof -
  let ?q = "mem s :: 'a queue"
  let ?k = "(p + capacity ?q) mod capacity ?q" and ?u = "enc_q ?q (p + capacity ?q)"
  note bd = related_bounds [OF assms(1)]
  obtain sl where sl: "owns s i = Some ?k" "get_slot ?q ?k = Some sl" "index_of ?q w = ?k" "fresh (shared s) (views s i) ?k"
    by (rule claimed_slot [OF assms(1,2), of w p]) (use assms(3) in auto)
  have res: "q' = put_slot ?q ?k (stamp_store sl ?u)" "th' = Popping (PopRet (Some y))"
    "mem_store Release (Stamp ?k) ?u (shared s) (views s i) = (M', V')"
    using assms(2-4) sl bd(2) enc_plus_lap [OF bd(1), of p]
    by (auto simp: slot_access_some stamp_store_access_def fresh_def get_put_slot stamp_store_def split: prod.splits)
  obtain m where m: "M' = append_msg (Stamp ?k) m (shared s)" "msg_value m = ?u"
    "view_le (views s i) (msg_view m)" by (rule mem_store_append [OF res(3)]) simp
  show ?thesis
    unfolding res(1,2) m(1) using assms(3) sl bd m(2,3)
    by (intro simulated_stamp [OF assms(1)])
      (auto simp: slot_settled_def get_put_slot slot_update told_def)
qed

lemma pop_step_fence:
  assumes "related s a h" "threads s i = Popping (PopFence b w)"
    "pop_at (mem s) h (items a) (views s i) p x (PopFence b w) (stats a i)"
    "performs std weak lag s i (q', M', V', th')"
  shows "simulated (move s i q' M' V' th') a h"
proof -
  let ?q = "mem s :: 'a queue"
  let ?V = "mem_fence SeqCst (shared s) (views s i)"
  note wk = weak_okD [OF relatedD(2) [OF assms(1)]]
  have res: "q' = ?q" "M' = shared s" "V' = ?V" "th' = Popping (PopEmpty b w)" using assms(2,4) by auto
  have seen: "h + length (items a) \<le> seen ?V Tail"
    using fence_view_ge(2) [where M = "shared s" and V = "views s i"] wk(2) by (metis counter_log_def)
  have p: "p \<le> h" "waiting (capacity ?q) (items a) OpPop (stats a i)" using assms(3) by auto
  have "told (stats a i) (RetPop None)" if "p = seen ?V Tail"
  proof -
    have "length (items a) = 0" using that seen p(1) by linarith
    then show ?thesis by (intro waiting_told [OF p(2)]) simp
  qed
  then have "pop_at ?q h (items a) ?V p x (PopEmpty b w) (stats a i)"
    using assms(3) seen p by auto
  then show ?thesis
    unfolding res using assms(2) by (intro simulated_local [OF assms(1)]) (auto simp: owns_def)
qed

lemma pop_step_empty:
  assumes "related s a h" "threads s i = Popping (PopEmpty b w)"
    "pop_at (mem s) h (items a) (views s i) p x (PopEmpty b w) (stats a i)"
    "performs std weak lag s i (q', M', V', th')"
  shows "simulated (move s i q' M' V' th') a h"
proof -
  let ?q = "mem s :: 'a queue"
  note bd = related_bounds [OF assms(1)]
  have rd: "readable Relaxed Tail lag (shared s) (views s i)" using assms(2,4) by (auto split: if_splits)
  obtain n where n: "n \<le> h + length (items a)" "msg_value (read_msg Tail lag (shared s)) = enc_q ?q n"
    "seen (views s i) Tail \<le> n"
    by (rule counter_read [OF weak_okD(2) [OF relatedD(2) [OF assms(1)]] rd]) blast
  have res: "q' = ?q" "M' = shared s" "V' = read_view Relaxed Tail lag (shared s) (views s i)"
    "th' = Popping (if enc_q ?q n = w then PopRet None else PopLoad (fst (spin std b)))"
    using assms(2,4) rd n by auto
  have "told (stats a i) (RetPop None)" if "enc_q ?q n = w"
  proof -
    have "n = p" using that assms(3) n(1) enc_q_eq [OF bd(6), of n p] by simp
    then show ?thesis using assms(3) n(3) by auto
  qed
  then have "thread_ok ?q h (items a) V' th' (stats a i)" "own_index (one_lap ?q) th' = None" "claims ?q th' = None"
    using assms(3) by (auto simp: res)
  then have "simulated (move s i ?q (shared s) V' th') a h"
    using assms(2) by (intro simulated_local [OF assms(1)]) (simp_all add: owns_def res(3))
  then show ?thesis by (simp add: res(1,2))
qed

lemma pop_simulated:
  assumes "related s a h" "threads s i = Popping pc"
    "performs std weak lag s i (q', M', V', th')"
    "pop_at (mem s) h (items a) (views s i) p x pc (stats a i)"
  shows "simulated (move s i q' M' V' th') a h"
proof (cases pc)
  case pc: (PopLoad b)
  show ?thesis by (rule pop_step_load [OF assms(1) assms(2,4) [unfolded pc] assms(3)])
next
  case pc: (PopStamp b w)
  show ?thesis by (rule pop_step_stamp [OF assms(1) assms(2,4) [unfolded pc] assms(3)])
next
  case pc: (PopCas b w)
  show ?thesis by (rule pop_step_cas [OF assms(1) assms(2,4) [unfolded pc] assms(3)])
next
  case pc: (PopRead w)
  show ?thesis by (rule pop_step_read [OF assms(1) assms(2,4) [unfolded pc] assms(3)])
next
  case pc: (PopPublish w m)
  show ?thesis by (rule pop_step_publish [OF assms(1) assms(2,4) [unfolded pc] assms(3)])
next
  case pc: (PopFence b w)
  show ?thesis by (rule pop_step_fence [OF assms(1) assms(2,4) [unfolded pc] assms(3)])
next
  case pc: (PopEmpty b w)
  show ?thesis by (rule pop_step_empty [OF assms(1) assms(2,4) [unfolded pc] assms(3)])
qed (use assms(2-4) in auto)

section \<open>Steps of an observer\<close>

text \<open>Observers read the latest values.\<close>

lemma observer_reads:
  assumes "related s a h" "threads s i = Observing pc" "performs std weak lag s i (q', M', V', th')"
  shows "q' = mem s" "M' = shared s" "view_le (views s i) V'" "th' = Observing (obs_step (mem s) pc)"
proof -
  note wk = weak_okD [OF relatedD(2) [OF assms(1)]] and bd = related_bounds [OF assms(1)]
  have head: "msg_value (read_msg Head lag (shared s)) = head (mem s)"
    if rd: "readable SeqCst Head lag (shared s) (views s i)"
    by (rule counter_read [OF wk(1) rd]) (simp add: bd(4))
  have tail: "msg_value (read_msg Tail lag (shared s)) = tail (mem s)"
    if rd: "readable SeqCst Tail lag (shared s) (views s i)"
    by (rule counter_read [OF wk(2) rd]) (simp add: bd(5))
  obtain l where "obs_access pc = Load l SeqCst" "l = Head \<or> l = Tail"
    using assms(2,3) by (cases pc) auto
  then have rd: "readable SeqCst l lag (shared s) (views s i)"
    and V': "V' = read_view SeqCst l lag (shared s) (views s i)"
    and "q' = mem s" "M' = shared s" "th' = Observing (obs_step (poke (mem s) l (peek (mem s) l)) pc)"
    using assms(2,3) head tail by (auto split: if_splits)
  moreover have "poke (mem s) l (peek (mem s) l) = mem s" using \<open>l = Head \<or> l = Tail\<close> by auto
  ultimately show "q' = mem s" "M' = shared s" "view_le (views s i) V'" "th' = Observing (obs_step (mem s) pc)"
    by simp_all
qed

lemma obs_simulated:
  assumes "related s a h" "threads s i = Observing pc" "performs std weak lag s i (q', M', V', th')"
  shows "simulated (move s i q' M' V' th') a h"
proof -
  obtain p r where at: "obs_at (mem s) h (items a) p r pc (stats a i)"
    using sys_okD(2) [OF relatedD(1) [OF assms(1)], of i] assms(2) by auto
  note b = related_bounds [OF assms(1)] note q = b(6)
  have "\<exists>p r. obs_at (mem s) h (items a) p r (obs_step (mem s) pc) (stats a i)"
  proof (cases pc)
    case (EmptyTail w)
    have "tail (mem s) = w \<longleftrightarrow> h + length (items a) = p"
      using at EmptyTail b(5) enc_q_eq [OF q, of "h + length (items a)" p] by simp
    then show ?thesis
      using at EmptyTail waiting_told [of "capacity (mem s)" "items a" OpIsEmpty "stats a i"] by auto
  next
    case (FullHead w)
    have "head (mem s) + one_lap (mem s) = w \<longleftrightarrow> h + capacity (mem s) = p"
      using at FullHead b(4) enc_q_eq [OF q, of "h + capacity (mem s)" p] enc_plus_lap [OF b(1), of h] by simp
    then show ?thesis
      using at FullHead b(3) waiting_told [of "capacity (mem s)" "items a" OpIsFull "stats a i"] by auto
  next
    case (LenCheck w u)
    have eq: "tail (mem s) = w \<longleftrightarrow> h + length (items a) = p"
      using at LenCheck b(5) enc_q_eq [OF q, of "h + length (items a)" p] by simp
    have "span_len (capacity (mem s)) (one_lap (mem s)) u w = p - r" if "h + length (items a) = p"
      using at LenCheck that span_len_enc [OF b(1), of "p - r" r] queue_okD(3) [OF q] by (simp add: le_diff_conv)
    then show ?thesis using at LenCheck eq by auto
  next
    case (LenHead w)
    show ?thesis using at b LenHead waiting_told [of "capacity (mem s)" "items a" OpLen "stats a i"]
      by (intro exI [of _ p] exI [of _ h]) auto
  next
    case EmptyHead
    show ?thesis using at b EmptyHead waiting_told [of "capacity (mem s)" "items a" OpIsEmpty "stats a i"]
      by (intro exI [of _ h] exI [of _ r]) auto
  next
    case FullTail
    show ?thesis using at b FullTail waiting_told [of "capacity (mem s)" "items a" OpIsFull "stats a i"]
      by (intro exI [of _ "h + length (items a)"] exI [of _ r]) auto
  qed (use at b in auto)
  moreover note o = observer_reads [OF assms]
  moreover have "own_index (one_lap (mem s)) th' = None" "claims (mem s) th' = None" by (simp_all add: o(4))
  ultimately show ?thesis
    using simulated_local [OF assms(1), of V' th' i] assms(2) by (simp add: owns_def)
qed

section \<open>The simulation\<close>

lemma internal_simulated:
  assumes "related s a h" "h + length (items a) < 2 ^ 62" "performs std weak lag s i (q', M', V', th')"
  shows "simulated (move s i q' M' V' th') a h"
proof (cases "threads s i")
  case (Pushing pc)
  then obtain p x where "push_at (mem s) h (items a) (views s i) p x pc (stats a i)"
    using sys_okD(2) [OF relatedD(1) [OF assms(1)], of i] by auto
  then show ?thesis by (rule push_simulated [OF assms(1) Pushing assms(2,3)])
next
  case (Popping pc)
  then obtain p x where "pop_at (mem s) h (items a) (views s i) p x pc (stats a i)"
    using sys_okD(2) [OF relatedD(1) [OF assms(1)], of i] by auto
  then show ?thesis by (rule pop_simulated [OF assms(1) Popping assms(3)])
next
  case (Observing pc)
  then show ?thesis by (rule obs_simulated [OF assms(1) _ assms(3)])
qed (use assms(3) in simp)

lemma thread_moves:
  "s\<lparr>threads := (threads s)(i := th)\<rparr> = move s i (mem s) (shared s) (views s i) th"
  by simp

lemma call_simulated:
  assumes "related s a h" "threads s i = Idle"
  shows "\<exists>a'. delayed_step (capacity (mem s)) a (Call i c) a' \<and> items a' = items a \<and>
    related (s\<lparr>threads := (threads s)(i := start c)\<rparr>) a' h"
proof -
  have idle: "stats a i = DIdle" "owns s i = None"
    using sys_okD(2) [OF relatedD(1) [OF assms(1)], of i] assms(2) by (auto simp: owns_def)
  let ?st = "DWaiting c (answers (capacity (mem s)) (items a) c)"
  have "thread_ok (mem s) h (items a) (views s i) (start c) ?st" "own_index (one_lap (mem s)) (start c) = None"
    "claims (mem s) (start c) = None"
    by (cases c; auto simp: push_start_def pop_start_def waiting_def)+
  then have "related (s\<lparr>threads := (threads s)(i := start c)\<rparr>) (a\<lparr>stats := (stats a)(i := ?st)\<rparr>) h"
    unfolding thread_moves using idle by (intro related_local [OF assms(1)]) simp_all
  moreover have "delayed_step (capacity (mem s)) a (Call i c) (a\<lparr>stats := (stats a)(i := ?st)\<rparr>)"
    using d_call [of a i] idle by auto
  ultimately show ?thesis by (intro exI [of _ "a\<lparr>stats := (stats a)(i := ?st)\<rparr>"]) simp
qed

lemma returned_status:
  assumes "thread_ok q h xs V th st" "returned th = Some r"
  shows "own_index L th = None" "told st r"
  using assms by (induction th rule: returned.induct) auto

lemma return_simulated:
  assumes "related s a h" "returned (threads s i) = Some r"
  shows "\<exists>a'. delayed_step (capacity (mem s)) a (Return i r) a' \<and> items a' = items a \<and>
    related (s\<lparr>threads := (threads s)(i := Idle)\<rparr>) a' h"
proof -
  note st = returned_status [OF sys_okD(2) [OF relatedD(1) [OF assms(1)]] assms(2)]
  have "related (s\<lparr>threads := (threads s)(i := Idle)\<rparr>) (a\<lparr>stats := (stats a)(i := DIdle)\<rparr>) h"
    unfolding thread_moves using st(1) by (intro related_local [OF assms(1)]) (simp_all add: owns_def)
  moreover have "delayed_step (capacity (mem s)) a (Return i r) (a\<lparr>stats := (stats a)(i := DIdle)\<rparr>)"
    using st(2) by (auto simp: told_def intro: d_return d_answer)
  ultimately show ?thesis by (intro exI [of _ "a\<lparr>stats := (stats a)(i := DIdle)\<rparr>"]) simp
qed

lemma thread_step_shape:
  "capacity (fst (thread_step std weak q th)) = capacity q \<and> one_lap (fst (thread_step std weak q th)) = one_lap q"
proof (cases th)
  case (Pushing pc)
  then show ?thesis
    by (cases pc) (auto simp: compare_exchange_weak_def Let_def split: option.split push_kind.split rust_result.split)
next
  case (Popping pc)
  then show ?thesis
    by (cases pc) (auto simp: compare_exchange_weak_def Let_def split: option.split)
qed auto

lemma perform_shape:
  assumes "perform std weak lag q M V th acc = Some (q', M', V', th')"
  shows "capacity q' = capacity q \<and> one_lap q' = one_lap q"
  using assms thread_step_shape [of std weak q th] thread_step_shape [of std False q th]
  by (cases acc) (auto split: if_splits prod.splits)

lemma step_simulated:
  assumes "sys_step std s l s'" "related s a h" "h + length (items a) < 2 ^ 62"
  shows "\<exists>a' h'. related s' a' h' \<and> h' + length (items a') \<le> Suc (h + length (items a)) \<and>
    capacity (mem s') = capacity (mem s) \<and>
    (delayed_step (capacity (mem s)) a l a' \<or> l = Tau \<and> a' = a)"
  using assms(1)
proof cases
  case (call i c)
  then show ?thesis using call_simulated [OF assms(2), of i c] by fastforce
next
  case (return i r)
  then show ?thesis using return_simulated [OF assms(2), of i r] by fastforce
next
  case (internal weak lag i q' M' V' th')
  then show ?thesis
    using internal_simulated [OF assms(2,3) internal(3)] perform_shape [OF internal(3)]
    by (auto simp: simulated_def)
qed

definition initial_sys :: "nat \<Rightarrow> 'a sys \<Rightarrow> bool" where
  "initial_sys N s \<longleftrightarrow> (\<exists>q. new N = Some q \<and> s = init_sys q)"

definition ring_related :: "nat \<Rightarrow> nat \<Rightarrow> 'a sys \<Rightarrow> 'a dspec \<Rightarrow> bool" where
  "ring_related N n s a \<longleftrightarrow> (\<exists>h. related s a h \<and> h + length (items a) \<le> n) \<and> capacity (mem s) = N"

lemma init_related:
  assumes "new N = Some q"
  shows "related (init_sys q) init_delayed 0" "capacity q = N"
proof -
  have "0 < N" "N \<le> max_capacity" using assms by (auto simp: new_def split: if_splits)
  from new_repr [OF this, where 'a = 'a] have r: "repr q 0 []" "capacity q = N" using assms by auto
  note d = reprD [OF r(1)]
  show "capacity q = N" by (fact r(2))
  have "stamp_log q 0 0 j (first_log q (Stamp j))" if j: "j < capacity q" for j
  proof -
    from d(7) [of j] j obtain sl where "get_slot q j = Some sl" "stamp sl = enc_q q j"
      by (auto elim!: slot_settledE)
    then show ?thesis using j by (auto simp: stamp_log_def stamp_msg_def first_msg_def intro!: exI [of _ j])
  qed
  moreover have "sys_ok (init_sys q) init_delayed 0"
    using d by (auto simp: sys_ok_def init_sys_def init_delayed_def queue_ok_def owned_ok_def owns_def)
  ultimately show "related (init_sys q) init_delayed 0"
    using d(5,6) by (auto simp: related_def weak_ok_def init_sys_def init_delayed_def counter_log_def
        handed_over_def owns_def first_msg_def)
qed

interpretation ns: bounded_simulation "sys_step std" "delayed_step N" "ring_related N" "initial_sys N"
    init_delayed "2 ^ 62" for std N
proof
  show "ring_related N 0 s init_delayed" if "initial_sys N s" for s :: "'a sys"
    using that init_related by (auto simp: initial_sys_def ring_related_def init_sys_def init_delayed_def)
next
  fix n s a l and s' :: "'a sys"
  assume "ring_related N n s a" "n < 2 ^ 62" "sys_step std s l s'"
  moreover from this obtain h where "related s a h" "h + length (items a) \<le> n" "capacity (mem s) = N"
    by (auto simp: ring_related_def)
  ultimately show "\<exists>a'. ring_related N (Suc n) s' a' \<and> (delayed_step N a l a' \<or> l = Tau \<and> a' = a)"
    using step_simulated [of std s l s' a h] by (fastforce simp: ring_related_def)
qed

end
