(* ===== verification/Nure_Linear.thy ===== *)
theory Nure_Linear
  imports Nure_Step
begin

text \<open>
  What the two simulations give for the queue under any number of threads: every history is one of
  the atomic specification, no step is undefined behaviour, no two threads have access to one
  slot's payload, every payload handed to the queue leaves it exactly once, and the state
  between operations is that of the sequential theory. The last section shows the limits of the
  algorithm's progress: it is not obstruction-free.
\<close>

section \<open>Reachable states\<close>

lemma reachable_related:
  assumes "exec (sys_step std) (init_sys q) ls s" "new N = Some q" "length ls \<le> 2 ^ 62"
  obtains ls' a h where "exec (atomic_step N) init_spec ls' (atomic_of a)" "history ls' = history ls"
    "related s a h" "sys_ok s a h" "capacity (mem s) = N"
proof -
  have "initial_sys N (init_sys q)" using assms(2) by (auto simp: initial_sys_def)
  from ns.exec_related [OF assms(1) this assms(3)] obtain ms a h where
    "exec (delayed_step N) init_delayed ms a" "history ms = history ls" "related s a h" "capacity (mem s) = N"
    by (auto simp: ring_related_def)
  then show thesis using delayed_atomic [of N ms a] that relatedD(1) by metis
qed

lemma reachable_one_lap:
  assumes "exec (sys_step std) (init_sys q) ls s"
  shows "one_lap (mem s) = one_lap q"
  using assms
proof (induction rule: exec.induct)
  case (exec_snoc ls s l s')
  from exec_snoc.hyps(2) show ?case
  proof cases
    case (internal weak lag i q' M' V' th')
    then show ?thesis using exec_snoc.IH internal(2) perform_shape [OF internal(3)] by simp
  qed (use exec_snoc.IH in simp_all)
qed (simp add: init_sys_def)

text \<open>A state in which no thread owns a slot is a state of the sequential theory.\<close>

lemma unowned_repr:
  assumes "sys_ok s a h" "\<forall>i. owns s i = None"
  shows "repr (mem s) h (items a)"
  using queue_okD [OF sys_okD(1) [OF assms(1)]] owned_ok_settled [OF sys_okD(3) [OF assms(1)]] assms(2)
  by (auto simp: repr_def max_capacity_def)

lemma quiescent_repr:
  assumes "sys_ok s a h" "\<forall>i. threads s i = Idle"
  shows "repr (mem s) h (items a)" "stats a i = DIdle"
proof -
  show "repr (mem s) h (items a)" using unowned_repr [OF assms(1)] assms(2) by (simp add: owns_def)
  show "stats a i = DIdle" using sys_okD(2) [OF assms(1), of i] assms(2) by simp
qed

section \<open>Schedules\<close>

text \<open>Runs on a queue of capacity two: one that ends with all operations returned, in which an exchange
  fails spuriously and thread 1 reads a stamp that thread 0 has already replaced; one that stops in
  the middle of two pushes; and one with an observer in the middle of a \<open>force_push\<close>. \<open>solo i n\<close> is \<open>n\<close>
  steps of thread \<open>i\<close> that read the latest messages.\<close>

definition solo :: "nat \<Rightarrow> nat \<Rightarrow> 'a ring_move list" where
  "solo i n = replicate n (MStep i (False, 0))"

definition run_done :: "nat ring_move list" where
  "run_done = [MCall 0 (OpPush 7), MCall 1 OpPop] @ solo 0 2 @ solo 1 1 @ [MStep 0 (True, 0)] @ solo 0 4 @
     [MStep 1 (False, 1)] @ solo 1 7 @ [MReturn 1, MReturn 0, MCall 2 (OpForcePush 8)] @ solo 2 5 @ [MReturn 2]"

definition run_open :: "nat ring_move list" where
  "run_open = [MCall 0 (OpPush 7), MCall 1 (OpPush 8)] @ solo 0 3 @ solo 1 3"

definition run_replace :: "nat ring_move list" where
  "run_replace = [MCall 0 (OpPush 7)] @ solo 0 5 @ [MReturn 0, MCall 0 (OpPush 8)] @ solo 0 5 @
     [MReturn 0, MCall 0 (OpForcePush 9)] @ solo 0 4 @ [MCall 1 OpLen] @ solo 1 3 @ [MReturn 1]"

lemma sched_step_other: "sched_step std s m = Some (l, s') \<Longrightarrow> i \<noteq> mover m \<Longrightarrow> threads s' i = threads s i"
proof (induction m)
  case (MStep k x)
  then show ?case by (cases x) (auto split: option.splits)
qed (auto split: thread.splits option.splits)

lemma sched_run_other:
  "sched_run (sched_step std) s ms = Some (ls, s') \<Longrightarrow> i \<notin> mover ` set ms \<Longrightarrow> threads s' i = threads s i"
  by (rule sched_run_frame [where view = "\<lambda>s. threads s i", OF sched_step_other])

text \<open>A run with \<open>P\<close> of its labels and of the program counters of the first \<open>n\<close> threads.\<close>

definition run_with :: "nat ring_move list \<Rightarrow> nat \<Rightarrow> (nat ring_label list \<Rightarrow> nat thread list \<Rightarrow> bool) \<Rightarrow> bool" where
  "run_with ms n P = (case sched_run (sched_step False) (init_sys queue2) ms of
     None \<Rightarrow> False | Some (ls, s) \<Rightarrow> P ls (map (threads s) [0..<n]))"

lemma run_open_result: "run_with run_open 2
    (\<lambda>ls ths. ths = [Pushing (PushWrite KPush 7 0), Pushing (PushWrite KPush 8 1)])"
  by code_simp

lemma run_done_result: "run_with run_done 3 (\<lambda>ls ths. length ls = 27 \<and> ths = [Idle, Idle, Idle])"
  by code_simp

lemma run_withE:
  assumes "run_with ms n P"
  obtains ls s where "sched_run (sched_step False) (init_sys queue2) ms = Some (ls, s)"
    "exec (sys_step False) (init_sys queue2) ls s" "length ls = length ms" "P ls (map (threads s) [0..<n])"
  using assms sched_run_sound sched_run_length
  by (fastforce simp: run_with_def split: option.splits)

lemma run_done_exec:
  obtains ls s where "sched_run (sched_step False) (init_sys queue2) run_done = Some (ls, s)"
    "exec (sys_step False) (init_sys queue2) ls s" "length ls \<le> 2 ^ 62" "\<forall>i. threads s i = Idle"
proof -
  obtain ls s where r: "sched_run (sched_step False) (init_sys queue2) run_done = Some (ls, s)"
    "exec (sys_step False) (init_sys queue2) ls s" "length ls = 27" "map (threads s) [0..<3] = [Idle, Idle, Idle]"
    using run_withE [OF run_done_result] by metis
  have "threads s i = Idle" for i
  proof (cases "i < 3")
    case True
    then show ?thesis using r(4) by (auto simp: numeral_3_eq_3 upt_rec less_Suc_eq)
  next
    case False
    then have "i \<notin> mover ` set run_done" by (auto simp: run_done_def solo_def)
    then show ?thesis using sched_run_other [OF r(1)] by (simp add: init_sys_def)
  qed
  then show thesis using that r by simp
qed

lemma run_open_exec:
  obtains ls s where "sched_run (sched_step False) (init_sys queue2) run_open = Some (ls, s)"
    "exec (sys_step False) (init_sys queue2) ls s" "length ls \<le> 2 ^ 62"
    "threads s 0 = Pushing (PushWrite KPush 7 0)" "threads s 1 = Pushing (PushWrite KPush 8 1)"
proof -
  obtain ls s where r: "sched_run (sched_step False) (init_sys queue2) run_open = Some (ls, s)"
    "exec (sys_step False) (init_sys queue2) ls s" "length ls = length run_open"
    "map (threads s) [0..<2] = [Pushing (PushWrite KPush 7 0), Pushing (PushWrite KPush 8 1)]"
    by (rule run_withE [OF run_open_result])
  have "length ls = 8" using r(3) by (simp add: run_open_def solo_def)
  moreover have "[0..<2] = [0, 1 :: nat]" by (simp add: upt_rec)
  ultimately show thesis using that [OF r(1,2)] r(4) by simp
qed

section \<open>Progress\<close>

text \<open>
  A pusher that has claimed the position at the head and not yet published it: until it
  publishes, a \<open>pop\<close> cycles through its loop.
\<close>

definition claimed_head :: "'a queue \<Rightarrow> bool" where
  "claimed_head q \<longleftrightarrow> tail q \<noteq> head q \<and>
     (\<exists>s. get_slot q (index_of q (head q)) = Some s \<and> stamp s = head q)"

fun pop_waits :: "'a queue \<Rightarrow> 'a pop_pc \<Rightarrow> bool" where
  "pop_waits q (PopLoad b) = True"
| "pop_waits q (PopStamp b w) = (w = head q)"
| "pop_waits q (PopFence b w) = (w = head q)"
| "pop_waits q (PopEmpty b w) = (w = head q)"
| "pop_waits q _ = False"

lemma pop_waits_step:
  assumes "claimed_head q" "pop_waits q pc"
  shows "\<exists>pc'. pop_step std weak q pc = (q, pc') \<and> pop_waits q pc'"
  using assms by (cases pc) (auto simp: claimed_head_def slot_defs)

lemma pop_waits_forever:
  assumes "claimed_head q" "pop_waits q pc"
  shows "run_solo (pop_step std) pop_returned ws q pc = None"
  using assms(2)
proof (induction ws arbitrary: pc)
  case Nil
  then show ?case by (cases pc) auto
next
  case (Cons w ws)
  moreover have "pop_returned pc = None" using Cons.prems by (cases pc) auto
  ultimately show ?case using pop_waits_step [OF assms(1) Cons.prems, of std w] by auto
qed

lemma claimed_head_reachable:
  assumes "new N = Some q"
  shows "\<exists>ls s. exec (sys_step std) (init_sys q) ls s \<and> claimed_head (mem s)"
proof -
  have "0 < N" "N \<le> max_capacity" using assms by (auto simp: new_def split: if_splits)
  from new_repr [OF this, where 'a = 'a] have r: "repr q 0 []" using assms by auto
  note d = reprD [OF r]
  obtain sl where sl: "get_slot q (index_of q (tail q)) = Some sl" "stamp sl = tail q"
    by (rule repr_tail_room [OF r]) (use d(2) in auto)
  have eq: "head q = tail q" using d(5,6) by simp
  fix v :: 'a
  let ?ms = "[MCall 0 (OpPush v), MStep 0 (False, 0), MStep 0 (False, 0), MStep 0 (False, 0)]"
  let ?q = "q\<lparr>tail := next_of q (tail q)\<rparr>"
  have "\<exists>ls s. sched_run (sched_step std) (init_sys q) ?ms = Some (ls, s) \<and> mem s = ?q"
    using sl by (simp add: init_sys_def push_start_def slot_defs compare_exchange_weak_def slot_access_def
        stamp_load_access_def readable_def latest_def read_msg_def read_view_def see_def first_msg_def no_view_def
        get_put_slot put_slot_same mem_exchange_def Let_def)
  then have "\<exists>ls s. exec (sys_step std) (init_sys q) ls s \<and> mem s = ?q" using sched_run_sound by blast
  moreover have "next_of q (tail q) \<noteq> head q"
    using d(1,5,6) enc_eq [OF d(1), of 1 0] by (simp add: advance_enc)
  then have "claimed_head ?q" using sl eq by (auto simp: claimed_head_def)
  ultimately show ?thesis by metis
qed

section \<open>Properties\<close>

text \<open>The counter to which a thread's next step adds one.\<close>

fun incremented :: "'a thread \<Rightarrow> index option" where
  "incremented (Pushing (PushStamp k v b w)) = Some w"
| "incremented (Pushing (PushPublish k w)) = Some w"
| "incremented (Pushing (ForcePublish x w)) = Some w"
| "incremented (Popping (PopStamp b w)) = Some w"
| "incremented _ = None"

text \<open>C1: Linearizability. Every history of calls and returns that any number of threads can
  produce on a new queue, under any interleaving of their memory accesses, whatever stale values
  the orderings of the accesses let them read and whatever exchanges fail spuriously, is a history
  of the atomic bounded queue.\<close>

theorem linearizable:
  assumes "new N = Some q" "exec (sys_step std) (init_sys q) ls s" "length ls \<le> 2 ^ 62"
  shows "\<exists>ls' a. exec (atomic_step N) init_spec ls' a \<and> history ls' = history ls"
  using reachable_related [OF assms(2,1,3)] by metis

theorem linearizable_witness:
  "\<exists>ls s ls' a. sched_run (sched_step False) (init_sys queue2) run_done = Some (ls, s) \<and>
     exec (atomic_step 2) init_spec ls' a \<and> history ls' = history ls"
proof -
  obtain ls s where r: "sched_run (sched_step False) (init_sys queue2) run_done = Some (ls, s)"
    "exec (sys_step False) (init_sys queue2) ls s" "length ls \<le> 2 ^ 62"
    by (rule run_done_exec)
  from linearizable [OF new_two r(2,3)] r(1) show ?thesis by blast
qed

text \<open>C2: Payload safety. Once all operations have returned, the payloads that callers handed in
  are exactly those that callers got back and those whose destructor \<open>drop\<close> runs: nothing is
  lost, duplicated, leaked or dropped twice.\<close>

theorem no_loss_no_duplication:
  assumes "new N = Some q" "exec (sys_step std) (init_sys q) ls s" "length ls \<le> 2 ^ 62"
    "\<forall>i. threads s i = Idle"
  shows "\<exists>q' vs. drop_queue True (mem s) = Some (q', vs) \<and> total_in ls = total_out ls + mset vs"
proof -
  obtain ls' a h where a: "exec (atomic_step N) init_spec ls' (atomic_of a)" "history ls' = history ls" "sys_ok s a h"
    by (rule reachable_related [OF assms(2,1,3)]) blast
  note r = quiescent_repr [OF a(3) assms(4)]
  from spec_conserves [OF a(1)] obtain n where
    "total_in ls' = total_out ls' + mset (items a) + in_flight n (stats (atomic_of a))" by (auto simp: atomic_of_def)
  moreover have "in_flight n (stats (atomic_of a)) = {#}" using r(2) by (simp add: in_flight_def atomic_of_def)
  ultimately have "total_in ls = total_out ls + mset (contents (mem s))"
    using total_history [of ls] total_history [of ls'] a(2) repr_contents [OF r(1)] by simp
  then show ?thesis using drop_queue_contents [OF repr_wf [OF r(1)]] by blast
qed

theorem no_loss_no_duplication_witness:
  "\<exists>ls s q' vs. sched_run (sched_step False) (init_sys queue2) run_done = Some (ls, s) \<and>
     drop_queue True (mem s) = Some (q', vs) \<and> total_in ls = total_out ls + mset vs"
proof -
  obtain ls s where r: "sched_run (sched_step False) (init_sys queue2) run_done = Some (ls, s)"
    "exec (sys_step False) (init_sys queue2) ls s" "length ls \<le> 2 ^ 62" "\<forall>i. threads s i = Idle"
    by (rule run_done_exec)
  from no_loss_no_duplication [OF new_two r(2-4)] r(1) show ?thesis by blast
qed

text \<open>C4: Memory safety. No reachable state is one of undefined behaviour: no thread indexes
  beyond the buffer, reads a slot or a payload that is not initialised, or accesses a payload in a
  data race, although only the stamps' release stores and acquire loads order the accesses.\<close>

theorem no_undefined_behaviour:
  assumes "new N = Some q" "exec (sys_step std) (init_sys q) ls s" "length ls \<le> 2 ^ 62"
  shows "threads s i \<noteq> Pushing PushUB \<and> threads s i \<noteq> Popping PopUB"
proof -
  obtain ls' a h where "sys_ok s a h" by (rule reachable_related [OF assms(2,1,3)]) blast
  then show ?thesis using sys_okD(2) [of s a h i] by auto
qed

theorem no_undefined_behaviour_witness:
  "\<exists>ls s. sched_run (sched_step False) (init_sys queue2) run_open = Some (ls, s) \<and>
     threads s 0 \<noteq> Pushing PushUB \<and> threads s 0 \<noteq> Popping PopUB"
proof -
  obtain ls s where r: "sched_run (sched_step False) (init_sys queue2) run_open = Some (ls, s)"
    "exec (sys_step False) (init_sys queue2) ls s" "length ls \<le> 2 ^ 62"
    by (rule run_open_exec)
  from no_undefined_behaviour [OF new_two r(2,3), of 0] r(1) show ?thesis by blast
qed

text \<open>C12: The shape of the queue, on which the unchecked accesses to the buffer rely, is invariant: in every
  reachable state the buffer has \<open>N\<close> slots, all of them initialised, the lap is the smallest power of
  two above \<open>N\<close> that \<open>new\<close> computed, and both counters select slots of the buffer.\<close>

theorem queue_shape:
  assumes "new N = Some q" "exec (sys_step std) (init_sys q) ls s" "length ls \<le> 2 ^ 62"
  shows "capacity (mem s) = N \<and> one_lap_for (of_nat N) = Some (one_lap (mem s)) \<and>
    (\<forall>j. get_slot (mem s) j \<noteq> None \<longleftrightarrow> j < N) \<and>
    slot_index (one_lap (mem s)) (head (mem s)) < N \<and> slot_index (one_lap (mem s)) (tail (mem s)) < N"
proof -
  obtain ls' a h where a: "related s a h" "capacity (mem s) = N" by (rule reachable_related [OF assms(2,1,3)]) blast
  note d = queue_okD [OF sys_okD(1) [OF relatedD(1) [OF a(1)]]]
  have "get_slot (mem s) j \<noteq> None \<longleftrightarrow> j < N" for j
  proof (cases "j < N")
    case True
    then show ?thesis using related_slot [OF a(1), of j] a(2) by (metis mod_less option.distinct(1))
  qed (use a(2) in \<open>simp add: get_slot_def capacity_def\<close>)
  moreover have "one_lap_for (of_nat N) = Some (one_lap q)"
    using assms(1) by (auto simp: new_def split: if_splits option.splits)
  ultimately show ?thesis
    using a(2) d(2,6,7) slot_index_enc [OF d(1)] reachable_one_lap [OF assms(2)] by auto
qed

theorem queue_shape_witness:
  "\<exists>ls s. sched_run (sched_step False) (init_sys queue2) run_open = Some (ls, s) \<and>
     one_lap_for 2 = Some (one_lap (mem s)) \<and> get_slot (mem s) 1 \<noteq> None \<and> get_slot (mem s) 2 = None"
proof -
  obtain ls s where r: "sched_run (sched_step False) (init_sys queue2) run_open = Some (ls, s)"
    "exec (sys_step False) (init_sys queue2) ls s" "length ls \<le> 2 ^ 62"
    by (rule run_open_exec)
  note shape = queue_shape [OF new_two r(2,3)]
  then have "get_slot (mem s) 1 \<noteq> None \<longleftrightarrow> 1 < (2 :: nat)" "get_slot (mem s) 2 \<noteq> None \<longleftrightarrow> 2 < (2 :: nat)" by blast+
  then show ?thesis using shape r(1) by auto
qed

text \<open>C5: Exclusive access. A thread between its successful exchange and its publication of the
  stamp is the only one with access to that slot's payload.\<close>

theorem slot_ownership_exclusive:
  assumes "new N = Some q" "exec (sys_step std) (init_sys q) ls s" "length ls \<le> 2 ^ 62"
    "own_index (one_lap (mem s)) (threads s i) = Some k" "own_index (one_lap (mem s)) (threads s j) = Some k"
  shows "i = j \<and> k < N"
proof -
  obtain ls' a h where ok: "sys_ok s a h" "capacity (mem s) = N"
    by (rule reachable_related [OF assms(2,1,3)]) blast
  have "i = j" using sys_okD(3) [OF ok(1)] assms(4,5) by (auto simp: owned_ok_def owns_def)
  moreover have "k < N" using owned_stamp(1) [OF sys_okD(1,2) [OF ok(1)] assms(4)] ok(2) by simp
  ultimately show ?thesis by simp
qed

theorem slot_ownership_exclusive_witness:
  "\<exists>ls s k. sched_run (sched_step False) (init_sys queue2) run_open = Some (ls, s) \<and>
     own_index (one_lap (mem s)) (threads s 1) = Some k \<and> k < 2"
proof -
  obtain ls s where r: "sched_run (sched_step False) (init_sys queue2) run_open = Some (ls, s)"
    "exec (sys_step False) (init_sys queue2) ls s" "length ls \<le> 2 ^ 62"
    "threads s 1 = Pushing (PushWrite KPush 8 1)"
    by (rule run_open_exec)
  have "own_index (one_lap (mem s)) (threads s 1) = Some (slot_index (one_lap (mem s)) 1)"
    using r(4) by simp
  with slot_ownership_exclusive [OF new_two r(2,3) this this] r(1) show ?thesis by blast
qed

text \<open>C10: Overflow. The counters that \<open>push_or_else\<close> and \<open>pop\<close> increment with a plain addition of
  one (\<open>tail + 1\<close>, \<open>head + 1\<close>) never overflow, so no debug build panics there.\<close>

theorem increments_never_overflow:
  assumes "new N = Some q" "exec (sys_step std) (init_sys q) ls s" "length ls \<le> 2 ^ 62"
    "incremented (threads s i) = Some w"
  shows "unat w + 1 < 2 ^ 64"
proof -
  obtain ls' a h where "sys_ok s a h" by (rule reachable_related [OF assms(2,1,3)]) blast
  then have "lap_ok (capacity (mem s)) (one_lap (mem s))" "\<exists>p. w = enc_q (mem s) p"
    using sys_okD(2) [of s a h i] queue_okD(1) [OF sys_okD(1)] assms(4)
    by (auto elim!: incremented.elims)
  then show ?thesis using enc_plus_one_no_overflow by blast
qed

theorem increments_never_overflow_witness:
  "\<exists>s. sched_run (sched_step False) (init_sys queue2) [MCall 0 (OpPush 7), MStep 0 (False, 0)] =
       Some ([Call 0 (OpPush 7), Tau], s) \<and> incremented (threads s 0) = Some 0 \<and>
     unat (0 :: index) + 1 < 2 ^ 64"
proof -
  let ?ms = "[MCall 0 (OpPush 7), MStep 0 (False, 0)] :: nat ring_move list"
  obtain s where r: "sched_run (sched_step False) (init_sys queue2) ?ms = Some ([Call 0 (OpPush 7), Tau], s)"
    "incremented (threads s 0) = Some 0"
    by (simp add: init_sys_def push_start_def readable_def latest_def no_view_def read_msg_def first_msg_def)
  from increments_never_overflow [OF new_two sched_run_sound [OF r(1)] _ r(2)] r show ?thesis by simp
qed



text \<open>C11: Between operations the queue is well-formed: in a reachable state in which no thread is inside
  an operation the invariant of sequential use holds, with at most \<open>N\<close> elements, so that all results
  on sequential use apply from there on.\<close>

theorem quiescent_well_formed:
  assumes "new N = Some q" "exec (sys_step std) (init_sys q) ls s" "length ls \<le> 2 ^ 62"
    "\<forall>i. threads s i = Idle"
  shows "wf_queue (mem s) \<and> capacity (mem s) = N \<and> length (contents (mem s)) \<le> N"
proof -
  obtain ls' a h where a: "sys_ok s a h" "capacity (mem s) = N"
    by (rule reachable_related [OF assms(2,1,3)]) blast
  note r = quiescent_repr(1) [OF a(1) assms(4)]
  show ?thesis using repr_wf [OF r] repr_contents [OF r] reprD(4) [OF r] a(2) by simp
qed

theorem quiescent_well_formed_witness:
  "\<exists>ls s. sched_run (sched_step False) (init_sys queue2) run_done = Some (ls, s) \<and> wf_queue (mem s)"
proof -
  obtain ls s where r: "sched_run (sched_step False) (init_sys queue2) run_done = Some (ls, s)"
    "exec (sys_step False) (init_sys queue2) ls s" "length ls \<le> 2 ^ 62" "\<forall>i. threads s i = Idle"
    by (rule run_done_exec)
  from quiescent_well_formed [OF new_two r(2-4)] r(1) show ?thesis by blast
qed

text \<open>A \<open>force_push\<close> that replaces is not one atomic action: there is a run on a full queue of
  capacity two in which another thread's \<open>len\<close> returns one while a \<open>force_push\<close> is under way, and no
  other operation is.\<close>

theorem force_push_not_atomic:
  "\<exists>ls s. exec (sys_step False) (init_sys queue2) ls s \<and>
     history ls = [Call 0 (OpPush 7), Return 0 (RetPush (Ok ())), Call 0 (OpPush 8), Return 0 (RetPush (Ok ())),
       Call 0 (OpForcePush 9), Call 1 OpLen, Return 1 (RetLen 1)]"
proof -
  have "run_with run_replace 0 (\<lambda>ls _. history ls = [Call 0 (OpPush 7), Return 0 (RetPush (Ok ())),
      Call 0 (OpPush 8), Return 0 (RetPush (Ok ())), Call 0 (OpForcePush 9), Call 1 OpLen, Return 1 (RetLen 1)])"
    by code_simp
  then show ?thesis by (rule run_withE) blast
qed

end
