(* ===== verification/Nure_Client.thy ===== *)
theory Nure_Client
  imports Nure_Linear
begin

text \<open>
  What concurrent clients of the Vyukov queue may conclude, whatever the interleaving. The two
  directions of the issue that the tests \<^verbatim>\<open>src/tests/repro583.rs\<close> and \<^verbatim>\<open>src/tests/smoke.rs\<close> reproduce:
  clients that put back what they took never find the queue full, and clients that take after they
  put never find it empty.
\<close>

section \<open>Counting clients\<close>

text \<open>C13: heapless issue 583, first direction. If at no time the clients have handed in more than \<open>N\<close>
  payloads that they have not got back (as when each thread takes an element from a full queue and
  puts it back), then no \<open>push\<close> is refused, however the threads interleave.\<close>

theorem push_never_refused:
  assumes "new N = Some q" "exec (sys_step std) (init_sys q) ls s" "length ls \<le> 2 ^ 62"
    "\<And>k. size (total_in (take k ls)) \<le> N + size (total_out (take k ls))"
  shows "Return i (RetPush (Err v)) \<notin> set ls"
proof -
  obtain ls' a h where a: "exec (atomic_step N) init_spec ls' (atomic_of a)" "history ls' = history ls"
    by (rule reachable_related [OF assms(2,1,3)]) blast
  have "size (total_in (take k ls')) \<le> N + size (total_out (take k ls'))" for k
  proof -
    obtain k' where "history (take k ls') = history (take k' ls)" by (rule take_same_history [OF a(2)])
    then show ?thesis using assms(4) [of k'] total_history [of "take k ls'"] total_history [of "take k' ls"] by simp
  qed
  from no_refusal [OF a(1) this] history_member [of "Return i (RetPush (Err v))"] a(2) show ?thesis
    by (metis label.distinct(5))
qed

theorem push_never_refused_witness:
  "\<exists>ls s. sched_run (sched_step False) (init_sys queue2) run_done = Some (ls, s) \<and>
     Return 0 (RetPush (Err 7)) \<notin> set ls"
proof -
  have "run_with run_done 0 (\<lambda>ls _. history ls = [Call 0 (OpPush 7), Call 1 OpPop, Return 1 (RetPop (Some 7)),
      Return 0 (RetPush (Ok ())), Call 2 (OpForcePush 8), Return 2 (RetForce None)])"
    by code_simp
  then obtain ls s where r: "sched_run (sched_step False) (init_sys queue2) run_done = Some (ls, s)"
    "exec (sys_step False) (init_sys queue2) ls s" "length ls = length run_done"
    "history ls = [Call 0 (OpPush 7), Call 1 OpPop, Return 1 (RetPop (Some 7)),
      Return 0 (RetPush (Ok ())), Call 2 (OpForcePush 8), Return 2 (RetForce None)]"
    by (rule run_withE)
  have "size (total_in (take k ls)) \<le> 2 + size (total_out (take k ls))" for k
  proof (rule take_of_history)
    fix m
    assume "m \<le> length (history ls)"
    then consider "m = 0" | "m = 1" | "m = 2" | "m = 3" | "m = 4" | "m = 5" | "m = 6"
      using r(4) by (auto simp: numeral_eq_Suc le_Suc_eq)
    then show "size (total_in (take m (history ls))) \<le> 2 + size (total_out (take m (history ls)))"
      by cases (simp_all add: r(4) total_in_def total_out_def)
  qed simp
  moreover have "length ls \<le> 2 ^ 62" using r(3) by (simp add: run_done_def solo_def)
  ultimately show ?thesis using push_never_refused [OF new_two r(2), of 0 7] r(1) by blast
qed

text \<open>C14: heapless issue 583, second direction. If no \<open>force_push\<close> is called and at no time more pops
  have been called than pushes have returned with success (as when each thread puts an element and
  then takes one), then no \<open>pop\<close> finds the queue empty, however the threads interleave.\<close>

theorem pop_never_empty:
  assumes "new N = Some q" "exec (sys_step std) (init_sys q) ls s" "length ls \<le> 2 ^ 62"
    "no_force ls" "\<And>k. pops_called (take k ls) \<le> pushes_accepted (take k ls)"
  shows "Return i (RetPop None) \<notin> set ls"
proof -
  obtain ls' a h where a: "exec (atomic_step N) init_spec ls' (atomic_of a)" "history ls' = history ls"
    by (rule reachable_related [OF assms(2,1,3)]) blast
  have "pops_called (take k ls') \<le> pushes_accepted (take k ls')" for k
  proof -
    obtain k' where "history (take k ls') = history (take k' ls)" by (rule take_same_history [OF a(2)])
    then show ?thesis using assms(5) [of k'] counts_history [of "take k ls'"] counts_history [of "take k' ls"] by simp
  qed
  moreover have "no_force ls'" using assms(4) a(2) counts_history(3) by metis
  ultimately show ?thesis
    using no_empty_pop [OF a(1), of i] history_member [of "Return i (RetPop None)"] a(2) by (metis label.distinct(5))
qed

text \<open>Two threads that each put an element and take one, on a queue of capacity two; the second
  thread's \<open>pop\<close> first reads a stale stamp.\<close>

definition run_pairs :: "nat ring_move list" where
  "run_pairs = [MCall 0 (OpPush 7), MCall 1 (OpPush 8)] @ solo 0 3 @ solo 1 5 @ [MReturn 1, MCall 1 OpPop] @
     solo 1 1 @ solo 0 2 @ [MReturn 0, MStep 1 (False, 1), MCall 0 OpPop] @ solo 1 7 @ [MReturn 1] @
     solo 0 5 @ [MReturn 0]"

theorem pop_never_empty_witness:
  "\<exists>ls s. sched_run (sched_step False) (init_sys queue2) run_pairs = Some (ls, s) \<and> Return 1 (RetPop None) \<notin> set ls"
proof -
  have "run_with run_pairs 0 (\<lambda>ls _. no_force ls \<and>
    (\<forall>k\<in>set [0..<Suc (length ls)]. pops_called (take k ls) \<le> pushes_accepted (take k ls)))"
    by code_simp
  then obtain ls s where r: "sched_run (sched_step False) (init_sys queue2) run_pairs = Some (ls, s)"
    "exec (sys_step False) (init_sys queue2) ls s" "length ls = length run_pairs"
    "no_force ls \<and> (\<forall>k\<in>set [0..<Suc (length ls)]. pops_called (take k ls) \<le> pushes_accepted (take k ls))"
    by (rule run_withE)
  have "pops_called (take k ls) \<le> pushes_accepted (take k ls)" for k
    using r(4) by (cases "k \<le> length ls") (auto dest: bspec [of _ _ "length ls"])
  moreover have "length ls \<le> 2 ^ 62" using r(3) by (simp add: run_pairs_def solo_def)
  ultimately show ?thesis
    using pop_never_empty [OF new_two r(2), of 1] r(1,4) by blast
qed

end
