(* ===== verification/Nure_Order.thy ===== *)
theory Nure_Order
  imports Nure_Client "HOL-Library.Sublist"
begin

text \<open>
  First-in first-out order between threads: whatever the interleaving, each consumer gets the payloads of
  each producer in the order in which that producer handed them in. The order is proved of
  the atomic specification, with the list of all payloads removed so far as a ghost, and carried over.
\<close>

section \<open>What a thread sends and receives\<close>

fun sends :: "nat \<Rightarrow> 'a ring_label \<Rightarrow> 'a list" where
  "sends i (Call k (OpPush v)) = (if k = i then [v] else [])"
| "sends i (Call k (OpForcePush v)) = (if k = i then [v] else [])"
| "sends i _ = []"

fun receives :: "nat \<Rightarrow> 'a ring_label \<Rightarrow> 'a list" where
  "receives j (Return k (RetPop (Some v))) = (if k = j then [v] else [])"
| "receives j (Return k (RetForce (Some v))) = (if k = j then [v] else [])"
| "receives j _ = []"

definition sent_by :: "nat \<Rightarrow> 'a ring_label list \<Rightarrow> 'a list" where
  "sent_by i ls = concat (map (sends i) ls)"

definition received_by :: "nat \<Rightarrow> 'a ring_label list \<Rightarrow> 'a list" where
  "received_by j ls = concat (map (receives j) ls)"

lemma order_history [simp]: "sent_by i (history ls) = sent_by i ls" "received_by j (history ls) = received_by j ls"
  by (induction ls) (auto simp: sent_by_def received_by_def)

lemma order_snoc [simp]:
  "sent_by i [] = []" "sent_by i (ls @ [l]) = sent_by i ls @ sends i l"
  "received_by j [] = []" "received_by j (ls @ [l]) = received_by j ls @ receives j l"
  by (simp_all add: sent_by_def received_by_def)

text \<open>The payload that an operation under way will insert, and the one that it will return.\<close>

fun to_insert :: "'a astat \<Rightarrow> 'a list" where
  "to_insert (APending (OpPush v)) = [v]"
| "to_insert (APending (OpForcePush v)) = [v]"
| "to_insert (AReplacing v x) = [v]"
| "to_insert _ = []"

fun to_return :: "'a astat \<Rightarrow> 'a list" where
  "to_return (AReplacing v x) = [x]"
| "to_return (ALin (RetPop (Some x))) = [x]"
| "to_return (ALin (RetForce (Some x))) = [x]"
| "to_return _ = []"

lemma to_return_cases:
  obtains (pop) v where "r = RetPop (Some v)" | (force) v where "r = RetForce (Some v)"
  | (none) "\<And>i. to_return (ALin r) = []" "\<And>j k. receives j (Return k r) = []"
proof (cases r)
  case (RetPop x)
  then show thesis using that by (cases x) auto
next
  case (RetForce x)
  then show thesis using that by (cases x) auto
qed (use that in auto)

section \<open>Order in the atomic specification\<close>

text \<open>With \<open>R\<close> the payloads removed so far, the payloads inserted so far are \<open>R\<close> followed by the items.\<close>

definition in_order :: "('a \<Rightarrow> nat) \<Rightarrow> 'a ring_label list \<Rightarrow> 'a aspec \<Rightarrow> 'a list \<Rightarrow> bool" where
  "in_order from ls a R \<longleftrightarrow>
     (\<forall>i. subseq (filter (\<lambda>v. from v = i) (R @ items a) @ to_insert (stats a i)) (sent_by i ls)) \<and>
     (\<forall>j. subseq (received_by j ls @ to_return (stats a j)) R)"

lemma in_orderI:
  assumes "\<And>i. subseq (filter (\<lambda>v. from v = i) (R @ items a) @ to_insert (stats a i)) (sent_by i ls)"
    "\<And>j. subseq (received_by j ls @ to_return (stats a j)) R"
  shows "in_order from ls a R"
  using assms by (simp add: in_order_def)

lemma in_orderD:
  assumes "in_order from ls a R"
  shows "subseq (filter (\<lambda>v. from v = i) (R @ items a) @ to_insert (stats a i)) (sent_by i ls)"
    "subseq (received_by j ls @ to_return (stats a j)) R"
  using assms by (simp_all add: in_order_def)

lemma subseq_drop_suffix: "subseq (xs @ ys) zs \<Longrightarrow> subseq xs zs"
  by (rule subseq_order.trans [OF prefix_imp_subseq]) auto

text \<open>One action of thread \<open>k\<close> that removes \<open>out\<close> from the front of the items and appends \<open>ins\<close>.\<close>

lemma in_order_action:
  assumes ord: "in_order from ls a R" and tags: "\<And>i v. v \<in> set (sent_by i ls) \<Longrightarrow> from v = i"
    and items: "out @ items a' = items a @ ins" and stats: "stats a' = (stats a)(k := st)"
    and ins: "ins @ to_insert st = to_insert (stats a k) \<or> ins @ to_insert st = []"
    and ret: "to_return st = to_return (stats a k) @ out"
  shows "in_order from ls a' (R @ out)"
proof (rule in_orderI)
  have own: "from v = k" if "v \<in> set ins" for v
  proof -
    have "v \<in> set (to_insert (stats a k))" using ins that by (metis UnCI append_is_Nil_conv empty_iff list.set(1) set_append)
    then have "v \<in> set (sent_by k ls)" using list_emb_set [OF in_orderD(1) [OF ord, of k], of v] by auto
    then show ?thesis by (rule tags)
  qed
  fix i
  note prev = in_orderD(1) [OF ord, of i]
  have eq: "(R @ out) @ items a' = (R @ items a) @ ins" using items by simp
  show "subseq (filter (\<lambda>v. from v = i) ((R @ out) @ items a') @ to_insert (stats a' i)) (sent_by i ls)"
  proof (cases "i = k")
    case True
    have "filter (\<lambda>v. from v = k) ins = ins" using own by (simp add: filter_id_conv)
    then have "filter (\<lambda>v. from v = i) ((R @ out) @ items a') @ to_insert (stats a' i) =
        filter (\<lambda>v. from v = i) (R @ items a) @ ins @ to_insert st"
      unfolding eq using True stats by simp
    then show ?thesis using ins prev True subseq_drop_suffix by (metis append_Nil2)
  next
    case False
    then have "filter (\<lambda>v. from v = i) ins = []" using own by (auto simp: filter_empty_conv)
    then show ?thesis unfolding eq using prev stats False by simp
  qed
next
  fix j
  show "subseq (received_by j ls @ to_return (stats a' j)) (R @ out)"
  proof (cases "j = k")
    case True
    then show ?thesis using in_orderD(2) [OF ord, of k] stats ret by (simp flip: append_assoc)
  next
    case False
    then show ?thesis using in_orderD(2) [OF ord, of j] stats by (auto intro: subseq_order.trans)
  qed
qed

lemma in_order_tau: "in_order from ls a R \<Longrightarrow> in_order from (ls @ [Tau]) a R"
  by (simp add: in_order_def)

text \<open>What an operation that takes effect in one action moves.\<close>

lemma apply_moves:
  assumes "vec_deque N xs c = (xs', r)" "r \<notin> range (\<lambda>x. RetForce (Some x))"
  obtains out ins where "out @ xs' = xs @ ins" "to_return (ALin r) = out"
    "ins = to_insert (APending c) \<or> ins = []" "to_return (APending c) = []"
proof -
  have "\<exists>out ins. out @ xs' = xs @ ins \<and> to_return (ALin r) = out \<and>
      (ins = to_insert (APending c) \<or> ins = []) \<and> to_return (APending c) = []"
    using assms by (cases c) (auto split: if_splits list.splits)
  then show thesis using that by blast
qed

lemma in_order_step:
  assumes "in_order from ls a R" "\<And>i v. v \<in> set (sent_by i (ls @ [l])) \<Longrightarrow> from v = i"
    "atomic_step N a l a'"
  shows "\<exists>R'. in_order from (ls @ [l]) a' R'"
proof -
  have tags: "from v = i" if "v \<in> set (sent_by i ls)" for i v using assms(2) that by simp
  note act = in_order_action [OF assms(1) tags]
  from assms(3) show ?thesis
  proof cases
    case (a_call k c)
    have ends: "to_insert (APending c) = sends k (Call k c)" "to_return (APending c) = []" by (cases c; simp)+
    have other: "sends i (Call k c) = []" if "i \<noteq> k" for i using that by (cases c) auto
    show ?thesis
    proof (intro exI [of _ R] in_orderI)
      show "subseq (filter (\<lambda>v. from v = i) (R @ items a') @ to_insert (stats a' i)) (sent_by i (ls @ [l]))" for i
        using in_orderD(1) [OF assms(1), of i] a_call ends other [of i]
        by (cases "i = k") (simp_all flip: append_assoc filter_append)
      show "subseq (received_by j (ls @ [l]) @ to_return (stats a' j)) R" for j
        using in_orderD(2) [OF assms(1), of j] a_call ends by (cases "j = k") simp_all
    qed
  next
    case (a_apply k c xs' r)
    obtain out ins where io: "out @ xs' = items a @ ins" "to_return (ALin r) = out"
      "ins = to_insert (APending c) \<or> ins = []" "to_return (APending c) = []"
      by (rule apply_moves [OF a_apply(4,5)]) blast
    then have "in_order from ls a' (R @ out)"
      using a_apply by (intro act [where k = k and ins = ins]) auto
    then show ?thesis using a_apply(1) in_order_tau by blast
  next
    case (a_remove k v x xs')
    then have "in_order from ls a' (R @ [x])" by (intro act [where k = k and ins = "[]"]) auto
    then show ?thesis using a_remove(1) in_order_tau by blast
  next
    case (a_insert k v x xs')
    then have "in_order from ls a' (R @ [])" by (intro act [where k = k and ins = "[v]"]) auto
    then show ?thesis using a_insert(1) in_order_tau by blast
  next
    case (a_return k r)
    have ends: "receives k (Return k r) = to_return (ALin r)" by (cases r rule: to_return_cases) auto
    have other: "receives j (Return k r) = []" if "j \<noteq> k" for j using that by (cases r rule: to_return_cases) auto
    show ?thesis
    proof (intro exI [of _ R] in_orderI)
      show "subseq (filter (\<lambda>v. from v = i) (R @ items a') @ to_insert (stats a' i)) (sent_by i (ls @ [l]))" for i
        using in_orderD(1) [OF assms(1), of i] a_return by (cases "i = k") simp_all
      show "subseq (received_by j (ls @ [l]) @ to_return (stats a' j)) R" for j
        using in_orderD(2) [OF assms(1), of j] a_return ends other [of j] by (cases "j = k") simp_all
    qed
  qed
qed

lemma spec_in_order:
  assumes "exec (atomic_step N) init_spec ls a" "\<And>i v. v \<in> set (sent_by i ls) \<Longrightarrow> from v = i"
  shows "\<exists>R. in_order from ls a R"
  using assms
proof induction
  case exec_nil
  show ?case by (intro exI [of _ "[]"] in_orderI) (simp_all add: init_spec_def)
next
  case (exec_snoc ls a l a')
  then obtain R where "in_order from ls a R" by fastforce
  then show ?case using in_order_step exec_snoc.prems exec_snoc.hyps(2) by fast
qed

lemma spec_producer_order:
  assumes "exec (atomic_step N) init_spec ls a" "\<And>i v. v \<in> set (sent_by i ls) \<Longrightarrow> from v = i"
  shows "subseq (filter (\<lambda>v. from v = i) (received_by j ls)) (sent_by i ls)"
proof -
  obtain R where R: "in_order from ls a R" using spec_in_order [of N ls a "from"] assms by blast
  have "subseq (received_by j ls) (R @ items a)"
    using subseq_drop_suffix [OF in_orderD(2) [OF R]] by (rule subseq_order.trans) (simp add: prefix_imp_subseq)
  then have "subseq (filter (\<lambda>v. from v = i) (received_by j ls)) (filter (\<lambda>v. from v = i) (R @ items a))"
    by (rule subseq_filter)
  then show ?thesis using subseq_drop_suffix [OF in_orderD(1) [OF R]] by (rule subseq_order.trans)
qed

text \<open>C3: First-in first-out between threads. If the payloads tell which thread handed them in, then
  under every interleaving each thread gets the payloads of each other thread in the order in which that
  thread handed them to \<open>push\<close> and \<open>force_push\<close>, whether by \<open>pop\<close> or as the element that a
  \<open>force_push\<close> replaced, and none of them twice.\<close>

theorem per_producer_order:
  assumes "new N = Some q" "exec (sys_step std) (init_sys q) ls s" "length ls \<le> 2 ^ 62"
    "\<And>k v. v \<in> set (sent_by k ls) \<Longrightarrow> from v = k"
  shows "subseq (filter (\<lambda>v. from v = i) (received_by j ls)) (sent_by i ls)"
proof -
  obtain ls' a h where a: "exec (atomic_step N) init_spec ls' (atomic_of a)" "history ls' = history ls"
    by (rule reachable_related [OF assms(2,1,3)]) blast
  then have "sent_by k ls' = sent_by k ls" "received_by k ls' = received_by k ls" for k by (metis order_history)+
  then show ?thesis using spec_producer_order [OF a(1), of "from" i j] assms(4) by simp
qed

text \<open>Thread 0 puts 2 and 4 into a queue of capacity two; thread 1 replaces 2 by 3, then takes 4.
  Even payloads are thread 0's.\<close>

definition run_order :: "nat ring_move list" where
  "run_order = [MCall 0 (OpPush 2)] @ solo 0 5 @ [MReturn 0, MCall 0 (OpPush 4), MCall 1 (OpForcePush 3)] @
     solo 0 5 @ solo 1 7 @ [MReturn 1, MCall 1 OpPop, MReturn 0] @ solo 1 5 @ [MReturn 1]"

theorem per_producer_order_witness:
  "\<exists>ls s. sched_run (sched_step False) (init_sys queue2) run_order = Some (ls, s) \<and>
     received_by 1 ls = [2, 4] \<and> sent_by 0 ls = [2, 4] \<and> sent_by 1 ls = [3] \<and>
     subseq (filter (\<lambda>v. v mod 2 = 0) (received_by 1 ls)) (sent_by 0 ls)"
proof -
  let ?h = "[Call 0 (OpPush 2), Return 0 (RetPush (Ok ())), Call 0 (OpPush 4), Call 1 (OpForcePush 3),
      Return 1 (RetForce (Some 2)), Call 1 OpPop, Return 0 (RetPush (Ok ())), Return 1 (RetPop (Some 4))]"
  have "run_with run_order 0 (\<lambda>ls _. history ls = ?h)" by code_simp
  then obtain ls s where r: "sched_run (sched_step False) (init_sys queue2) run_order = Some (ls, s)"
    "exec (sys_step False) (init_sys queue2) ls s" "length ls = length run_order" "history ls = ?h"
    by (rule run_withE)
  have sent: "sent_by k ls = sent_by k ?h" "received_by k ls = received_by k ?h" for k
    using order_history [of k ls] r(4) by simp_all
  then have "v mod 2 = k" if "v \<in> set (sent_by k ls)" for k v
    using that by (auto simp: sent_by_def split: if_splits)
  moreover have "length ls \<le> 2 ^ 62" using r(3) by (simp add: run_order_def solo_def)
  ultimately have "subseq (filter (\<lambda>v. v mod 2 = 0) (received_by 1 ls)) (sent_by 0 ls)"
    using per_producer_order [OF new_two r(2), of "\<lambda>v. v mod 2" 0 1] by blast
  then show ?thesis using sent [of 0] sent [of 1] r(1) by (simp add: sent_by_def received_by_def)
qed

end
