(* ===== verification/Nure_Progress.thy ===== *)
theory Nure_Progress
  imports Nure_Linear
begin

text \<open>
  Progress of the Vyukov queue. A thread that runs alone returns within a few steps, unless
  another thread is suspended between its exchange and its publication of a stamp; and from every
  reachable state all operations under way can be completed. (The theory \<open>Nure_Linear\<close> has the limit:
  with a thread so suspended, another one may spin forever.)
\<close>

section \<open>Views of reachable states\<close>

definition views_in :: "'a sys \<Rightarrow> bool" where
  "views_in s \<longleftrightarrow> logs_ok (shared s) \<and> (\<forall>i. in_logs (shared s) (views s i))"

lemma related_logs:
  assumes "related s a h"
  shows "log (shared s) Head \<noteq> []" "log (shared s) Tail \<noteq> []"
    "j < capacity (mem s) \<Longrightarrow> log (shared s) (Stamp j) \<noteq> []"
    "msg_value (last (log (shared s) Head)) = head (mem s)" "msg_value (last (log (shared s) Tail)) = tail (mem s)"
    "j < capacity (mem s) \<Longrightarrow> msg_value (last (log (shared s) (Stamp j))) = peek (mem s) (Stamp j)"
proof -
  note w = weak_okD [OF relatedD(2) [OF assms]] and b = queue_okD [OF sys_okD(1) [OF relatedD(1) [OF assms]]]
  show ne: "log (shared s) Head \<noteq> []" "log (shared s) Tail \<noteq> []" using w(1,2) by (auto simp: counter_log_def)
  show "j < capacity (mem s) \<Longrightarrow> log (shared s) (Stamp j) \<noteq> []"
    "j < capacity (mem s) \<Longrightarrow> msg_value (last (log (shared s) (Stamp j))) = peek (mem s) (Stamp j)"
    using w(3) by (auto simp: stamp_log_def)
  show "msg_value (last (log (shared s) Head)) = head (mem s)" "msg_value (last (log (shared s) Tail)) = tail (mem s)"
    using w(1,2) b(6,7) ne by (auto simp: counter_log_def last_conv_nth)
qed

text \<open>Accesses of threads are to locations of the queue.\<close>

fun touched :: "queue_access \<Rightarrow> location option" where
  "touched (Load l x) = Some l"
| "touched acc = written acc"

lemma slot_access_touched:
  "touched (slot_access q w f) = Some l \<Longrightarrow> (\<And>j. touched (f j) = Some l \<Longrightarrow> l = Stamp j) \<Longrightarrow>
    \<exists>j sl. l = Stamp j \<and> get_slot q j = Some sl"
  by (auto simp: slot_access_def split: option.splits)

lemma access_touched:
  assumes "touched (access_of q th) = Some l"
  shows "l = Head \<or> l = Tail \<or> (\<exists>j sl. l = Stamp j \<and> get_slot q j = Some sl)"
proof (cases th)
  case (Pushing pc)
  then show ?thesis using assms
    by (cases pc) (auto dest!: slot_access_touched simp: stamp_load_access_def stamp_store_access_def split: push_kind.splits)
next
  case (Popping pc)
  then show ?thesis using assms
    by (cases pc) (auto dest!: slot_access_touched simp: stamp_load_access_def stamp_store_access_def)
next
  case (Observing pc)
  then show ?thesis using assms by (cases pc) auto
qed (use assms in simp)

lemma get_slot_bound: "get_slot q j = Some sl \<Longrightarrow> j < capacity q"
  by (auto simp: get_slot_def capacity_def split: if_splits)

lemma touched_log:
  assumes "related s a h" "touched (access_of (mem s) th) = Some l"
  shows "log (shared s) l \<noteq> []" "msg_value (last (log (shared s) l)) = peek (mem s) l"
    "poke (mem s) l (peek (mem s) l) = mem s"
  using access_touched [OF assms(2)] related_logs [OF assms(1)]
  by (auto dest: get_slot_bound simp: put_slot_same)

lemma written_touched: "written acc = Some l \<Longrightarrow> touched acc = Some l"
  by (cases acc) auto

lemma views_in_step:
  assumes "sys_step std s l s'" "related s a h" "views_in s"
  shows "views_in s'"
  using assms(1)
proof cases
  case (internal weak lag i q' M' V' th')
  have "in_logs M' V' \<and> logs_ok M' \<and> (\<forall>l. latest (shared s) l \<le> latest M' l)"
    using assms(3) touched_log(1) [OF assms(2)] written_touched
    by (intro perform_in_logs [OF internal(3)]) (auto simp: views_in_def)
  then show ?thesis using assms(3) internal(2) by (auto simp: views_in_def intro: in_logs_mono)
qed (use assms(3) in \<open>auto simp: views_in_def\<close>)

lemma reachable_views:
  assumes "exec (sys_step std) (init_sys q) ls s" "new N = Some q" "length ls \<le> 2 ^ 62"
  shows "views_in s"
  using assms(1,3)
proof (induction rule: exec.induct)
  case exec_nil
  have "m \<in> set (first_log q l) \<Longrightarrow> msg_view m = no_view" for m l
    by (cases l) (auto simp: first_msg_def split: option.splits)
  then show ?case by (auto simp: views_in_def init_sys_def logs_ok_def)
next
  case (exec_snoc ls s l s')
  obtain ls' a h where "related s a h"
    by (rule reachable_related [OF exec_snoc.hyps(1) assms(2)]) (use exec_snoc.prems in auto)
  then show ?case using views_in_step [OF exec_snoc.hyps(2)] exec_snoc by simp
qed

section \<open>Steps on the latest values\<close>

text \<open>A thread may always read the latest messages; its step is then that of the machine on the
  queue.\<close>

lemma thread_step_load:
  "access_of q th = Load l x \<Longrightarrow> fst (thread_step std weak q th) = q"
  "access_of q th = Fence x \<Longrightarrow> fst (thread_step std weak q th) = q"
proof -
  have *: "fst (thread_step std weak q th) = q" if "(\<exists>l x. access_of q th = Load l x) \<or> (\<exists>x. access_of q th = Fence x)"
  proof (cases th)
    case (Pushing pc)
    then show ?thesis using that
      by (cases pc) (auto simp: slot_access_def stamp_store_access_def Let_def split: option.splits push_kind.splits rust_result.splits)
  next
    case (Popping pc)
    then show ?thesis using that
      by (cases pc) (auto simp: slot_access_def stamp_store_access_def Let_def split: option.splits)
  qed auto
  show "access_of q th = Load l x \<Longrightarrow> fst (thread_step std weak q th) = q"
    "access_of q th = Fence x \<Longrightarrow> fst (thread_step std weak q th) = q" using * by blast+
qed

lemma thread_step_exchange:
  assumes "access_of q th = Exchange l w x y" "peek q l \<noteq> w"
  shows "thread_step std True q th = thread_step std False q th" "fst (thread_step std False q th) = q"
proof -
  have "thread_step std True q th = thread_step std False q th \<and> fst (thread_step std False q th) = q"
  proof (cases th)
    case (Pushing pc)
    then show ?thesis using assms
      by (cases pc) (auto simp: slot_access_def stamp_load_access_def stamp_store_access_def
          compare_exchange_weak_def Let_def split: option.splits push_kind.splits)
  next
    case (Popping pc)
    then show ?thesis using assms
      by (cases pc) (auto simp: slot_access_def stamp_load_access_def stamp_store_access_def
          compare_exchange_weak_def split: option.splits)
  next
    case (Observing pc)
    then show ?thesis using assms by (cases pc) auto
  qed (use assms in simp)
  then show "thread_step std True q th = thread_step std False q th" "fst (thread_step std False q th) = q" by auto
qed

lemma access_not_strong [simp]: "access_of q th \<noteq> StrongExchange l w x y"
proof (cases th)
  case (Pushing pc)
  then show ?thesis
    by (cases pc) (auto simp: slot_access_def stamp_load_access_def stamp_store_access_def split: option.splits push_kind.splits)
next
  case (Popping pc)
  then show ?thesis
    by (cases pc) (auto simp: slot_access_def stamp_load_access_def stamp_store_access_def split: option.splits)
next
  case (Observing pc)
  then show ?thesis by (cases pc) auto
qed simp

lemma access_active:
  assumes "thread_ok q h xs V th st" "returned th = None" "th \<noteq> Idle"
  shows "access_of q th \<noteq> NoAccess"
proof (cases th)
  case (Pushing pc)
  then show ?thesis using assms
    by (cases pc) (auto simp: slot_access_def stamp_load_access_def stamp_store_access_def split: option.splits push_kind.splits)
next
  case (Popping pc)
  then show ?thesis using assms
    by (cases pc) (auto simp: slot_access_def stamp_load_access_def stamp_store_access_def split: option.splits)
next
  case (Observing pc)
  then show ?thesis using assms by (cases pc) auto
qed (use assms in simp)

lemma undefined_not_ok: "\<not> thread_ok q h xs V (undefined_thread th) st"
  by (cases th) auto

lemma latest_step:
  assumes "related s a h" "views_in s" "h + length (items a) < 2 ^ 62" "returned (threads s i) = None" "threads s i \<noteq> Idle"
    "thread_step std False (mem s) (threads s i) = (q', th')"
  shows "\<exists>M' V'. performs std False 0 s i (q', M', V', th')"
proof -
  let ?q = "mem s" and ?th = "threads s i"
  have V: "in_logs (shared s) (views s i)" using assms(2) by (simp add: views_in_def)
  note rd = readable_latest [OF V] and t = touched_log [OF assms(1), of ?th]
  have defined: False if "performs std False 0 s i (q1, M1, V1, undefined_thread ?th)" for q1 M1 V1
  proof -
    from internal_simulated [OF assms(1,3) that] obtain a' h' where
      "related (move s i q1 M1 V1 (undefined_thread ?th)) a' h'" by (auto simp: simulated_def)
    from sys_okD(2) [OF relatedD(1) [OF this], of i] show False by (simp add: undefined_not_ok)
  qed
  show ?thesis
  proof (cases "access_of ?q ?th")
    case (Load l x)
    then show ?thesis using t rd [of l] assms(6) thread_step_load(1) [OF Load, of std False] by simp
  next
    case (Exchange l w x y)
    then show ?thesis
      using t rd [of l] assms(6) thread_step_exchange [OF Exchange, of std]
      by (cases "peek ?q l = w") (auto split: prod.split)
  next
    case (Store l x)
    then show ?thesis using assms(6) defined by (cases "store_definite l (shared s) (views s i)") (auto split: prod.split)
  next
    case (Fence x)
    then show ?thesis using assms(6) thread_step_load(2) [OF Fence, of std False] by simp
  next
    case (Payload j)
    then show ?thesis using assms(6) defined by (cases "race_free j (shared s) (views s i)") (auto split: prod.split)
  next
    case Wild
    then show ?thesis using defined by simp
  next
    case NoAccess
    have "thread_ok ?q h (items a) (views s i) ?th (stats a i)" by (rule sys_okD(2) [OF relatedD(1) [OF assms(1)]])
    from access_active [OF this assms(4,5)] NoAccess show ?thesis by simp
  qed simp
qed

section \<open>Solo runs of threads\<close>

definition finishes :: "bool \<Rightarrow> nat \<Rightarrow> 'a queue \<Rightarrow> 'a thread \<Rightarrow> bool" where
  "finishes std n q th \<longleftrightarrow> run_solo (thread_step std) returned (replicate n False) q th \<noteq> None"

lemma finishes_simps:
  "finishes std 0 q th \<longleftrightarrow> returned th \<noteq> None"
  "finishes std (Suc n) q th \<longleftrightarrow> returned th \<noteq> None \<or>
     (case thread_step std False q th of (q', th') \<Rightarrow> finishes std n q' th')"
  by (auto simp: finishes_def split: option.splits prod.splits)

lemma finishes_Suc: "finishes std n q th \<Longrightarrow> finishes std (Suc n) q th"
proof (induction n arbitrary: q th)
  case (Suc n)
  then show ?case using finishes_simps(2) [of std n q th] finishes_simps(2) [of std "Suc n" q th]
    by (auto split: prod.splits)
qed (auto simp: finishes_simps split: prod.split)

lemma finishes_mono: "finishes std m q th \<Longrightarrow> m \<le> n \<Longrightarrow> finishes std n q th"
  by (induction n) (auto simp: le_Suc_eq intro: finishes_Suc)

lemma finishes_measure:
  assumes "I q th" "\<And>q th. I q th \<Longrightarrow> returned th = None \<Longrightarrow>
      case thread_step std False q th of (q', th') \<Rightarrow> I q' th' \<and> m th' < (m th :: nat)"
  shows "finishes std (m th) q th"
  using assms(1)
proof (induction "m th" arbitrary: q th rule: less_induct)
  case less
  show ?case
  proof (cases "returned th")
    case None
    obtain q' th' where step: "thread_step std False q th = (q', th')" by fastforce
    then have "I q' th'" "m th' < m th" using assms(2) [OF less.prems None] by auto
    then have "finishes std (m th - 1) q' th'" using less.hyps finishes_mono by fastforce
    then show ?thesis using step \<open>m th' < m th\<close> finishes_simps(2) [of std "m th - 1" q th] by simp
  next
    case (Some r)
    then show ?thesis using finishes_mono [of std 0 q th "m th"] by (simp add: finishes_simps(1))
  qed
qed

lemma returned_pc [simp]:
  "returned (Pushing pc) = None \<longleftrightarrow> push_returned pc = None"
  "returned (Popping pc') = None \<longleftrightarrow> pop_returned pc' = None"
  by (cases pc; simp) (cases pc'; simp)

text \<open>The sequential invariants give the solo runs on a settled queue.\<close>

lemma finishes_push:
  assumes "repr q0 h xs" "push_inv q0 h xs k v q pc"
  shows "finishes std (push_measure pc) q (Pushing pc)"
proof -
  let ?I = "\<lambda>q th. \<exists>pc. th = Pushing pc \<and> push_inv q0 h xs k v q pc"
  let ?m = "\<lambda>th. case th of Pushing pc \<Rightarrow> push_measure pc | _ \<Rightarrow> 0"
  have "finishes std (?m (Pushing pc)) q (Pushing pc)"
  proof (rule finishes_measure [of ?I])
    fix q th
    assume "?I q th" "returned th = None"
    then obtain pc where pc: "th = Pushing pc" "push_inv q0 h xs k v q pc" "push_returned pc = None"
      by auto
    from push_inv_step [OF assms(1) pc(2,3), where std = std and weak = False] pc(1)
    show "case thread_step std False q th of (q', th') \<Rightarrow> ?I q' th' \<and> ?m th' < ?m th" by (auto split: prod.splits)
  qed (use assms(2) in simp)
  then show ?thesis by simp
qed

lemma finishes_pop:
  assumes "repr q0 h xs" "pop_inv q0 h xs q pc"
  shows "finishes std (pop_measure pc) q (Popping pc)"
proof -
  let ?I = "\<lambda>q th. \<exists>pc. th = Popping pc \<and> pop_inv q0 h xs q pc"
  let ?m = "\<lambda>th. case th of Popping pc \<Rightarrow> pop_measure pc | _ \<Rightarrow> 0"
  have "finishes std (?m (Popping pc)) q (Popping pc)"
  proof (rule finishes_measure [of ?I])
    fix q th
    assume "?I q th" "returned th = None"
    then obtain pc where pc: "th = Popping pc" "pop_inv q0 h xs q pc" "pop_returned pc = None"
      by auto
    from pop_inv_step [OF assms(1) pc(2,3), where std = std and weak = False] pc(1)
    show "case thread_step std False q th of (q', th') \<Rightarrow> ?I q' th' \<and> ?m th' < ?m th" by (auto split: prod.splits)
  qed (use assms(2) in simp)
  then show ?thesis by simp
qed

text \<open>A thread that owns a slot returns without looking at the counters.\<close>

lemma owner_finishes:
  assumes "queue_ok q h xs" "thread_ok q h xs V th st" "own_index (one_lap q) th \<noteq> None"
  shows "finishes std 3 q th"
proof -
  have idx: "index_of q (enc_q q p) = p mod capacity q" for p
    by (rule slot_index_enc [OF queue_okD(1) [OF assms(1)]])
  have cap: "p mod capacity q < capacity q" for p using queue_okD(2) [OF assms(1)] by simp
  show ?thesis
  proof (cases th)
    case (Pushing pc)
    then show ?thesis using assms(2,3) idx cap
      by (cases pc) (auto simp: numeral_3_eq_3 finishes_simps stamp_at_def value_at_def get_put_slot slot_defs)
  next
    case (Popping pc)
    then show ?thesis using assms(2,3) idx cap
      by (cases pc) (auto simp: numeral_3_eq_3 finishes_simps stamp_at_def value_at_def get_put_slot slot_defs)
  qed (use assms(3) in auto)
qed

lemma finishes_step:
  "thread_step std False q th = (q', th') \<Longrightarrow> finishes std n q' th' \<Longrightarrow> finishes std (Suc n) q th"
  by (simp add: finishes_simps(2))

lemma settled_push_finishes:
  assumes "repr q h xs" "queue_ok q h xs" "push_at q h xs V p x pc st" "own_index (one_lap q) (Pushing pc) = None"
    and slots: "\<And>j. j < capacity q \<Longrightarrow> get_slot q j \<noteq> None"
  shows "finishes std 10 q (Pushing pc)"
proof -
  note b = queue_okD [OF assms(2)]
  have idx: "index_of q (enc_q q r) = r mod capacity q" for r by (rule slot_index_enc [OF b(1)])
  have at_tail: "r = h + length xs" if "w = enc_q q r" "r \<le> h + length xs" "w = tail q" for w r
    using that b(7) enc_q_eq [OF assms(2), of r "h + length xs"] by simp
  have load: "finishes std 7 q (Pushing (PushLoad k v c))" for k v c
    using finishes_push [OF assms(1), of k v q "PushLoad k v c" std] by simp
  have stamp: "finishes std 6 q (Pushing (PushStamp k v c (tail q)))" for k v c
    using finishes_push [OF assms(1), of k v q "PushStamp k v c (tail q)" std] by simp
  have cas: "finishes std 7 q (Pushing (PushCas k v c w))"
    if "w = tail q \<Longrightarrow> stamp_at q (h + length xs) (tail q)" for k v c w
  proof (cases "w = tail q")
    case True
    have "length xs \<noteq> capacity q"
    proof
      assume full: "length xs = capacity q"
      obtain sl where "get_slot q (index_of q (tail q)) = Some sl" "stamp sl \<noteq> tail q"
        by (rule repr_tail_full [OF assms(1) full])
      then show False using that True idx b(7) by (simp add: stamp_at_def)
    qed
    then have "push_inv q h xs k v q (PushCas k v c w)" using True b(4) by simp
    from finishes_push [OF assms(1) this, of std] show ?thesis by (rule finishes_mono) simp
  next
    case False
    then have "thread_step std False q (Pushing (PushCas k v c w)) = (q, Pushing (PushStamp k v (fst (spin std c)) (tail q)))"
      by (simp add: compare_exchange_weak_def)
    from finishes_step [OF this stamp] show ?thesis by simp
  qed
  have full: "finishes std 8 q (Pushing (PushFull k v c (enc_q q r)))" if r: "r \<le> h + length xs" for k v c r
  proof (cases "k = KForce \<and> head q = enc_q q r - one_lap q")
    case True
    then have "enc_q q r = enc_q q (h + capacity q)" using b(1,6) by (simp add: enc_plus_lap eq_diff_eq)
    then have "r = h + capacity q" using enc_q_eq [OF assms(2), of r "h + capacity q"] r b(4) by auto
    then have "push_inv q h xs k v q (PushFull k v c (enc_q q r))" using r b(4,7) by simp
    from finishes_push [OF assms(1) this, of std] show ?thesis by (rule finishes_mono) simp
  next
    case False
    have "thread_step std False q (Pushing (PushFull k v c (enc_q q r))) =
        (q, Pushing (PushLoad k v (fst (spin std c)))) \<or>
        thread_step std False q (Pushing (PushFull k v c (enc_q q r))) = (q, Pushing (PushRet KPush (Err v)))"
      using False by (cases k) (auto simp: push_closure_def compare_exchange_weak_def split: if_splits)
    moreover have "finishes std 7 q (Pushing (PushRet KPush (Err v)))"
      by (rule finishes_mono [of std 0]) (simp_all add: finishes_simps(1))
    ultimately show ?thesis using finishes_step [of std q _ _ _ 7] load by auto
  qed
  have fence: "finishes std 9 q (Pushing (PushFence k v c (enc_q q r)))" if "r \<le> h + length xs" for k v c r
    using finishes_step [of std q "Pushing (PushFence k v c (enc_q q r))", OF _ full [OF that]] by simp
  show ?thesis
  proof (cases pc)
    case (PushLoad k v c)
    then show ?thesis using finishes_mono [OF load, of 10] by simp
  next
    case (PushStamp k v c w)
    then have w: "w = enc_q q p" "p \<le> h + length xs" using assms(3) by auto
    obtain sl where sl: "get_slot q (p mod capacity q) = Some sl" using slots b(2) by fastforce
    then have at: "get_slot q (index_of q w) = Some sl" using w(1) idx by simp
    have sub: "finishes std 9 q (snd (thread_step std False q (Pushing pc)))"
    proof (cases "w = stamp sl")
      case True
      have "stamp_at q p w" using True sl by (simp add: stamp_at_def)
      then have "finishes std 7 q (Pushing (PushCas k v c w))" using at_tail [OF w] by (intro cas) simp
      from finishes_mono [OF this, of 9] show ?thesis using PushStamp True at by (simp add: slot_defs)
    next
      case False
      then show ?thesis
        using PushStamp at load [THEN finishes_mono, of 9] fence [OF w(2)] w(1) by (simp add: slot_defs Let_def)
    qed
    moreover have "fst (thread_step std False q (Pushing pc)) = q" using PushStamp at by (simp add: slot_defs Let_def)
    ultimately show ?thesis using finishes_step [of std q "Pushing pc" _ _ 9] by (simp add: prod_eq_iff)
  next
    case (PushCas k v c w)
    then have w: "w = enc_q q p" "p \<le> h + length xs" "p = h + length xs \<longrightarrow> stamp_at q p w"
      using assms(3) by auto
    have "finishes std 7 q (Pushing (PushCas k v c w))" using at_tail [OF w(1,2)] w(3) by (intro cas) simp
    then show ?thesis using PushCas finishes_mono [of std 7 q _ 10] by simp
  next
    case (PushFence k v c w)
    then show ?thesis using finishes_mono [OF fence [of p], of 10] assms(3) by (simp add: behind_ok_def)
  next
    case (PushFull k v c w)
    then show ?thesis using finishes_mono [OF full [of p], of 10] assms(3) by (simp add: behind_ok_def)
  next
    case (PushRet k r)
    then show ?thesis using finishes_mono [of std 0 q _ 10] by (simp add: finishes_simps(1))
  qed (use assms(3,4) in auto)
qed

lemma settled_pop_finishes:
  assumes "repr q h xs" "queue_ok q h xs" "pop_at q h xs V p x pc st" "own_index (one_lap q) (Popping pc) = None"
    and slots: "\<And>j. j < capacity q \<Longrightarrow> get_slot q j \<noteq> None"
  shows "finishes std 10 q (Popping pc)"
proof -
  note b = queue_okD [OF assms(2)]
  have idx: "index_of q (enc_q q r) = r mod capacity q" for r by (rule slot_index_enc [OF b(1)])
  have at_head: "r = h" if "w = enc_q q r" "r \<le> h" "w = head q" for w r
    using that b(6) enc_q_eq [OF assms(2), of r h] by simp
  have load: "finishes std 5 q (Popping (PopLoad c))" for c
    using finishes_pop [OF assms(1), of q "PopLoad c" std] by simp
  have stamp: "finishes std 4 q (Popping (PopStamp c (head q)))" for c
    using finishes_pop [OF assms(1), of q "PopStamp c (head q)" std] by simp
  have cas: "finishes std 5 q (Popping (PopCas c w))" if "w = head q \<Longrightarrow> stamp_at q h (head q + 1)" for c w
  proof (cases "w = head q")
    case True
    have "xs \<noteq> []"
    proof
      assume "xs = []"
      then obtain sl where "get_slot q (index_of q (head q)) = Some sl" "stamp sl = head q"
        using repr_head_none assms(1) by metis
      then show False using that True idx b(6) by (simp add: stamp_at_def)
    qed
    then have "pop_inv q h xs q (PopCas c w)" using True by simp
    from finishes_pop [OF assms(1) this, of std] show ?thesis by (rule finishes_mono) simp
  next
    case False
    then have "thread_step std False q (Popping (PopCas c w)) = (q, Popping (PopStamp (fst (spin std c)) (head q)))"
      by (simp add: compare_exchange_weak_def)
    from finishes_step [OF this stamp] show ?thesis by simp
  qed
  have empty: "finishes std 6 q (Popping (PopEmpty c w))" for c w
    using finishes_step [of std q "Popping (PopEmpty c w)", OF _ load] finishes_mono [of std 0 q _ 5]
      finishes_step [of std q "Popping (PopEmpty c w)" q "Popping (PopRet None)" 5]
    by (cases "tail q = w") (simp_all add: finishes_simps(1))
  have fence: "finishes std 7 q (Popping (PopFence c w))" for c w
    using finishes_step [of std q "Popping (PopFence c w)", OF _ empty] by simp
  show ?thesis
  proof (cases pc)
    case (PopLoad c)
    then show ?thesis using finishes_mono [OF load, of 10] by simp
  next
    case (PopStamp c w)
    then have w: "w = enc_q q p" "p \<le> h" using assms(3) by auto
    obtain sl where sl: "get_slot q (p mod capacity q) = Some sl" using slots b(2) by fastforce
    then have at: "get_slot q (index_of q w) = Some sl" using w(1) idx by simp
    have "finishes std 9 q (snd (thread_step std False q (Popping pc)))"
    proof (cases "w + 1 = stamp sl")
      case True
      have "stamp_at q p (w + 1)" using True sl by (simp add: stamp_at_def)
      then have "finishes std 5 q (Popping (PopCas c w))" using at_head [OF w] by (intro cas) simp
      from finishes_mono [OF this, of 9] show ?thesis using PopStamp True at by (simp add: slot_defs)
    next
      case False
      then show ?thesis
        using PopStamp at load [THEN finishes_mono, of 9] fence [THEN finishes_mono, of 9]
        by (simp add: slot_defs Let_def)
    qed
    moreover have "fst (thread_step std False q (Popping pc)) = q" using PopStamp at by (simp add: slot_defs Let_def)
    ultimately show ?thesis using finishes_step [of std q "Popping pc" _ _ 9] by (simp add: prod_eq_iff)
  next
    case (PopCas c w)
    then have w: "w = enc_q q p" "p \<le> h" "p = h \<longrightarrow> stamp_at q p (w + 1)" using assms(3) by auto
    have "finishes std 5 q (Popping (PopCas c w))" using at_head [OF w(1,2)] w(3) by (intro cas) simp
    then show ?thesis using PopCas finishes_mono [of std 5 q _ 10] by simp
  next
    case (PopFence c w)
    then show ?thesis using finishes_mono [OF fence, of 10] by simp
  next
    case (PopEmpty c w)
    then show ?thesis using finishes_mono [OF empty, of 10] by simp
  next
    case (PopRet r)
    then show ?thesis using finishes_mono [of std 0 q _ 10] by (simp add: finishes_simps(1))
  qed (use assms(3,4) in auto)
qed

lemma observer_finishes: "finishes std 10 q (Observing pc)"
proof -
  have tail: "finishes std 3 q (Observing LenTail)" by (simp add: numeral_eq_Suc finishes_simps)
  have over: "finishes std n q (Observing (ObsNat m))" "finishes std n q (Observing (ObsBool c))" for n m c
    by (rule finishes_mono [of std 0], simp_all add: finishes_simps(1))+
  have check: "finishes std 4 q (Observing (LenCheck t h))" for t h
    using finishes_step [of std q "Observing (LenCheck t h)", OF _ tail]
      finishes_step [of std q "Observing (LenCheck t h)", OF _ over(1), of _ 3] by (cases "tail q = t") auto
  have "finishes std 5 q (Observing (LenHead t))" for t
    using finishes_step [of std q "Observing (LenHead t)", OF _ check] by simp
  moreover have "finishes std 2 q (Observing EmptyHead)" "finishes std 1 q (Observing (EmptyTail t))"
    "finishes std 2 q (Observing FullTail)" "finishes std 1 q (Observing (FullHead t))" for t
    by (simp_all add: numeral_eq_Suc finishes_simps)
  ultimately show ?thesis using tail check over finishes_mono [of std _ q _ 10] by (cases pc) fastforce+
qed

section \<open>Solo runs of the system\<close>

lemma reachable_bound:
  assumes "exec (sys_step std) (init_sys q) ls s" "new N = Some q" "length ls \<le> 2 ^ 62"
  obtains a h where "related s a h" "h + length (items a) \<le> length ls" "capacity (mem s) = N"
proof -
  have "initial_sys N (init_sys q)" using assms(2) by (auto simp: initial_sys_def)
  from ns.exec_related [OF assms(1) this assms(3)] show thesis using that by (auto simp: ring_related_def)
qed

lemma thread_step_not_idle: "th \<noteq> Idle \<Longrightarrow> thread_step std weak q th = (q', th') \<Longrightarrow> th' \<noteq> Idle"
  by (cases th) (auto simp: map_prod_def split: prod.splits)

lemma finishes_run:
  assumes "new N = Some q" "exec (sys_step std) (init_sys q) ls s" "length ls + n \<le> 2 ^ 62"
    "finishes std n (mem s) (threads s i)" "threads s i \<noteq> Idle"
  shows "\<exists>m ls' s'. m \<le> n \<and> sched_run (sched_step std) s (solo i m) = Some (ls', s') \<and>
    returned (threads s' i) \<noteq> None"
  using assms(2-5)
proof (induction n arbitrary: ls s)
  case 0
  then show ?case by (intro exI [of _ 0]) (simp add: solo_def finishes_simps(1))
next
  case (Suc n)
  show ?case
  proof (cases "returned (threads s i)")
    case None
    obtain a h where rel: "related s a h" "h + length (items a) \<le> length ls"
      by (rule reachable_bound [OF Suc.prems(1) assms(1)]) (use Suc.prems(2) in auto)
    have "views_in s" using reachable_views [OF Suc.prems(1) assms(1)] Suc.prems(2) by simp
    moreover obtain q' th' where step: "thread_step std False (mem s) (threads s i) = (q', th')" by fastforce
    ultimately obtain M' V' where p: "performs std False 0 s i (q', M', V', th')"
      using latest_step [OF rel(1) _ _ None Suc.prems(4) step] rel(2) Suc.prems(2) by auto
    let ?s = "move s i q' M' V' th'"
    have "exec (sys_step std) (init_sys q) (ls @ [Tau]) ?s"
      by (rule exec.exec_snoc [OF Suc.prems(1) sys_step.internal [OF p]])
    moreover have "finishes std n q' th'" using Suc.prems(3) None step by (simp add: finishes_simps(2))
    ultimately obtain m ls' s' where "m \<le> n" "sched_run (sched_step std) ?s (solo i m) = Some (ls', s')"
      "returned (threads s' i) \<noteq> None"
      using Suc.IH [of "ls @ [Tau]" ?s] Suc.prems(2) thread_step_not_idle [OF Suc.prems(4) step] by auto
    then show ?thesis using p by (intro exI [of _ "Suc m"]) (simp add: solo_def)
  next
    case (Some r)
    then show ?thesis by (intro exI [of _ 0]) (simp add: solo_def)
  qed
qed

text \<open>A thread that no owner hinders returns.\<close>

lemma unhindered_finishes:
  assumes "related s a h" "threads s i \<noteq> Idle" "owns s i = None \<longrightarrow> (\<forall>j. owns s j = None)"
  shows "finishes std 10 (mem s) (threads s i)"
proof -
  note d = sys_okD [OF relatedD(1) [OF assms(1)]]
  have slots: "get_slot (mem s) j \<noteq> None" if "j < capacity (mem s)" for j
    using related_slot [OF assms(1), of j] that by (metis mod_less option.distinct(1))
  show ?thesis
  proof (cases "owns s i = None")
    case True
    note r = unowned_repr [OF relatedD(1) [OF assms(1)] mp [OF assms(3) True]]
    show ?thesis
    proof (cases "threads s i")
      case (Pushing pc)
      then show ?thesis using settled_push_finishes [OF r d(1) _ _ slots] d(2) [of i] True by (auto simp: owns_def)
    next
      case (Popping pc)
      then show ?thesis using settled_pop_finishes [OF r d(1) _ _ slots] d(2) [of i] True by (auto simp: owns_def)
    qed (use observer_finishes assms(2) in auto)
  next
    case False
    then show ?thesis using owner_finishes [OF d(1) d(2) [of i], of std] finishes_mono [of std 3 _ _ 10]
      by (simp add: owns_def)
  qed
qed

lemma unhindered_run:
  assumes "new N = Some q" "exec (sys_step std) (init_sys q) ls s" "length ls + 10 \<le> 2 ^ 62" "threads s i \<noteq> Idle"
    "owns s i = None \<longrightarrow> (\<forall>j. owns s j = None)"
  obtains m ls' s' where "m \<le> 10" "sched_run (sched_step std) s (solo i m @ [MReturn i]) = Some (ls', s')"
    "threads s' = (threads s)(i := Idle)"
proof -
  obtain a h where rel: "related s a h" by (rule reachable_bound [OF assms(2,1)]) (use assms(3) in auto)
  have "finishes std 10 (mem s) (threads s i)" by (rule unhindered_finishes [OF rel assms(4,5)])
  from finishes_run [OF assms(1-3) this assms(4)] obtain m ls' s' r where
    m: "m \<le> 10" "sched_run (sched_step std) s (solo i m) = Some (ls', s')" "returned (threads s' i) = Some r" by auto
  let ?s = "s'\<lparr>threads := (threads s')(i := Idle)\<rparr>"
  have "sched_run (sched_step std) s (solo i m @ [MReturn i]) = Some (ls' @ [Return i r], ?s)"
    using sched_run_append [OF m(2), of "[MReturn i]"] m(3) by simp
  moreover have "threads s' j = threads s j" if "j \<noteq> i" for j
    using sched_run_other [OF m(2), of j] that by (auto simp: solo_def)
  then have "threads ?s = (threads s)(i := Idle)" by auto
  ultimately show thesis using that m(1) by blast
qed

section \<open>Completing all operations\<close>

lemma active_finite:
  assumes "exec (sys_step std) (init_sys q) ls s"
  shows "finite {i. threads s i \<noteq> Idle} \<and> card {i. threads s i \<noteq> Idle} \<le> length ls"
  using assms
proof (induction rule: exec.induct)
  case (exec_snoc ls s l s')
  have sub: "\<exists>i. {j. threads s' j \<noteq> Idle} \<subseteq> insert i {j. threads s j \<noteq> Idle}"
    using exec_snoc.hyps(2) by cases (auto split: if_splits)
  then obtain i where i: "{j. threads s' j \<noteq> Idle} \<subseteq> insert i {j. threads s j \<noteq> Idle}" by blast
  have "card {j. threads s' j \<noteq> Idle} \<le> card (insert i {j. threads s j \<noteq> Idle})"
    using exec_snoc.IH i by (intro card_mono) auto
  also have "\<dots> \<le> Suc (card {j. threads s j \<noteq> Idle})" by (rule card_insert_le_m1) auto
  finally show ?case using exec_snoc.IH i by (auto intro: finite_subset)
qed (simp add: init_sys_def)

lemma completing_run:
  assumes "new N = Some q" "exec (sys_step std) (init_sys q) ls s" "finite {i. threads s i \<noteq> Idle}"
    "card {i. threads s i \<noteq> Idle} = n" "length ls + 11 * n \<le> 2 ^ 62"
  shows "\<exists>ms ls' s'. sched_run (sched_step std) s ms = Some (ls', s') \<and> (\<forall>i c. MCall i c \<notin> set ms) \<and>
    length ms \<le> 11 * n \<and> (\<forall>i. threads s' i = Idle)"
  using assms(2-5)
proof (induction n arbitrary: ls s)
  case 0
  then have "sched_run (sched_step std) s [] = Some ([], s)" "\<forall>i. threads s i = Idle" by auto
  then show ?case by (metis empty_iff list.set(1) list.size(3) le0)
next
  case (Suc n)
  obtain i where i: "threads s i \<noteq> Idle" "owns s i = None \<longrightarrow> (\<forall>j. owns s j = None)"
  proof (cases "\<exists>i. owns s i \<noteq> None")
    case True
    then obtain i where i: "owns s i \<noteq> None" by blast
    then have "threads s i \<noteq> Idle" by (auto simp: owns_def)
    then show thesis using that [of i] i by simp
  next
    case False
    have "{i. threads s i \<noteq> Idle} \<noteq> {}" using Suc.prems(3) by (metis card.empty nat.distinct(1))
    then obtain i where "threads s i \<noteq> Idle" by blast
    then show thesis using that [of i] False by simp
  qed
  obtain m ls1 s1 where m: "m \<le> 10" "sched_run (sched_step std) s (solo i m @ [MReturn i]) = Some (ls1, s1)"
    "threads s1 = (threads s)(i := Idle)"
    by (rule unhindered_run [OF assms(1) Suc.prems(1) _ i]) (use Suc.prems(4) in auto)
  have "{j. threads s1 j \<noteq> Idle} = {j. threads s j \<noteq> Idle} - {i}" by (auto simp: m(3))
  then have "finite {j. threads s1 j \<noteq> Idle}" "card {j. threads s1 j \<noteq> Idle} = n" using Suc.prems(2,3) i(1) by auto
  moreover have "exec (sys_step std) (init_sys q) (ls @ ls1) s1"
    using exec_append [OF sched_run_sound [OF m(2)] Suc.prems(1)] .
  moreover have "length ls1 = Suc m" using sched_run_length [OF m(2)] by (simp add: solo_def)
  ultimately obtain ms ls2 s2 where "sched_run (sched_step std) s1 ms = Some (ls2, s2)" "\<forall>i c. MCall i c \<notin> set ms"
    "length ms \<le> 11 * n" "\<forall>i. threads s2 i = Idle"
    using Suc.IH [of "ls @ ls1" s1] m(1) Suc.prems(4) by auto
  then show ?case
    using sched_run_append [OF m(2), of ms] m(1)
    by (intro exI [of _ "(solo i m @ [MReturn i]) @ ms"]) (auto simp: solo_def)
qed

section \<open>Properties\<close>

text \<open>C8: Progress outside the critical section. In every reachable state in which no other thread is
  between its exchange and its publication of a stamp, a thread inside an operation returns when it
  runs alone and reads the latest values, within ten steps. (With such a thread it may never
  return.)\<close>

theorem solo_returns:
  assumes "new N = Some q" "exec (sys_step std) (init_sys q) ls s" "length ls \<le> 2 ^ 61" "threads s i \<noteq> Idle"
    "\<forall>j. j \<noteq> i \<longrightarrow> own_index (one_lap (mem s)) (threads s j) = None"
  shows "\<exists>m ls' s'. m \<le> 10 \<and> sched_run (sched_step std) s (solo i m @ [MReturn i]) = Some (ls', s') \<and>
    threads s' = (threads s)(i := Idle)"
proof -
  have own: "owns s i = None \<longrightarrow> (\<forall>j. owns s j = None)" using assms(5) unfolding owns_def by metis
  obtain m ls' s' where "m \<le> 10" "sched_run (sched_step std) s (solo i m @ [MReturn i]) = Some (ls', s')"
    "threads s' = (threads s)(i := Idle)"
    by (rule unhindered_run [OF assms(1,2) _ assms(4) own]) (use assms(3) in auto)
  then show ?thesis by blast
qed

theorem solo_returns_witness:
  "\<exists>s m ls' s'. sched_run (sched_step False) (init_sys queue2) [MCall 0 (OpPush 7), MStep 0 (False, 0)] =
       Some ([Call 0 (OpPush 7), Tau], s) \<and> threads s 0 \<noteq> Idle \<and> m \<le> 10 \<and>
     sched_run (sched_step False) s (solo 0 m @ [MReturn 0]) = Some (ls', s')"
proof -
  let ?ms = "[MCall 0 (OpPush 7), MStep 0 (False, 0)] :: nat ring_move list"
  obtain s where r: "sched_run (sched_step False) (init_sys queue2) ?ms = Some ([Call 0 (OpPush 7), Tau], s)"
    "threads s 0 \<noteq> Idle"
    by (simp add: init_sys_def push_start_def readable_def latest_def no_view_def read_msg_def first_msg_def)
  have "threads s j = Idle" if "j \<noteq> 0" for j using sched_run_other [OF r(1), of j] that by (simp add: init_sys_def)
  then have "\<forall>j. j \<noteq> 0 \<longrightarrow> own_index (one_lap (mem s)) (threads s j) = None" by simp
  from solo_returns [OF new_two sched_run_sound [OF r(1)] _ r(2) this] r show ?thesis by fastforce
qed

text \<open>C7: No deadlock. From every reachable state all operations under way can be completed without
  starting a new one: there is a schedule that leaves every thread outside the queue, with at most
  eleven steps for each thread that is inside.\<close>

theorem operations_can_complete:
  assumes "new N = Some q" "exec (sys_step std) (init_sys q) ls s" "length ls \<le> 2 ^ 58"
  shows "\<exists>ms ls' s'. sched_run (sched_step std) s ms = Some (ls', s') \<and> (\<forall>i c. MCall i c \<notin> set ms) \<and>
    length ms \<le> 11 * card {i. threads s i \<noteq> Idle} \<and> (\<forall>i. threads s' i = Idle)"
proof -
  note f = active_finite [OF assms(2)]
  then have "length ls + 11 * card {i. threads s i \<noteq> Idle} \<le> 2 ^ 62" using assms(3) by simp
  from completing_run [OF assms(1,2) _ refl this] f show ?thesis by blast
qed

theorem operations_can_complete_witness:
  "\<exists>ls s ms ls' s'. sched_run (sched_step False) (init_sys queue2) run_open = Some (ls, s) \<and>
     sched_run (sched_step False) s ms = Some (ls', s') \<and> (\<forall>i. threads s' i = Idle)"
proof -
  obtain ls s where r: "sched_run (sched_step False) (init_sys queue2) run_open = Some (ls, s)"
    "exec (sys_step False) (init_sys queue2) ls s" by (rule run_open_exec)
  have "length ls \<le> 2 ^ 58" using sched_run_length [OF r(1)] by (simp add: run_open_def solo_def)
  from operations_can_complete [OF new_two r(2) this] r(1) show ?thesis by blast
qed

end
