(* ===== verification/Harness.thy ===== *)
theory Harness
  imports Nure_Seq
begin

text \<open>
  The repository's own harnesses for sequential use: the fuzz target
  \<^verbatim>\<open>src/fuzz/fuzz_targets/queue_differential.rs\<close> and the two checks of \<^verbatim>\<open>src/tests/differential.rs\<close>. A
  harness runs the queue beside a \<open>VecDeque\<close> and asserts after each operation that both agree; it is
  modelled with its assertions, which it may fail, and with operations that may not return. The
  theorems say that no input makes any of them fail: what the fuzzer and the property tests sample
  holds of every input and every pattern of spurious failures of the exchanges.
\<close>

datatype 'a outcome = Passed 'a | AssertFailed | NoReturn

fun and_then :: "'a outcome \<Rightarrow> ('a \<Rightarrow> 'b outcome) \<Rightarrow> 'b outcome" where
  "and_then (Passed x) f = f x"
| "and_then AssertFailed f = AssertFailed"
| "and_then NoReturn f = NoReturn"

definition returning :: "'a option \<Rightarrow> ('a \<Rightarrow> 'b outcome) \<Rightarrow> 'b outcome" where
  "returning r f = (case r of None \<Rightarrow> NoReturn | Some x \<Rightarrow> f x)"

definition assert_then :: "bool \<Rightarrow> 'b outcome \<Rightarrow> 'b outcome" where
  "assert_then b k = (if b then k else AssertFailed)"

fun pop_front :: "'a list \<Rightarrow> 'a list \<times> 'a option" where
  "pop_front [] = ([], None)"
| "pop_front (x # xs) = (xs, Some x)"

lemmas harness_defs = returning_def assert_then_def

section \<open>The fuzz target\<close>

definition CAP :: nat where
  "CAP = 16"

type_synonym u8 = "8 word"

datatype fuzz_cmd = FPush u8 | FPop | FForcePush u8

fun fuzz_op :: "bool \<Rightarrow> (u8 queue \<Rightarrow> bool list) \<Rightarrow> u8 queue \<times> u8 list \<Rightarrow> fuzz_cmd \<Rightarrow>
    (u8 queue \<times> u8 list) outcome" where
  "fuzz_op std ws (q, model) (FPush v) =
     returning (push std (ws q) q v) (\<lambda>(q', r).
       if length model < CAP
       then assert_then (r = Ok ()) (Passed (q', model @ [v]))
       else assert_then (r = Err v) (Passed (q', model)))"
| "fuzz_op std ws (q, model) FPop =
     returning (pop std (ws q) q) (\<lambda>(q', r).
       let (model', expected) = pop_front model
       in assert_then (r = expected) (Passed (q', model')))"
| "fuzz_op std ws (q, model) (FForcePush v) =
     returning (force_push std (ws q) q v) (\<lambda>(q', r).
       let (model', expected) = (if length model = CAP then pop_front model else (model, None))
       in assert_then (r = expected) (Passed (q', model' @ [v])))"

fun fuzz_loop :: "bool \<Rightarrow> (u8 queue \<Rightarrow> bool list) \<Rightarrow> u8 queue \<times> u8 list \<Rightarrow> fuzz_cmd list \<Rightarrow>
    (u8 queue \<times> u8 list) outcome" where
  "fuzz_loop std ws st [] = Passed st"
| "fuzz_loop std ws st (op # ops) = and_then (fuzz_op std ws st op) (\<lambda>st'. fuzz_loop std ws st' ops)"

definition fuzz_target :: "bool \<Rightarrow> (u8 queue \<Rightarrow> bool list) \<Rightarrow> fuzz_cmd list \<Rightarrow> (u8 queue \<times> u8 list) outcome" where
  "fuzz_target std ws ops =
     (case new CAP of
        None \<Rightarrow> AssertFailed
      | Some q \<Rightarrow> fuzz_loop std ws (q, []) (take 4096 ops))"

text \<open>The harnesses keep the queue well-formed, with the contents of the model.\<close>

definition agrees :: "nat \<Rightarrow> 'a queue \<Rightarrow> 'a list \<Rightarrow> bool" where
  "agrees N q model \<longleftrightarrow> wf_queue q \<and> contents q = model \<and> capacity q = N \<and> length model \<le> N \<and> 0 < N"

lemma agrees_new:
  assumes "new N = Some q"
  shows "agrees N q []"
  using new_wf [OF assms] nq.cap_pos [OF new_wf(1) [OF assms]] by (simp add: agrees_def)

lemma agrees_push:
  assumes "agrees N q model"
  shows "\<exists>q'. push std w q v = Some (q', if length model < N then Ok () else Err v) \<and>
    agrees N q' (if length model < N then model @ [v] else model)"
  using assms nq.enq_room [of q std "\<lambda>_. w" v] nq.enq_full [of q std "\<lambda>_. w" v]
  by (cases "length model < N") (auto simp: agrees_def)

lemma agrees_pop:
  assumes "agrees N q model"
  shows "\<exists>q'. pop std w q = Some (q', snd (pop_front model)) \<and> agrees N q' (fst (pop_front model))"
  using assms nq.deq_none [of q std "\<lambda>_. w"] nq.deq_some [of q _ _ std "\<lambda>_. w"]
  by (cases model) (fastforce simp: agrees_def)+

lemma agrees_force_push:
  assumes "agrees N q model"
  shows "\<exists>q'. force_push std w q v = Some (q', if length model = N then Some (hd model) else None) \<and>
    agrees N q' (if length model = N then tl model @ [v] else model @ [v])"
  using assms nq.force_room [of q std "\<lambda>_. w" v] nq.force_full [of q std "\<lambda>_. w" v]
  by (cases "length model < N") (auto simp: agrees_def)

lemma fuzz_op_passes:
  assumes "agrees CAP q model"
  shows "\<exists>q' model'. fuzz_op std ws (q, model) op = Passed (q', model') \<and> agrees CAP q' model'"
proof (cases op)
  case (FPush v)
  then show ?thesis using agrees_push [OF assms, of std "ws q" v] by (auto simp: harness_defs)
next
  case FPop
  then show ?thesis using agrees_pop [OF assms, of std "ws q"] by (auto simp: harness_defs split: prod.split)
next
  case (FForcePush v)
  moreover have "model \<noteq> []" if "length model = CAP" using that assms by (auto simp: agrees_def)
  then have "length model = CAP \<Longrightarrow> pop_front model = (tl model, Some (hd model))" by (cases model) auto
  ultimately show ?thesis using agrees_force_push [OF assms, of std "ws q" v] by (auto simp: harness_defs)
qed

lemma fuzz_loop_passes:
  "agrees CAP q model \<Longrightarrow> \<exists>q' model'. fuzz_loop std ws (q, model) ops = Passed (q', model') \<and> agrees CAP q' model'"
proof (induction ops arbitrary: q model)
  case (Cons op ops)
  obtain q1 model1 where "fuzz_op std ws (q, model) op = Passed (q1, model1)" "agrees CAP q1 model1"
    using fuzz_op_passes [OF Cons.prems] by blast
  then show ?case using Cons.IH by simp
qed simp

section \<open>The checks of the differential test\<close>

text \<open>\<open>check_ops\<close> asserts each result and each observation.\<close>

fun check_op :: "nat \<Rightarrow> bool \<Rightarrow> (u8 queue \<Rightarrow> bool list) \<Rightarrow> u8 queue \<times> u8 list \<Rightarrow> u8 ring_cmd \<Rightarrow>
    (u8 queue \<times> u8 list) outcome" where
  "check_op N std ws (q, model) (OpPush v) =
     returning (push std (ws q) q v) (\<lambda>(q', r).
       if length model < N
       then assert_then (r = Ok ()) (Passed (q', model @ [v]))
       else assert_then (r = Err v) (Passed (q', model)))"
| "check_op N std ws (q, model) OpPop =
     returning (pop std (ws q) q) (\<lambda>(q', r).
       let (model', expected) = pop_front model
       in assert_then (r = expected) (Passed (q', model')))"
| "check_op N std ws (q, model) (OpForcePush v) =
     returning (force_push std (ws q) q v) (\<lambda>(q', r).
       let (model', expected) = (if length model = N then pop_front model else (model, None))
       in assert_then (r = expected) (Passed (q', model' @ [v])))"
| "check_op N std ws (q, model) OpLen =
     returning (len q) (\<lambda>n. assert_then (n = length model) (Passed (q, model)))"
| "check_op N std ws (q, model) OpIsEmpty =
     returning (is_empty q) (\<lambda>b. assert_then (b = (model = [])) (Passed (q, model)))"
| "check_op N std ws (q, model) OpIsFull =
     returning (is_full q) (\<lambda>b. assert_then (b = (length model = N)) (Passed (q, model)))"

fun check_loop :: "nat \<Rightarrow> bool \<Rightarrow> (u8 queue \<Rightarrow> bool list) \<Rightarrow> u8 queue \<times> u8 list \<Rightarrow> u8 ring_cmd list \<Rightarrow>
    (u8 queue \<times> u8 list) outcome" where
  "check_loop N std ws st [] = Passed st"
| "check_loop N std ws st (op # ops) =
     and_then (check_op N std ws st op) (\<lambda>st'. check_loop N std ws st' ops)"

definition check_ops :: "nat \<Rightarrow> bool \<Rightarrow> (u8 queue \<Rightarrow> bool list) \<Rightarrow> u8 ring_cmd list \<Rightarrow>
    (u8 queue \<times> u8 list) outcome" where
  "check_ops N std ws ops =
     (case new N of None \<Rightarrow> AssertFailed | Some q \<Rightarrow> check_loop N std ws (q, []) ops)"

text \<open>\<open>check_drops\<close> counts: \<open>drops\<close> is the number of destructors that ran (of a refused payload, of what
  \<open>pop\<close> and \<open>force_push\<close> give back, and of what \<open>drop\<close> of the queue finds), \<open>pushed_ok\<close> and \<open>failed\<close> the
  pushes that were accepted and refused.\<close>

record drop_state =
  drop_q :: "u8 queue"
  drop_model :: "u8 list"
  drops :: nat
  pushed_ok :: nat
  failed :: nat

fun drops_op :: "nat \<Rightarrow> bool \<Rightarrow> (u8 queue \<Rightarrow> bool list) \<Rightarrow> drop_state \<Rightarrow> u8 ring_cmd \<Rightarrow> drop_state outcome" where
  "drops_op N std ws s (OpPush v) =
     returning (push std (ws (drop_q s)) (drop_q s) v) (\<lambda>(q', r).
       case r of
         Ok _ \<Rightarrow> assert_then (length (drop_model s) < N)
           (Passed (s\<lparr>drop_q := q', drop_model := drop_model s @ [v], pushed_ok := pushed_ok s + 1\<rparr>))
       | Err x \<Rightarrow> assert_then (length (drop_model s) = N)
           (Passed (s\<lparr>drop_q := q', drops := drops s + 1, failed := failed s + 1\<rparr>)))"
| "drops_op N std ws s OpPop =
     returning (pop std (ws (drop_q s)) (drop_q s)) (\<lambda>(q', r).
       let (model', expected) = pop_front (drop_model s)
       in assert_then (r = expected)
         (Passed (s\<lparr>drop_q := q', drop_model := model', drops := drops s + (if r = None then 0 else 1)\<rparr>)))"
| "drops_op N std ws s (OpForcePush v) =
     returning (force_push std (ws (drop_q s)) (drop_q s) v) (\<lambda>(q', r).
       if length (drop_model s) = N
       then (case pop_front (drop_model s) of
           (model', None) \<Rightarrow> AssertFailed
         | (model', Some old) \<Rightarrow> assert_then (r = Some old)
             (Passed (s\<lparr>drop_q := q', drop_model := model' @ [v], drops := drops s + 1,
                pushed_ok := pushed_ok s + 1\<rparr>)))
       else assert_then (r = None)
         (Passed (s\<lparr>drop_q := q', drop_model := drop_model s @ [v], pushed_ok := pushed_ok s + 1\<rparr>)))"
| "drops_op N std ws s OpLen =
     returning (len (drop_q s)) (\<lambda>n. assert_then (n = length (drop_model s)) (Passed s))"
| "drops_op N std ws s OpIsEmpty =
     returning (is_empty (drop_q s)) (\<lambda>b. assert_then (b = (drop_model s = [])) (Passed s))"
| "drops_op N std ws s OpIsFull =
     returning (is_full (drop_q s)) (\<lambda>b. assert_then (b = (length (drop_model s) = N)) (Passed s))"

fun drops_loop :: "nat \<Rightarrow> bool \<Rightarrow> (u8 queue \<Rightarrow> bool list) \<Rightarrow> drop_state \<Rightarrow> u8 ring_cmd list \<Rightarrow> drop_state outcome" where
  "drops_loop N std ws s [] = Passed s"
| "drops_loop N std ws s (op # ops) = and_then (drops_op N std ws s op) (\<lambda>s'. drops_loop N std ws s' ops)"

text \<open>\<open>while q.pop().is_some()\<close>, with fuel for one more iteration than the queue has slots.\<close>

fun drain_loop :: "nat \<Rightarrow> bool \<Rightarrow> (u8 queue \<Rightarrow> bool list) \<Rightarrow> drop_state \<Rightarrow> drop_state outcome" where
  "drain_loop 0 std ws s = NoReturn"
| "drain_loop (Suc n) std ws s =
     returning (pop std (ws (drop_q s)) (drop_q s)) (\<lambda>(q', r).
       case r of
         None \<Rightarrow> Passed (s\<lparr>drop_q := q'\<rparr>)
       | Some _ \<Rightarrow> drain_loop n std ws (s\<lparr>drop_q := q', drops := drops s + 1\<rparr>))"

definition check_drops :: "nat \<Rightarrow> bool \<Rightarrow> (u8 queue \<Rightarrow> bool list) \<Rightarrow> u8 ring_cmd list \<Rightarrow> nat outcome" where
  "check_drops N std ws ops =
     (case new N of
        None \<Rightarrow> AssertFailed
      | Some q \<Rightarrow>
          and_then (drops_loop N std ws \<lparr>drop_q = q, drop_model = [], drops = 0, pushed_ok = 0, failed = 0\<rparr> ops) (\<lambda>s.
          and_then (drain_loop (Suc (capacity (drop_q s))) std ws s) (\<lambda>s.
          returning (drop_queue True (drop_q s)) (\<lambda>(q', vs).
            let n = drops s + length vs
            in assert_then (n = pushed_ok s + failed s) (Passed n)))))"

lemma agrees_observers:
  assumes "agrees N q model"
  shows "len q = Some (length model)" "is_empty q = Some (model = [])" "is_full q = Some (length model = N)"
  using assms nq.len_ok [of q] nq.empty_ok [of q] nq.full_ok [of q] by (auto simp: agrees_def)

lemma full_pop_front:
  assumes "agrees N q model" "length model = N"
  shows "pop_front model = (tl model, Some (hd model))"
  using assms by (cases model) (auto simp: agrees_def)

lemma check_op_passes:
  assumes "agrees N q model"
  shows "\<exists>q' model'. check_op N std ws (q, model) op = Passed (q', model') \<and> agrees N q' model'"
proof (cases op)
  case (OpPush v)
  then show ?thesis using agrees_push [OF assms, of std "ws q" v] by (auto simp: harness_defs)
next
  case OpPop
  then show ?thesis using agrees_pop [OF assms, of std "ws q"] by (auto simp: harness_defs split: prod.split)
next
  case (OpForcePush v)
  then show ?thesis
    using agrees_force_push [OF assms, of std "ws q" v] full_pop_front [OF assms] by (auto simp: harness_defs)
qed (use assms agrees_observers [OF assms] in \<open>auto simp: harness_defs\<close>)

lemma check_loop_passes:
  "agrees N q model \<Longrightarrow> \<exists>q' model'. check_loop N std ws (q, model) ops = Passed (q', model') \<and> agrees N q' model'"
proof (induction ops arbitrary: q model)
  case (Cons op ops)
  obtain q1 model1 where "check_op N std ws (q, model) op = Passed (q1, model1)" "agrees N q1 model1"
    using check_op_passes [OF Cons.prems] by blast
  then show ?case using Cons.IH by simp
qed simp

text \<open>Every payload pushed so far was dropped or is in the queue.\<close>

definition counted :: "nat \<Rightarrow> drop_state \<Rightarrow> bool" where
  "counted N s \<longleftrightarrow> agrees N (drop_q s) (drop_model s) \<and> drops s + length (drop_model s) = pushed_ok s + failed s"

lemma drops_op_passes:
  assumes "counted N s"
  shows "\<exists>s'. drops_op N std ws s op = Passed s' \<and> counted N s'"
proof -
  have a: "agrees N (drop_q s) (drop_model s)" using assms by (simp add: counted_def)
  have bound: "length (drop_model s) \<le> N" using a by (simp add: agrees_def)
  let ?w = "ws (drop_q s)"
  show ?thesis
  proof (cases op)
    case (OpPush v)
    then show ?thesis using agrees_push [OF a, of std ?w v] assms bound
      by (cases "length (drop_model s) < N") (auto simp: harness_defs counted_def)
  next
    case OpPop
    then show ?thesis using agrees_pop [OF a, of std ?w] assms
      by (cases "drop_model s") (auto simp: harness_defs counted_def)
  next
    case (OpForcePush v)
    then show ?thesis using agrees_force_push [OF a, of std ?w v] full_pop_front [OF a] assms a
      by (cases "length (drop_model s) = N") (auto simp: harness_defs counted_def agrees_def)
  qed (use assms agrees_observers [OF a] in \<open>auto simp: harness_defs\<close>)
qed

lemma drops_loop_passes:
  "counted N s \<Longrightarrow> \<exists>s'. drops_loop N std ws s ops = Passed s' \<and> counted N s'"
proof (induction ops arbitrary: s)
  case (Cons op ops)
  obtain s1 where "drops_op N std ws s op = Passed s1" "counted N s1" using drops_op_passes [OF Cons.prems] by blast
  then show ?case using Cons.IH by simp
qed simp

lemma drain_loop_passes:
  assumes "agrees N (drop_q s) model" "length model < n"
  shows "\<exists>q'. drain_loop n std ws s = Passed (s\<lparr>drop_q := q', drops := drops s + length model\<rparr>) \<and> agrees N q' []"
  using assms
proof (induction model arbitrary: n s)
  case Nil
  then obtain n' where "n = Suc n'" by (cases n) auto
  then show ?case using agrees_pop [OF Nil.prems(1), of std "ws (drop_q s)"] by (auto simp: harness_defs)
next
  case (Cons x model)
  then obtain n' where n: "n = Suc n'" by (cases n) auto
  obtain q1 where q1: "pop std (ws (drop_q s)) (drop_q s) = Some (q1, Some x)" "agrees N q1 model"
    using agrees_pop [OF Cons.prems(1), of std "ws (drop_q s)"] by auto
  then show ?case
    using Cons.IH [of "s\<lparr>drop_q := q1, drops := drops s + 1\<rparr>" n'] Cons.prems(2) n by (simp add: harness_defs)
qed

section \<open>Properties\<close>

text \<open>C30: The fuzz target finds nothing. On every input, of any length, every operation returns and
  every assertion of the target holds; it ends with the queue holding what the model holds.\<close>

theorem fuzz_target_passes:
  "\<exists>q model. fuzz_target std ws ops = Passed (q, model) \<and> contents q = model \<and> length model \<le> CAP"
proof -
  obtain q :: "u8 queue" where "new CAP = Some q"
    using new_repr [of CAP, where 'a = u8] by (auto simp: CAP_def max_capacity_def)
  then show ?thesis
    using fuzz_loop_passes [OF agrees_new, of q std ws "take 4096 ops"] by (auto simp: fuzz_target_def agrees_def)
qed

text \<open>The differential test passes on every sequence of operations, at every capacity that \<open>new\<close>
  accepts.\<close>

theorem check_ops_passes:
  assumes "0 < N" "N \<le> max_capacity"
  shows "\<exists>q model. check_ops N std ws ops = Passed (q, model) \<and> contents q = model"
proof -
  obtain q :: "u8 queue" where "new N = Some q" using new_repr [OF assms, where 'a = u8] by blast
  then show ?thesis
    using check_loop_passes [OF agrees_new, of N q std ws ops] by (auto simp: check_ops_def agrees_def)
qed

theorem check_ops_passes_witness:
  "(\<exists>q model. check_ops 1 False (\<lambda>_. [True]) [OpPush 5, OpForcePush 6, OpIsFull, OpPop] = Passed (q, model)) \<and>
   0 < (1 :: nat) \<and> 1 \<le> max_capacity"
proof -
  have cap: "0 < (1 :: nat)" "1 \<le> max_capacity" by (simp_all add: max_capacity_def)
  from check_ops_passes [OF cap, of False "\<lambda>_. [True]"] cap show ?thesis by blast
qed

text \<open>C31: The drop accounting of the differential test holds on every sequence of operations: the number
  of destructors that ran is the number of pushes, accepted or refused. The final loop that empties
  the queue ends.\<close>

theorem check_drops_passes:
  assumes "0 < N" "N \<le> max_capacity"
  shows "\<exists>n. check_drops N std ws ops = Passed n"
proof -
  obtain q :: "u8 queue" where q: "new N = Some q" using new_repr [OF assms, where 'a = u8] by blast
  let ?s = "\<lparr>drop_q = q, drop_model = [], drops = 0, pushed_ok = 0, failed = 0\<rparr>"
  have "counted N ?s" using agrees_new [OF q] by (simp add: counted_def)
  then obtain s where s: "drops_loop N std ws ?s ops = Passed s" "counted N s" using drops_loop_passes by blast
  then have a: "agrees N (drop_q s) (drop_model s)" by (simp add: counted_def)
  then obtain q' where q': "drain_loop (Suc (capacity (drop_q s))) std ws s =
      Passed (s\<lparr>drop_q := q', drops := drops s + length (drop_model s)\<rparr>)" "agrees N q' []"
    using drain_loop_passes [OF a, of "Suc (capacity (drop_q s))"] by (auto simp: agrees_def)
  obtain q'' where "drop_queue True q' = Some (q'', [])"
    using drop_queue_contents [of q'] q'(2) by (auto simp: agrees_def)
  then show ?thesis using q s q' by (simp add: check_drops_def harness_defs counted_def)
qed

theorem check_drops_passes_witness:
  "(\<exists>n. check_drops 8 False (\<lambda>_. []) [OpPush 5, OpPush 6, OpPop, OpForcePush 7] = Passed n) \<and>
   0 < (8 :: nat) \<and> 8 \<le> max_capacity"
proof -
  have cap: "0 < (8 :: nat)" "8 \<le> max_capacity" by (simp_all add: max_capacity_def)
  from check_drops_passes [OF cap, of False "\<lambda>_. []"] cap show ?thesis by blast
qed

end
