(* ===== verification/Loom.thy ===== *)
theory Loom
  imports Nure_Seq
begin

text \<open>
  The build with the feature \<open>loom\<close>. It replaces the atomics and the cells by those of the crate \<open>loom\<close>,
  so \<open>Slot\<close> keeps its stamp outside a cell and reaches its payload through the closures of
  \<open>UnsafeCell::with\<close> and \<open>UnsafeCell::with_mut\<close>; \<open>new\<close> is a regular function. The cell is a parameter: its
  type, \<open>UnsafeCell::new\<close>, \<open>with\<close> and \<open>with_mut\<close>. The closures see the payload as \<open>MaybeUninit<T>\<close>, an
  option; a closure of \<open>with_mut\<close> gives a result and the new payload. The property says that this
  build does what the default build does, given that \<open>with\<close> and \<open>with_mut\<close> apply their closure to the
  content of the cell, once.
\<close>

section \<open>Slots of the loom build\<close>

record 'c loom_slot =
  loom_stamp :: index
  loom_value :: 'c

type_synonym ('a, 'c) loom_with = "'c \<Rightarrow> ('a option \<Rightarrow> 'a option) \<Rightarrow> 'a option"
type_synonym ('a, 'c) loom_with_mut = "'c \<Rightarrow> ('a option \<Rightarrow> 'a option \<times> 'a option) \<Rightarrow> 'a option \<times> 'c"

definition loom_write_value :: "('a, 'c) loom_with_mut \<Rightarrow> 'c loom_slot \<Rightarrow> 'a \<Rightarrow> 'c loom_slot" where
  "loom_write_value with_mut s v = s\<lparr>loom_value := snd (with_mut (loom_value s) (\<lambda>p. (None, Some v)))\<rparr>"

definition loom_read_value :: "('a, 'c) loom_with \<Rightarrow> 'c loom_slot \<Rightarrow> 'a option" where
  "loom_read_value with_ref s = with_ref (loom_value s) (\<lambda>p. p)"

definition loom_drop_value :: "('a, 'c) loom_with_mut \<Rightarrow> 'c loom_slot \<Rightarrow> ('c loom_slot \<times> 'a) option" where
  "loom_drop_value with_mut s =
     (case with_mut (loom_value s) (\<lambda>p. (p, None)) of
        (r, c) \<Rightarrow> map_option (\<lambda>v. (s\<lparr>loom_value := c\<rparr>, v)) r)"

definition loom_replace_value :: "('a, 'c) loom_with_mut \<Rightarrow> 'c loom_slot \<Rightarrow> 'a \<Rightarrow> ('c loom_slot \<times> 'a) option" where
  "loom_replace_value with_mut s v =
     (case with_mut (loom_value s) (\<lambda>p. (p, Some v)) of
        (r, c) \<Rightarrow> map_option (\<lambda>old. (s\<lparr>loom_value := c\<rparr>, old)) r)"

definition loom_stamp_load :: "'c loom_slot \<Rightarrow> index" where
  "loom_stamp_load s = loom_stamp s"

definition loom_stamp_store :: "'c loom_slot \<Rightarrow> index \<Rightarrow> 'c loom_slot" where
  "loom_stamp_store s w = s\<lparr>loom_stamp := w\<rparr>"

section \<open>The constructor of the loom build\<close>

record 'c loom_queue =
  loom_head :: index
  loom_tail :: index
  loom_buffer :: "'c loom_slot option list"
  loom_one_lap :: index

function loom_new_loop :: "('a option \<Rightarrow> 'c) \<Rightarrow> nat \<Rightarrow> nat \<Rightarrow> 'c loom_slot option list \<Rightarrow> 'c loom_slot option list" where
  "loom_new_loop cell_new N i buf =
     (if i < N
      then loom_new_loop cell_new N (i + 1) (buf[i := Some \<lparr>loom_stamp = of_nat i, loom_value = cell_new None\<rparr>])
      else buf)"
  by pat_completeness auto
termination
  by (relation "measure (\<lambda>(c, N, i, buf). N - i)") auto

declare loom_new_loop.simps [simp del]

definition loom_new :: "('a option \<Rightarrow> 'c) \<Rightarrow> nat \<Rightarrow> 'c loom_queue option" where
  "loom_new cell_new N =
     (if 0 < N \<and> N \<le> max_capacity
      then (case one_lap_for (of_nat N) of
              None \<Rightarrow> None
            | Some L \<Rightarrow> Some \<lparr>loom_head = 0, loom_tail = 0,
                loom_buffer = loom_new_loop cell_new N 0 (replicate N None), loom_one_lap = L\<rparr>)
      else None)"

section \<open>Agreement with the default build\<close>

definition as_slot :: "('c \<Rightarrow> 'a option) \<Rightarrow> 'c loom_slot \<Rightarrow> 'a slot" where
  "as_slot content s = \<lparr>stamp = loom_stamp s, slot_value = content (loom_value s)\<rparr>"

definition as_queue :: "('c \<Rightarrow> 'a option) \<Rightarrow> 'c loom_queue \<Rightarrow> 'a queue" where
  "as_queue content q = \<lparr>head = loom_head q, tail = loom_tail q,
     buffer = map (map_option (as_slot content)) (loom_buffer q), one_lap = loom_one_lap q\<rparr>"

lemma loom_new_loop_agrees:
  assumes "\<And>x. content (cell_new x) = x"
  shows "map (map_option (as_slot content)) (loom_new_loop cell_new N i buf) =
    new_loop N i (map (map_option (as_slot content)) buf)"
  using assms
proof (induction cell_new N i buf rule: loom_new_loop.induct)
  case (1 cell_new N i buf)
  show ?case
  proof (cases "i < N")
    case True
    then show ?thesis
      using 1 by (simp add: loom_new_loop.simps [of _ N i] new_loop.simps [of N i] map_update as_slot_def)
  next
    case False
    then show ?thesis by (simp add: loom_new_loop.simps [of _ N i] new_loop.simps [of N i])
  qed
qed

lemma loom_new_agrees:
  assumes "\<And>x. content (cell_new x) = x"
  shows "map_option (as_queue content) (loom_new cell_new N) = new N"
  using loom_new_loop_agrees [of content cell_new N 0 "replicate N None"] assms
  by (auto simp: loom_new_def new_def as_queue_def split: option.split)

text \<open>C32: The loom build does what the default build does: its constructor and its slot accessors agree
  with those of the default build (including on uninitialised payloads), given that a cell holds what
  it was made with and that \<open>with\<close> and \<open>with_mut\<close> apply their closure to the content of the cell.\<close>

theorem loom_build_agrees:
  assumes cell_new: "\<And>x. content (cell_new x) = x"
    and with_ref: "\<And>c f. with_ref c f = f (content c)"
    and with_mut: "\<And>c f. fst (with_mut c f) = fst (f (content c)) \<and> content (snd (with_mut c f)) = snd (f (content c))"
  shows "map_option (as_queue content) (loom_new cell_new N) = new N \<and>
    as_slot content (loom_write_value with_mut s v) = write_value (as_slot content s) v \<and>
    loom_read_value with_ref s = read_value (as_slot content s) \<and>
    map_option (apfst (as_slot content)) (loom_drop_value with_mut s) = drop_value (as_slot content s) \<and>
    map_option (apfst (as_slot content)) (loom_replace_value with_mut s v) = replace_value (as_slot content s) v \<and>
    loom_stamp_load s = stamp_load (as_slot content s) \<and>
    as_slot content (loom_stamp_store s w) = stamp_store (as_slot content s) w"
proof -
  have drop_agrees: "map_option (apfst (as_slot content)) (loom_drop_value with_mut s) = drop_value (as_slot content s)"
    using with_mut [of "loom_value s" "\<lambda>p. (p, None)"]
    by (cases "content (loom_value s)") (auto simp: loom_drop_value_def drop_value_def as_slot_def split: prod.split)
  have replace_agrees: "map_option (apfst (as_slot content)) (loom_replace_value with_mut s v) =
      replace_value (as_slot content s) v"
    using with_mut [of "loom_value s" "\<lambda>p. (p, Some v)"]
    by (cases "content (loom_value s)") (auto simp: loom_replace_value_def replace_value_def as_slot_def split: prod.split)
  show ?thesis
    using loom_new_agrees [of content cell_new, OF cell_new] with_ref with_mut drop_agrees replace_agrees
    by (simp add: loom_write_value_def loom_read_value_def loom_stamp_load_def loom_stamp_store_def as_slot_def
        write_value_def read_value_def stamp_load_def stamp_store_def)
qed

theorem loom_build_agrees_witness:
  "as_slot (\<lambda>c. c) (loom_write_value (\<lambda>c f. f c) \<lparr>loom_stamp = 0, loom_value = None\<rparr> 7) =
     \<lparr>stamp = 0, slot_value = Some (7 :: nat)\<rparr> \<and>
   map_option (as_queue (\<lambda>c. c)) (loom_new (\<lambda>x. x) 2) = Some queue2"
  using loom_build_agrees [of "\<lambda>c. c" "\<lambda>x. x" "\<lambda>c f. f c" "\<lambda>c f. f c" 2 "\<lparr>loom_stamp = 0, loom_value = None\<rparr>" "7 :: nat"]
    new_two by (simp add: as_slot_def write_value_def)

end
