(* ===== verification/Single_Size.thy ===== *)
theory Single_Size
  imports Fifo_Spec Linearize
begin

text \<open>
  The one-element queue of \<^verbatim>\<open>src/third-party/lfqueue/src/single.rs\<close>: its operations as machines
  with one memory access per step, used alone (where it is a bounded queue of capacity one) and
  by any number of threads. Under contention an operation may be refused although the queue has
  room or an element; the specification allows a refusal only while another operation is under
  way.
\<close>

section \<open>The cell and its operations\<close>

text \<open>The state byte: \<open>EMPTY\<close>, \<open>WRITING\<close>, \<open>READY\<close>, \<open>READING\<close>.\<close>

type_synonym u8 = "8 word"

abbreviation EMPTY :: u8 where "EMPTY \<equiv> 0"
abbreviation WRITING :: u8 where "WRITING \<equiv> 1"
abbreviation READY :: u8 where "READY \<equiv> 2"
abbreviation READING :: u8 where "READING \<equiv> 3"

record 'a single =
  payload :: "'a option"
  state :: u8

definition single_new :: "'a single" where
  "single_new = \<lparr>payload = None, state = EMPTY\<rparr>"

datatype 'a enq_pc =
    EnqLoad 'a         \<comment> \<open>before the relaxed load\<close>
  | EnqCas 'a          \<comment> \<open>before the exchange of \<open>EMPTY\<close> for \<open>WRITING\<close>\<close>
  | EnqWrite 'a        \<comment> \<open>before the write of the payload\<close>
  | EnqStore           \<comment> \<open>before the store of \<open>READY\<close>\<close>
  | EnqRet "(unit, 'a) rust_result"
  | EnqUB              \<comment> \<open>the payload has been accessed in a data race\<close>

datatype 'a deq_pc =
    DeqLoad            \<comment> \<open>before the relaxed load\<close>
  | DeqCas             \<comment> \<open>before the exchange of \<open>READY\<close> for \<open>READING\<close>\<close>
  | DeqRead            \<comment> \<open>before the read of the payload\<close>
  | DeqStore 'a        \<comment> \<open>before the store of \<open>EMPTY\<close>\<close>
  | DeqRet "'a option"
  | DeqUB              \<comment> \<open>the payload was uninitialised or accessed in a data race\<close>

fun single_enqueue_step :: "'a single \<Rightarrow> 'a enq_pc \<Rightarrow> 'a single \<times> 'a enq_pc" where
  "single_enqueue_step c (EnqLoad v) = (c, if state c \<noteq> EMPTY then EnqRet (Err v) else EnqCas v)"
| "single_enqueue_step c (EnqCas v) =
     (case compare_exchange (state c) EMPTY WRITING of
        (w, Ok _) \<Rightarrow> (c\<lparr>state := w\<rparr>, EnqWrite v)
      | (w, Err _) \<Rightarrow> (c\<lparr>state := w\<rparr>, EnqRet (Err v)))"
| "single_enqueue_step c (EnqWrite v) = (c\<lparr>payload := Some v\<rparr>, EnqStore)"
| "single_enqueue_step c EnqStore = (c\<lparr>state := READY\<rparr>, EnqRet (Ok ()))"
| "single_enqueue_step c pc = (c, pc)"

fun single_dequeue_step :: "'a single \<Rightarrow> 'a deq_pc \<Rightarrow> 'a single \<times> 'a deq_pc" where
  "single_dequeue_step c DeqLoad = (c, if state c \<noteq> READY then DeqRet None else DeqCas)"
| "single_dequeue_step c DeqCas =
     (case compare_exchange (state c) READY READING of
        (w, Ok _) \<Rightarrow> (c\<lparr>state := w\<rparr>, DeqRead)
      | (w, Err _) \<Rightarrow> (c\<lparr>state := w\<rparr>, DeqRet None))"
| "single_dequeue_step c DeqRead = (c, case payload c of Some v \<Rightarrow> DeqStore v | None \<Rightarrow> DeqUB)"
| "single_dequeue_step c (DeqStore v) = (c\<lparr>state := EMPTY\<rparr>, DeqRet (Some v))"
| "single_dequeue_step c pc = (c, pc)"

text \<open>\<open>drop\<close>: the payload whose destructor runs; \<open>None\<close> is undefined behaviour.\<close>

definition single_drop :: "'a single \<Rightarrow> 'a list option" where
  "single_drop c = (if state c = READY then map_option (\<lambda>v. [v]) (payload c) else Some [])"

section \<open>Used by one thread\<close>

fun enq_returned :: "'a enq_pc \<Rightarrow> (unit, 'a) rust_result option" where
  "enq_returned (EnqRet r) = Some r"
| "enq_returned _ = None"

fun deq_returned :: "'a deq_pc \<Rightarrow> 'a option option" where
  "deq_returned (DeqRet r) = Some r"
| "deq_returned _ = None"

definition single_enqueue :: "'a single \<Rightarrow> 'a \<Rightarrow> ('a single \<times> (unit, 'a) rust_result) option" where
  "single_enqueue c v =
     run_solo (\<lambda>_. single_enqueue_step) enq_returned (replicate 4 False) c (EnqLoad v)"

definition single_dequeue :: "'a single \<Rightarrow> ('a single \<times> 'a option) option" where
  "single_dequeue c = run_solo (\<lambda>_. single_dequeue_step) deq_returned (replicate 4 False) c DeqLoad"

definition single_contents :: "'a single \<Rightarrow> 'a list" where
  "single_contents c = (if state c = READY then (case payload c of Some v \<Rightarrow> [v] | None \<Rightarrow> []) else [])"

definition single_wf :: "'a single \<Rightarrow> bool" where
  "single_wf c \<longleftrightarrow> state c = EMPTY \<or> state c = READY \<and> payload c \<noteq> None"

lemmas single_defs = single_contents_def single_wf_def single_enqueue_def single_dequeue_def
  compare_exchange_def compare_exchange_weak_def

lemma single_ops:
  assumes "single_wf c"
  shows "single_contents c = [] \<Longrightarrow> single_enqueue c v = Some (c\<lparr>payload := Some v, state := READY\<rparr>, Ok ())"
    "single_contents c = [x] \<Longrightarrow> single_enqueue c v = Some (c, Err v)"
    "single_contents c = [] \<Longrightarrow> single_dequeue c = Some (c, None)"
    "single_contents c = [x] \<Longrightarrow> single_dequeue c = Some (c\<lparr>state := EMPTY\<rparr>, Some x)"
  using assms by (auto simp: single_defs numeral_eq_Suc)

lemma single_cases:
  assumes "single_wf c"
  obtains "single_contents c = []" "state c = EMPTY" | x where "single_contents c = [x]"
  using assms by (auto simp: single_defs)

interpretation sq: fifo_queue single_wf single_contents "\<lambda>_. 1" single_enqueue single_dequeue
proof (unfold_locales, goal_cases)
  case (1 q)
  then show ?case by (auto elim!: single_cases)
next
  case (2 q v)
  then show ?case by (auto elim!: single_cases simp: single_ops) (auto simp: single_defs)
next
  case (3 q v)
  show ?case by (cases rule: single_cases [OF 3(1)]) (use 3 in \<open>auto simp: single_ops\<close>)
next
  case (4 q x xs)
  then show ?case
    using single_ops(4) [OF 4(1)] by (cases rule: single_cases [OF 4(1)]) (auto simp: single_contents_def single_wf_def)
next
  case (5 q)
  then show ?case by (auto simp: single_ops)
qed

section \<open>Used by any number of threads\<close>

datatype 'a single_thread = SIdle | Enqueuing "'a enq_pc" | Dequeuing "'a deq_pc"

record 'a single_sys =
  cell :: "'a single"
  pcs :: "nat \<Rightarrow> 'a single_thread"

fun single_start :: "'a fifo_cmd \<Rightarrow> 'a single_thread" where
  "single_start (Enq v) = Enqueuing (EnqLoad v)"
| "single_start Deq = Dequeuing DeqLoad"

fun single_returned :: "'a single_thread \<Rightarrow> 'a fifo_ret option" where
  "single_returned (Enqueuing (EnqRet r)) = Some (REnq r)"
| "single_returned (Dequeuing (DeqRet r)) = Some (RDeq r)"
| "single_returned _ = None"

fun single_thread_step :: "'a single \<Rightarrow> 'a single_thread \<Rightarrow> 'a single \<times> 'a single_thread" where
  "single_thread_step c SIdle = (c, SIdle)"
| "single_thread_step c (Enqueuing pc) = map_prod id Enqueuing (single_enqueue_step c pc)"
| "single_thread_step c (Dequeuing pc) = map_prod id Dequeuing (single_dequeue_step c pc)"

type_synonym 'a fifo_label = "('a fifo_cmd, 'a fifo_ret) label"

inductive single_sys_step :: "'a single_sys \<Rightarrow> 'a fifo_label \<Rightarrow> 'a single_sys \<Rightarrow> bool" where
  s_call: "pcs s i = SIdle \<Longrightarrow>
    single_sys_step s (Call i c) (s\<lparr>pcs := (pcs s)(i := single_start c)\<rparr>)"
| s_internal: "pcs s i \<noteq> SIdle \<Longrightarrow> single_returned (pcs s i) = None \<Longrightarrow>
    single_thread_step (cell s) (pcs s i) = (c', th') \<Longrightarrow>
    single_sys_step s Tau (s\<lparr>cell := c', pcs := (pcs s)(i := th')\<rparr>)"
| s_return: "single_returned (pcs s i) = Some r \<Longrightarrow>
    single_sys_step s (Return i r) (s\<lparr>pcs := (pcs s)(i := SIdle)\<rparr>)"

definition single_init :: "'a single_sys" where
  "single_init = \<lparr>cell = single_new, pcs = (\<lambda>_. SIdle)\<rparr>"

subsection \<open>The specification\<close>

datatype 'a try_stat = TIdle | TPending "'a fifo_cmd" | TDone "'a fifo_ret"

record 'a try_spec =
  content :: "'a list"
  tstats :: "nat \<Rightarrow> 'a try_stat"

fun refusal :: "'a fifo_cmd \<Rightarrow> 'a fifo_ret" where
  "refusal (Enq v) = REnq (Err v)"
| "refusal Deq = RDeq None"

text \<open>An operation takes effect in one step on a queue of capacity one, or is refused without
  effect; a refusal needs another operation under way.\<close>

inductive try_step :: "'a try_spec \<Rightarrow> 'a fifo_label \<Rightarrow> 'a try_spec \<Rightarrow> bool" where
  t_call: "tstats a i = TIdle \<Longrightarrow>
    try_step a (Call i c) (a\<lparr>tstats := (tstats a)(i := TPending c)\<rparr>)"
| t_apply: "tstats a i = TPending c \<Longrightarrow> fifo_ref 1 (content a) c = (xs, r) \<Longrightarrow>
    try_step a Tau (a\<lparr>content := xs, tstats := (tstats a)(i := TDone r)\<rparr>)"
| t_refuse: "tstats a i = TPending c \<Longrightarrow> j \<noteq> i \<Longrightarrow> tstats a j \<noteq> TIdle \<Longrightarrow>
    try_step a Tau (a\<lparr>tstats := (tstats a)(i := TDone (refusal c))\<rparr>)"
| t_return: "tstats a i = TDone r \<Longrightarrow>
    try_step a (Return i r) (a\<lparr>tstats := (tstats a)(i := TIdle)\<rparr>)"

definition try_init :: "'a try_spec" where
  "try_init = \<lparr>content = [], tstats = (\<lambda>_. TIdle)\<rparr>"

subsection \<open>The simulation\<close>

text \<open>The thread that has won an exchange and not yet stored the next state.\<close>

fun holds_cell :: "'a single_thread \<Rightarrow> bool" where
  "holds_cell (Enqueuing (EnqWrite v)) = True"
| "holds_cell (Enqueuing EnqStore) = True"
| "holds_cell (Enqueuing EnqUB) = True"
| "holds_cell (Dequeuing DeqRead) = True"
| "holds_cell (Dequeuing (DeqStore x)) = True"
| "holds_cell _ = False"

fun single_at :: "'a single \<Rightarrow> 'a list \<Rightarrow> 'a single_thread \<Rightarrow> 'a try_stat \<Rightarrow> bool" where
  "single_at c xs SIdle st \<longleftrightarrow> st = TIdle"
| "single_at c xs (Enqueuing (EnqLoad v)) st \<longleftrightarrow> st = TPending (Enq v)"
| "single_at c xs (Enqueuing (EnqCas v)) st \<longleftrightarrow> st = TPending (Enq v)"
| "single_at c xs (Enqueuing (EnqWrite v)) st \<longleftrightarrow>
     st = TDone (REnq (Ok ())) \<and> state c = WRITING \<and> xs = [v]"
| "single_at c xs (Enqueuing EnqStore) st \<longleftrightarrow>
     st = TDone (REnq (Ok ())) \<and> state c = WRITING \<and> (\<exists>v. payload c = Some v \<and> xs = [v])"
| "single_at c xs (Enqueuing (EnqRet r)) st \<longleftrightarrow> st = TDone (REnq r)"
| "single_at c xs (Enqueuing EnqUB) st \<longleftrightarrow> st = TDone (REnq (Ok ())) \<and> state c = WRITING"
| "single_at c xs (Dequeuing DeqLoad) st \<longleftrightarrow> st = TPending Deq"
| "single_at c xs (Dequeuing DeqCas) st \<longleftrightarrow> st = TPending Deq"
| "single_at c xs (Dequeuing DeqRead) st \<longleftrightarrow>
     state c = READING \<and> xs = [] \<and> (\<exists>x. payload c = Some x \<and> st = TDone (RDeq (Some x)))"
| "single_at c xs (Dequeuing (DeqStore x)) st \<longleftrightarrow>
     state c = READING \<and> xs = [] \<and> st = TDone (RDeq (Some x))"
| "single_at c xs (Dequeuing (DeqRet r)) st \<longleftrightarrow> st = TDone (RDeq r)"
| "single_at c xs (Dequeuing DeqUB) st \<longleftrightarrow> False"

definition cell_ok :: "'a single \<Rightarrow> 'a list \<Rightarrow> bool \<Rightarrow> bool" where
  "cell_ok c xs held \<longleftrightarrow>
     (state c = EMPTY \<and> xs = [] \<and> \<not> held) \<or>
     (state c = READY \<and> (\<exists>v. payload c = Some v \<and> xs = [v]) \<and> \<not> held) \<or>
     (state c \<noteq> EMPTY \<and> state c \<noteq> READY \<and> held)"

definition single_related :: "'a single_sys \<Rightarrow> 'a try_spec \<Rightarrow> bool" where
  "single_related s a \<longleftrightarrow>
     (\<forall>i. single_at (cell s) (content a) (pcs s i) (tstats a i)) \<and>
     (\<forall>i j. holds_cell (pcs s i) \<longrightarrow> holds_cell (pcs s j) \<longrightarrow> i = j) \<and>
     cell_ok (cell s) (content a) (\<exists>i. holds_cell (pcs s i))"

lemma single_at_frame: "single_at c xs th st \<Longrightarrow> \<not> holds_cell th \<Longrightarrow> single_at c' xs' th st"
  by (induction c xs th st rule: single_at.induct) auto

lemma holder_active: "single_at c xs th st \<Longrightarrow> holds_cell th \<Longrightarrow> st \<noteq> TIdle"
  by (induction c xs th st rule: single_at.induct) auto

text \<open>An update by thread \<open>i\<close> when no other thread holds the cell.\<close>

lemma single_related_update:
  assumes "single_related s a" "\<And>j. j \<noteq> i \<Longrightarrow> \<not> holds_cell (pcs s j)"
    and "single_at c' xs' th' st'" "cell_ok c' xs' (holds_cell th')"
  shows "single_related (s\<lparr>cell := c', pcs := (pcs s)(i := th')\<rparr>)
    (a\<lparr>content := xs', tstats := (tstats a)(i := st')\<rparr>)"
proof -
  have "single_at c' xs' (pcs s j) (tstats a j)" if "j \<noteq> i" for j
    by (rule single_at_frame [of "cell s" "content a", OF _ assms(2) [OF that]])
      (use assms(1) in \<open>simp add: single_related_def\<close>)
  moreover have "(\<exists>j. holds_cell (((pcs s)(i := th')) j)) \<longleftrightarrow> holds_cell th'" using assms(2) by auto
  ultimately show ?thesis using assms(2-4) by (auto simp: single_related_def split: if_splits)
qed

text \<open>A change of a thread that neither gains nor loses the cell.\<close>

lemma single_related_local:
  assumes "single_related s a" "single_at (cell s) (content a) th' st'" "\<not> holds_cell (pcs s i)" "\<not> holds_cell th'"
  shows "single_related (s\<lparr>pcs := (pcs s)(i := th')\<rparr>) (a\<lparr>tstats := (tstats a)(i := st')\<rparr>)"
proof -
  have "(\<exists>j. holds_cell (((pcs s)(i := th')) j)) \<longleftrightarrow> (\<exists>j. holds_cell (pcs s j))" using assms(3,4) by auto
  then show ?thesis using assms by (auto simp: single_related_def split: if_splits)
qed

lemma held_by_other:
  assumes "single_related s a" "\<not> holds_cell (pcs s i)" "state (cell s) \<noteq> EMPTY" "state (cell s) \<noteq> READY"
  obtains j where "j \<noteq> i" "tstats a j \<noteq> TIdle"
proof -
  obtain j where j: "holds_cell (pcs s j)" using assms(1,3,4) by (auto simp: single_related_def cell_ok_def)
  have "single_at (cell s) (content a) (pcs s j) (tstats a j)" using assms(1) by (simp add: single_related_def)
  then have "tstats a j \<noteq> TIdle" using j by (rule holder_active)
  then show thesis using that j assms(2) by metis
qed

lemma nobody_holds:
  "single_related s a \<Longrightarrow> state (cell s) = EMPTY \<or> state (cell s) = READY \<Longrightarrow> \<not> holds_cell (pcs s j)"
  by (auto simp: single_related_def cell_ok_def)

lemma only_holder:
  "single_related s a \<Longrightarrow> holds_cell (pcs s i) \<Longrightarrow> j \<noteq> i \<Longrightarrow> \<not> holds_cell (pcs s j)"
  by (auto simp: single_related_def)

lemma content_cases:
  assumes "single_related s a"
  shows "state (cell s) = EMPTY \<Longrightarrow> content a = []"
    "state (cell s) = READY \<Longrightarrow> \<exists>v. payload (cell s) = Some v \<and> content a = [v]"
  using assms by (auto simp: single_related_def cell_ok_def)

text \<open>A refused operation, at the load or at the exchange: by the state of the queue, or because
  another thread holds the cell.\<close>

lemma single_refused:
  assumes "single_related s a" "tstats a i = TPending c" "\<not> holds_cell (pcs s i)"
    and busy: "c = Enq v \<Longrightarrow> state (cell s) \<noteq> EMPTY" "c = Deq \<Longrightarrow> state (cell s) \<noteq> READY"
    and th: "single_at (cell s) (content a) th (TDone (refusal c))" "\<not> holds_cell th"
    and c: "c = Enq v \<or> c = Deq"
  shows "\<exists>a'. single_related (s\<lparr>pcs := (pcs s)(i := th)\<rparr>) a' \<and> try_step a Tau a'"
proof (intro exI conjI)
  let ?a = "a\<lparr>tstats := (tstats a)(i := TDone (refusal c))\<rparr>"
  show "single_related (s\<lparr>pcs := (pcs s)(i := th)\<rparr>) ?a"
    by (rule single_related_local [OF assms(1) th(1) assms(3) th(2)])
  show "try_step a Tau ?a"
  proof (cases "state (cell s) = EMPTY \<or> state (cell s) = READY")
    case True
    then have "fifo_ref 1 (content a) c = (content a, refusal c)"
      using content_cases [OF assms(1)] busy c by auto
    from t_apply [OF assms(2) this] show ?thesis by simp
  next
    case False
    then obtain j where "j \<noteq> i" "tstats a j \<noteq> TIdle" by (auto intro: held_by_other [OF assms(1,3)])
    then show ?thesis by (rule t_refuse [OF assms(2)])
  qed
qed

text \<open>A step of the thread that holds the cell changes the cell and no other thread's assertion.\<close>

lemma holder_step:
  assumes "single_related s a" "holds_cell (pcs s i)" "single_at c' (content a) th' (tstats a i)"
    "cell_ok c' (content a) (holds_cell th')"
  shows "\<exists>a'. single_related (s\<lparr>cell := c', pcs := (pcs s)(i := th')\<rparr>) a' \<and> (try_step a Tau a' \<or> a' = a)"
  using single_related_update [OF assms(1), of i c' "content a" th' "tstats a i"]
    only_holder [OF assms(1,2)] assms(3,4) by auto

text \<open>A step that only changes a thread which does not hold the cell.\<close>

lemma local_step:
  assumes "single_related s a" "\<not> holds_cell (pcs s i)" "single_at (cell s) (content a) th' (tstats a i)"
    "\<not> holds_cell th'"
  shows "\<exists>a'. single_related (s\<lparr>pcs := (pcs s)(i := th')\<rparr>) a' \<and> (try_step a Tau a' \<or> a' = a)"
  using single_related_local [OF assms(1,3,2,4)] by auto

lemma single_returned_status:
  assumes "single_at c xs th st" "single_returned th = Some r"
  shows "st = TDone r" "\<not> holds_cell th"
  using assms by (induction th rule: single_returned.induct) auto

lemma single_enqueue_internal:
  assumes "single_related s a" "pcs s i = Enqueuing pc" "enq_returned pc = None"
    "single_enqueue_step (cell s) pc = (c', pc')"
  shows "\<exists>a'. single_related (s\<lparr>cell := c', pcs := (pcs s)(i := Enqueuing pc')\<rparr>) a' \<and>
    (try_step a Tau a' \<or> a' = a)"
proof -
  have at: "single_at (cell s) (content a) (Enqueuing pc) (tstats a i)"
    using assms(1,2) by (metis single_related_def)
  note cx = compare_exchange_def compare_exchange_weak_def
  show ?thesis
  proof (cases pc)
    case (EnqLoad v)
    then show ?thesis
      using at assms(2,4) single_refused [OF assms(1), of i "Enq v" v "Enqueuing pc'"]
        local_step [OF assms(1), of i "Enqueuing pc'"]
      by (cases "state (cell s) = EMPTY") auto
  next
    case (EnqCas v)
    show ?thesis
    proof (cases "state (cell s) = EMPTY")
      case True
      let ?a = "a\<lparr>content := [v], tstats := (tstats a)(i := TDone (REnq (Ok ())))\<rparr>"
      have "single_related (s\<lparr>cell := c', pcs := (pcs s)(i := Enqueuing pc')\<rparr>) ?a"
        using True EnqCas assms(4) nobody_holds [OF assms(1)]
        by (intro single_related_update [OF assms(1)]) (auto simp: cx cell_ok_def)
      moreover have "try_step a Tau ?a"
        using at EnqCas content_cases(1) [OF assms(1) True] by (intro t_apply [of _ _ "Enq v"]) auto
      ultimately show ?thesis by blast
    next
      case False
      then show ?thesis
        using EnqCas at assms(2,4) single_refused [OF assms(1), of i "Enq v" v "Enqueuing pc'"]
        by (auto simp: cx)
    qed
  qed (use at assms(2-4) holder_step [OF assms(1), of i c' "Enqueuing pc'"] in \<open>auto simp: cell_ok_def\<close>)
qed

lemma single_dequeue_internal:
  assumes "single_related s a" "pcs s i = Dequeuing pc" "deq_returned pc = None"
    "single_dequeue_step (cell s) pc = (c', pc')"
  shows "\<exists>a'. single_related (s\<lparr>cell := c', pcs := (pcs s)(i := Dequeuing pc')\<rparr>) a' \<and>
    (try_step a Tau a' \<or> a' = a)"
proof -
  have at: "single_at (cell s) (content a) (Dequeuing pc) (tstats a i)"
    using assms(1,2) by (metis single_related_def)
  note cx = compare_exchange_def compare_exchange_weak_def
  show ?thesis
  proof (cases pc)
    case DeqLoad
    then show ?thesis
      using at assms(2,4) single_refused [OF assms(1), of i Deq _ "Dequeuing pc'"]
        local_step [OF assms(1), of i "Dequeuing pc'"]
      by (cases "state (cell s) = READY") auto
  next
    case DeqCas
    show ?thesis
    proof (cases "state (cell s) = READY")
      case True
      then obtain v where v: "payload (cell s) = Some v" "content a = [v]"
        using content_cases(2) [OF assms(1)] by auto
      let ?a = "a\<lparr>content := [], tstats := (tstats a)(i := TDone (RDeq (Some v)))\<rparr>"
      have "single_related (s\<lparr>cell := c', pcs := (pcs s)(i := Dequeuing pc')\<rparr>) ?a"
        using True v DeqCas assms(4) nobody_holds [OF assms(1)]
        by (intro single_related_update [OF assms(1)]) (auto simp: cx cell_ok_def)
      moreover have "try_step a Tau ?a"
        using at DeqCas v by (intro t_apply [of _ _ Deq]) auto
      ultimately show ?thesis by blast
    next
      case False
      then show ?thesis
        using DeqCas at assms(2,4) single_refused [OF assms(1), of i Deq _ "Dequeuing pc'"]
        by (auto simp: cx)
    qed
  qed (use at assms(2-4) holder_step [OF assms(1), of i c' "Dequeuing pc'"] in \<open>auto simp: cell_ok_def\<close>)
qed

lemma single_step_simulated:
  assumes "single_sys_step s l s'" "single_related s a"
  shows "\<exists>a'. single_related s' a' \<and> (try_step a l a' \<or> l = Tau \<and> a' = a)"
  using assms(1)
proof cases
  case (s_call i c)
  have at: "single_at (cell s) (content a) (pcs s i) (tstats a i)" using assms(2) by (simp add: single_related_def)
  have "single_related s' (a\<lparr>tstats := (tstats a)(i := TPending c)\<rparr>)"
    unfolding s_call(2) using s_call(3)
    by (intro single_related_local [OF assms(2)]) (cases c; simp)+
  then show ?thesis using t_call [of a i c] at s_call by auto
next
  case (s_internal i c' th')
  show ?thesis
  proof (cases "pcs s i")
    case (Enqueuing pc)
    moreover obtain pc' where "single_enqueue_step (cell s) pc = (c', pc')" "th' = Enqueuing pc'"
      using s_internal(5) Enqueuing by (cases "single_enqueue_step (cell s) pc") auto
    moreover have "enq_returned pc = None" using s_internal(4) Enqueuing by (cases pc) auto
    ultimately show ?thesis using single_enqueue_internal [OF assms(2)] s_internal(1,2) by auto
  next
    case (Dequeuing pc)
    moreover obtain pc' where "single_dequeue_step (cell s) pc = (c', pc')" "th' = Dequeuing pc'"
      using s_internal(5) Dequeuing by (cases "single_dequeue_step (cell s) pc") auto
    moreover have "deq_returned pc = None" using s_internal(4) Dequeuing by (cases pc) auto
    ultimately show ?thesis using single_dequeue_internal [OF assms(2)] s_internal(1,2) by auto
  qed (use s_internal(3) in simp)
next
  case (s_return i r)
  have at: "single_at (cell s) (content a) (pcs s i) (tstats a i)" using assms(2) by (simp add: single_related_def)
  show ?thesis
    using single_returned_status [OF at s_return(3)] single_related_local [OF assms(2), of SIdle TIdle i] t_return [of a i r] s_return(1,2) by auto
qed

lemma single_related_safe:
  assumes "single_related s a"
  shows "(holds_cell (pcs s i) \<and> holds_cell (pcs s j) \<longrightarrow> i = j) \<and> pcs s i \<noteq> Dequeuing DeqUB"
  using assms unfolding single_related_def by (metis single_at.simps(13))

interpretation ss: bounded_simulation single_sys_step try_step "\<lambda>_. single_related" "\<lambda>s. s = single_init"
    try_init budget for budget
proof
  show "single_related s try_init" if "s = single_init" for s :: "'a single_sys"
    using that by (auto simp: single_related_def single_init_def try_init_def single_new_def cell_ok_def)
qed (use single_step_simulated in blast)

section \<open>Schedules\<close>

fun single_sched :: "'a single_sys \<Rightarrow> ('a fifo_cmd, bool) move \<Rightarrow> ('a fifo_label \<times> 'a single_sys) option" where
  "single_sched s (MCall i c) =
     (case pcs s i of
        SIdle \<Rightarrow> Some (Call i c, s\<lparr>pcs := (pcs s)(i := single_start c)\<rparr>)
      | _ \<Rightarrow> None)"
| "single_sched s (MStep i _) =
     (case single_returned (pcs s i) of
        Some _ \<Rightarrow> None
      | None \<Rightarrow> (case pcs s i of
          SIdle \<Rightarrow> None
        | th \<Rightarrow> (case single_thread_step (cell s) th of
            (c', th') \<Rightarrow> Some (Tau, s\<lparr>cell := c', pcs := (pcs s)(i := th')\<rparr>))))"
| "single_sched s (MReturn i) =
     (case single_returned (pcs s i) of
        Some r \<Rightarrow> Some (Return i r, s\<lparr>pcs := (pcs s)(i := SIdle)\<rparr>)
      | None \<Rightarrow> None)"

lemma single_sched_sound: "single_sched s m = Some (l, s') \<Longrightarrow> single_sys_step s l s'"
proof (induction m)
  case (MStep i w)
  obtain c' th' where "single_thread_step (cell s) (pcs s i) = (c', th')" by fastforce
  with MStep show ?case
    using s_internal [of s i c' th'] by (auto split: single_thread.splits option.splits)
qed (auto intro: single_sys_step.intros split: single_thread.splits option.splits)

lemma single_run_sound: "sched_run single_sched s ms = Some (ls, s') \<Longrightarrow> exec single_sys_step s ls s'"
  by (rule sched_run_exec [where f = single_sched]) (auto intro: single_sched_sound)

text \<open>A \<open>dequeue\<close> that is suspended after its exchange: another thread is told that the queue is
  empty, and then that it is full.\<close>

definition refused_moves :: "(nat fifo_cmd, bool) move list" where
  "refused_moves = [MCall 0 (Enq 7), MStep 0 False, MStep 0 False, MStep 0 False, MStep 0 False, MReturn 0,
     MCall 1 Deq, MStep 1 False, MStep 1 False,
     MCall 2 Deq, MStep 2 False, MReturn 2, MCall 2 (Enq 8), MStep 2 False, MReturn 2]"

lemma refused_run:
  obtains ls s where "sched_run single_sched single_init refused_moves = Some (ls, s)"
    "exec single_sys_step single_init ls s"
    "history ls = [Call 0 (Enq 7), Return 0 (REnq (Ok ())), Call 1 Deq, Call 2 Deq, Return 2 (RDeq None),
       Call 2 (Enq 8), Return 2 (REnq (Err 8))]" "pcs s 1 = Dequeuing DeqRead"
proof -
  have "\<exists>ls s. sched_run single_sched single_init refused_moves = Some (ls, s) \<and>
    history ls = [Call 0 (Enq 7), Return 0 (REnq (Ok ())), Call 1 Deq, Call 2 Deq, Return 2 (RDeq None),
       Call 2 (Enq 8), Return 2 (REnq (Err 8))] \<and> pcs s 1 = Dequeuing DeqRead"
    by (simp add: refused_moves_def single_init_def single_new_def compare_exchange_def
        compare_exchange_weak_def history_def)
  then show thesis using that single_run_sound by blast
qed

lemma single_new_wf: "single_wf single_new" "single_contents single_new = []"
  by (simp_all add: single_new_def single_wf_def single_contents_def)

section \<open>Properties\<close>

text \<open>Used by one thread, \<open>SingleSize\<close> is a queue of capacity one: any sequence of operations on
  a new cell returns, with the results of the reference queue.\<close>

theorem single_sequential:
  "\<exists>c' rs. run_ops (fifo_op single_enqueue single_dequeue) single_new ps = Some (c', rs) \<and>
     fifo_ref_run 1 [] ps = (single_contents c', rs)"
  using sq.run_refines [OF single_new_wf(1), of ps] by (auto simp: single_new_wf)



text \<open>C35: Exclusive access. At most one thread is between its exchange and its store, and no thread
  reads an uninitialised payload.\<close>

theorem single_exclusive:
  assumes "exec single_sys_step single_init ls s"
  shows "(holds_cell (pcs s i) \<and> holds_cell (pcs s j) \<longrightarrow> i = j) \<and> pcs s i \<noteq> Dequeuing DeqUB"
proof -
  obtain a where "single_related s a" using ss.exec_related [OF assms refl order_refl] by blast
  then show ?thesis using single_related_safe by blast
qed

theorem single_exclusive_witness:
  "\<exists>ls s. sched_run single_sched single_init refused_moves = Some (ls, s) \<and> holds_cell (pcs s 1) \<and>
     \<not> holds_cell (pcs s 2)"
proof -
  obtain ls s where r: "sched_run single_sched single_init refused_moves = Some (ls, s)"
    "exec single_sys_step single_init ls s" "pcs s 1 = Dequeuing DeqRead" by (rule refused_run)
  from single_exclusive [OF r(2), of 1 2] r(1,3) show ?thesis by fastforce
qed

text \<open>The price of the single state byte: there is a run in which one thread is told that the queue
  is empty and, by its next operation, that it is full, with nothing enqueued in between: the
  \<open>enqueue\<close> is refused because of a \<open>dequeue\<close> that is suspended in another thread.\<close>

theorem single_spurious_refusal:
  "\<exists>ls s. exec single_sys_step single_init ls s \<and>
     history ls = [Call 0 (Enq 7), Return 0 (REnq (Ok ())), Call 1 Deq, Call 2 Deq, Return 2 (RDeq None),
       Call 2 (Enq 8), Return 2 (REnq (Err (8 :: nat)))]"
  by (rule refused_run) blast

text \<open>\<open>drop\<close> runs the destructor of exactly the stored element.\<close>

theorem single_drop_exact:
  assumes "single_wf c"
  shows "single_drop c = Some (single_contents c)"
  using assms by (auto simp: single_defs single_drop_def)

theorem single_drop_exact_witness:
  "single_drop \<lparr>payload = Some (7 :: nat), state = READY\<rparr> = Some [7]"
  using single_drop_exact [of "\<lparr>payload = Some (7 :: nat), state = READY\<rparr>"]
  by (simp add: single_wf_def single_contents_def)

end
