(* ===== verification/Single_Weak.thy ===== *)
theory Single_Weak
  imports Single_Size Memory
begin

text \<open>
  \<open>SingleSize\<close> on the memory of the theory \<open>Memory\<close>, with the orderings of
  \<^verbatim>\<open>src/third-party/lfqueue/src/single.rs\<close>. The exchange by which \<open>enqueue\<close> claims the cell is relaxed, so that
  it does not synchronise with the release store of the \<open>dequeue\<close> before it: the write of the new
  payload races with the read of the old one. The system takes the ordering of this exchange as a
  parameter; the code's is \<open>claim_order\<close>. With an acquiring order there is no race, and every history
  is one of the atomic queue in which operations may be refused.
\<close>

section \<open>Accesses and their orderings\<close>

datatype single_loc = State

definition claim_order :: ordering where
  "claim_order = Relaxed"

fun single_enq_access :: "ordering \<Rightarrow> 'a enq_pc \<Rightarrow> (single_loc, u8) access" where
  "single_enq_access ord (EnqLoad v) = Load State Relaxed"
| "single_enq_access ord (EnqCas v) = StrongExchange State EMPTY ord Relaxed"
| "single_enq_access ord (EnqWrite v) = Payload 0"
| "single_enq_access ord EnqStore = Store State Release"
| "single_enq_access ord _ = NoAccess"

fun single_deq_access :: "'a deq_pc \<Rightarrow> (single_loc, u8) access" where
  "single_deq_access DeqLoad = Load State Relaxed"
| "single_deq_access DeqCas = StrongExchange State READY Acquire Relaxed"
| "single_deq_access DeqRead = Payload 0"
| "single_deq_access (DeqStore v) = Store State Release"
| "single_deq_access _ = NoAccess"

fun single_access :: "ordering \<Rightarrow> 'a single_thread \<Rightarrow> (single_loc, u8) access" where
  "single_access ord SIdle = NoAccess"
| "single_access ord (Enqueuing pc) = single_enq_access ord pc"
| "single_access ord (Dequeuing pc) = single_deq_access pc"

fun single_undefined :: "'a single_thread \<Rightarrow> 'a single_thread" where
  "single_undefined (Dequeuing pc) = Dequeuing DeqUB"
| "single_undefined th = Enqueuing EnqUB"

section \<open>The system\<close>

record 'a single_wsys =
  wcell :: "'a single"
  wshared :: "(single_loc, u8) memory"
  wviews :: "nat \<Rightarrow> single_loc view"
  wpcs :: "nat \<Rightarrow> 'a single_thread"

abbreviation single_perform :: "bool \<Rightarrow> nat \<Rightarrow> 'a single \<Rightarrow> (single_loc, u8) memory \<Rightarrow> single_loc view \<Rightarrow>
    'a single_thread \<Rightarrow> (single_loc, u8) access \<Rightarrow>
    ('a single \<times> (single_loc, u8) memory \<times> single_loc view \<times> 'a single_thread) option" where
  "single_perform \<equiv>
     mem_perform (\<lambda>c _. state c) (\<lambda>c _ w. c\<lparr>state := w\<rparr>) (\<lambda>_. single_thread_step) single_undefined"

abbreviation wmove :: "'a single_wsys \<Rightarrow> nat \<Rightarrow> 'a single \<Rightarrow> (single_loc, u8) memory \<Rightarrow> single_loc view \<Rightarrow>
    'a single_thread \<Rightarrow> 'a single_wsys" where
  "wmove s i c M V th \<equiv>
     s\<lparr>wcell := c, wshared := M, wviews := (wviews s)(i := V), wpcs := (wpcs s)(i := th)\<rparr>"

inductive single_wstep :: "ordering \<Rightarrow> 'a single_wsys \<Rightarrow> 'a fifo_label \<Rightarrow> 'a single_wsys \<Rightarrow> bool" for ord where
  w_call: "wpcs s i = SIdle \<Longrightarrow>
    single_wstep ord s (Call i c) (s\<lparr>wpcs := (wpcs s)(i := single_start c)\<rparr>)"
| w_internal: "single_perform False lag (wcell s) (wshared s) (wviews s i) (wpcs s i) (single_access ord (wpcs s i)) =
      Some (c', M', V', th') \<Longrightarrow>
    single_wstep ord s Tau (wmove s i c' M' V' th')"
| w_return: "single_returned (wpcs s i) = Some r \<Longrightarrow>
    single_wstep ord s (Return i r) (s\<lparr>wpcs := (wpcs s)(i := SIdle)\<rparr>)"

definition single_winit :: "'a single_wsys" where
  "single_winit = \<lparr>wcell = single_new,
     wshared = \<lparr>log = (\<lambda>_. [\<lparr>msg_value = state (single_new :: 'a single), msg_view = no_view, msg_sc = False\<rparr>]),
       uses = (\<lambda>_. 0)\<rparr>,
     wviews = (\<lambda>_. no_view), wpcs = (\<lambda>_. SIdle)\<rparr>"

fun single_wsched :: "ordering \<Rightarrow> 'a single_wsys \<Rightarrow> ('a fifo_cmd, nat) move \<Rightarrow>
    ('a fifo_label \<times> 'a single_wsys) option" where
  "single_wsched ord s (MCall i c) =
     (case wpcs s i of
        SIdle \<Rightarrow> Some (Call i c, s\<lparr>wpcs := (wpcs s)(i := single_start c)\<rparr>)
      | _ \<Rightarrow> None)"
| "single_wsched ord s (MStep i lag) =
     (case single_perform False lag (wcell s) (wshared s) (wviews s i) (wpcs s i) (single_access ord (wpcs s i)) of
        None \<Rightarrow> None
      | Some (c', M', V', th') \<Rightarrow> Some (Tau, wmove s i c' M' V' th'))"
| "single_wsched ord s (MReturn i) =
     (case single_returned (wpcs s i) of
        Some r \<Rightarrow> Some (Return i r, s\<lparr>wpcs := (wpcs s)(i := SIdle)\<rparr>)
      | None \<Rightarrow> None)"

lemma single_wsched_sound: "single_wsched ord s m = Some (l, s') \<Longrightarrow> single_wstep ord s l s'"
  by (induction m) (auto intro: single_wstep.intros split: single_thread.splits option.splits)

lemma single_wrun_sound:
  "sched_run (single_wsched ord) s ms = Some (ls, s') \<Longrightarrow> exec (single_wstep ord) s ls s'"
  by (rule sched_run_exec [where f = "single_wsched ord"]) (auto intro: single_wsched_sound)

section \<open>The specification\<close>

text \<open>As \<open>try_step\<close>, but a refusal needs no other operation under way: a relaxed load may be stale.\<close>

inductive loose_step :: "'a try_spec \<Rightarrow> 'a fifo_label \<Rightarrow> 'a try_spec \<Rightarrow> bool" where
  l_try: "try_step a l a' \<Longrightarrow> loose_step a l a'"
| l_refuse: "tstats a i = TPending c \<Longrightarrow>
    loose_step a Tau (a\<lparr>tstats := (tstats a)(i := TDone (refusal c))\<rparr>)"

section \<open>The simulation\<close>

definition strong_sys :: "'a single_wsys \<Rightarrow> 'a single_sys" where
  "strong_sys s = \<lparr>cell = wcell s, pcs = wpcs s\<rparr>"

lemma strong_sys_simps [simp]:
  "cell (strong_sys s) = wcell s" "pcs (strong_sys s) = wpcs s"
  "strong_sys (s\<lparr>wpcs := p\<rparr>) = strong_sys s\<lparr>pcs := p\<rparr>"
  "strong_sys (s\<lparr>wcell := c\<rparr>) = strong_sys s\<lparr>cell := c\<rparr>"
  "strong_sys (s\<lparr>wshared := M\<rparr>) = strong_sys s" "strong_sys (s\<lparr>wviews := V\<rparr>) = strong_sys s"
  by (simp_all add: strong_sys_def)

text \<open>The holder of the cell whose view must cover all accesses to the payload.\<close>

fun covers :: "ordering \<Rightarrow> 'a single_thread \<Rightarrow> bool" where
  "covers ord (Enqueuing (EnqWrite v)) = acquires ord"
| "covers ord (Enqueuing EnqUB) = False"
| "covers ord th = holds_cell th"

definition views_ok :: "ordering \<Rightarrow> 'a single \<Rightarrow> (single_loc, u8) memory \<Rightarrow> (nat \<Rightarrow> single_loc view) \<Rightarrow>
    (nat \<Rightarrow> 'a single_thread) \<Rightarrow> bool" where
  "views_ok ord c M V p \<longleftrightarrow>
     log M State \<noteq> [] \<and> msg_value (last (log M State)) = state c \<and>
     (\<forall>i. holds_cell (p i) \<longrightarrow> latest M State \<le> seen (V i) State) \<and>
     (\<forall>i. covers ord (p i) \<longrightarrow> uses M 0 \<le> seen_cell (V i) 0) \<and>
     ((\<forall>i. \<not> holds_cell (p i)) \<longrightarrow> uses M 0 \<le> seen_cell (msg_view (last (log M State))) 0)"

definition single_wrelated :: "ordering \<Rightarrow> 'a single_wsys \<Rightarrow> 'a try_spec \<Rightarrow> bool" where
  "single_wrelated ord s a \<longleftrightarrow>
     single_related (strong_sys s) a \<and> views_ok ord (wcell s) (wshared s) (wviews s) (wpcs s)"

lemma covers_holds: "covers ord th \<Longrightarrow> holds_cell th"
  by (induction ord th rule: covers.induct) auto

text \<open>A step of a thread that neither gains nor loses the cell, and leaves the memory.\<close>

lemma views_ok_local:
  assumes "views_ok ord c M V p" "\<not> holds_cell (p i)" "\<not> holds_cell th"
  shows "views_ok ord c M (V(i := W)) (p(i := th))" "views_ok ord c M V (p(i := th))"
proof -
  have "(\<forall>j. \<not> holds_cell ((p(i := th)) j)) \<longleftrightarrow> (\<forall>j. \<not> holds_cell (p j))" using assms(2,3) by auto
  then show "views_ok ord c M (V(i := W)) (p(i := th))" "views_ok ord c M V (p(i := th))"
    using assms covers_holds [of ord th] by (auto simp: views_ok_def split: if_splits)
qed

text \<open>A step that sets the latest message and the holder.\<close>

lemma views_ok_update:
  assumes "log M' State \<noteq> []" "msg_value (last (log M' State)) = state c'"
    "\<And>j. j \<noteq> i \<Longrightarrow> \<not> holds_cell (p j)"
    "holds_cell th \<Longrightarrow> latest M' State \<le> seen W State"
    "covers ord th \<Longrightarrow> uses M' 0 \<le> seen_cell W 0"
    "\<not> holds_cell th \<Longrightarrow> uses M' 0 \<le> seen_cell (msg_view (last (log M' State))) 0"
  shows "views_ok ord c' M' (V(i := W)) (p(i := th))"
  using assms covers_holds [of ord] by (auto simp: views_ok_def)

text \<open>What a thread does on a stale value, and what it does on the current one.\<close>

inductive stale :: "'a single_thread \<Rightarrow> 'a single_thread \<Rightarrow> bool" where
  "stale (Enqueuing (EnqLoad v)) (Enqueuing (EnqCas v))"
| "stale (Enqueuing (EnqLoad v)) (Enqueuing (EnqRet (Err v)))"
| "stale (Enqueuing (EnqCas v)) (Enqueuing (EnqRet (Err v)))"
| "stale (Dequeuing DeqLoad) (Dequeuing DeqCas)"
| "stale (Dequeuing DeqLoad) (Dequeuing (DeqRet None))"
| "stale (Dequeuing DeqCas) (Dequeuing (DeqRet None))"

lemma stale_simulated:
  assumes "single_related s a" "stale (pcs s i) th'"
  shows "\<exists>a'. single_related (s\<lparr>pcs := (pcs s)(i := th')\<rparr>) a' \<and> (loose_step a Tau a' \<or> a' = a)"
    "\<not> holds_cell (pcs s i)" "\<not> holds_cell th'"
proof -
  have at: "single_at (cell s) (content a) (pcs s i) (tstats a i)" using assms(1) by (simp add: single_related_def)
  show h: "\<not> holds_cell (pcs s i)" "\<not> holds_cell th'" using assms(2) by (auto elim: stale.cases)
  note local = single_related_local [OF assms(1) _ h]
  show "\<exists>a'. single_related (s\<lparr>pcs := (pcs s)(i := th')\<rparr>) a' \<and> (loose_step a Tau a' \<or> a' = a)"
  proof (cases "single_at (cell s) (content a) th' (tstats a i)")
    case True
    then show ?thesis using local [of "tstats a i"] by auto
  next
    case False
    obtain c where c: "tstats a i = TPending c" "single_at (cell s) (content a) th' (TDone (refusal c))"
      using assms(2) at False by cases auto
    then show ?thesis using local [OF c(2)] l_refuse [OF c(1)] by blast
  qed
qed

lemma single_access_kinds [simp]:
  "single_access ord th \<noteq> Exchange l w x y" "single_access ord th \<noteq> Fence x" "single_access ord th \<noteq> Wild"
proof -
  have "single_enq_access ord pc \<noteq> Exchange l w x y" "single_enq_access ord pc \<noteq> Fence x"
    "single_enq_access ord pc \<noteq> Wild" for pc :: "'a enq_pc" by (cases pc; simp)+
  moreover have "single_deq_access pc \<noteq> Exchange l w x y" "single_deq_access pc \<noteq> Fence x"
    "single_deq_access pc \<noteq> Wild" for pc :: "'a deq_pc" by (cases pc; simp)+
  ultimately show "single_access ord th \<noteq> Exchange l w x y" "single_access ord th \<noteq> Fence x"
    "single_access ord th \<noteq> Wild" by (cases th; simp)+
qed

lemma single_access_active:
  "single_access ord th \<noteq> NoAccess \<Longrightarrow> th \<noteq> SIdle \<and> single_returned th = None"
  by (induction th rule: single_returned.induct) auto

text \<open>Every access is a step on the current cell, a step on a stale value, or a race of \<open>enqueue\<close>'s write.\<close>

lemma perform_cases [consumes 3, case_names Stale Race Claim Cell Publish]:
  assumes "single_perform False lag c M V th (single_access ord th) = Some (c', M', V', th')"
    "holds_cell th \<longrightarrow> latest M State \<le> seen V State" "covers ord th \<longrightarrow> uses M 0 \<le> seen_cell V 0"
  obtains
    (Stale) "stale th th'" "c' = c" "M' = M"
  | (Race) v where "th = Enqueuing (EnqWrite v)" "\<not> acquires ord" "th' = Enqueuing EnqUB" "c' = c" "M' = M" "V' = V"
  | (Claim) ord' where "single_thread_step c th = (c', th')" "holds_cell th'" "\<not> holds_cell th"
      "single_access ord th = StrongExchange State (state c) ord' Relaxed" "state c = EMPTY \<or> state c = READY"
      "mem_exchange ord' State (state c') M V = (M', V')" "covers ord th' \<Longrightarrow> acquires ord'" "th' \<noteq> Enqueuing EnqUB"
  | (Cell) "single_thread_step c th = (c', th')" "holds_cell th" "holds_cell th' \<or> th' = Dequeuing DeqUB"
      "state c' = state c" "mem_cell 0 M V = (M', V')" "th' \<noteq> Enqueuing EnqUB"
  | (Publish) "single_thread_step c th = (c', th')" "holds_cell th" "covers ord th" "\<not> holds_cell th'"
      "mem_store Release State (state c') M V = (M', V')"
proof (cases "single_access ord th")
  case (Load l x)
  have "stale th th'" "c' = c" "M' = M"
    using assms(1) Load
    by (cases th; (auto elim!: single_enq_access.elims single_deq_access.elims intro: stale.intros split: if_splits)[1])+
  then show thesis by (rule Stale)
next
  case (StrongExchange l w x y)
  show thesis
  proof (cases "lag = 0 \<and> state c = w")
    case True
    have "single_thread_step c th = (c', th')" "holds_cell th'" "\<not> holds_cell th" "state c = EMPTY \<or> state c = READY"
      "mem_exchange x State (state c') M V = (M', V')" "covers ord th' \<Longrightarrow> acquires x" "y = Relaxed"
      "th' \<noteq> Enqueuing EnqUB"
      using assms(1) StrongExchange True
      by (cases th; (auto elim!: single_enq_access.elims single_deq_access.elims
            simp: compare_exchange_def compare_exchange_weak_def split: prod.splits)[1])+
    then show thesis using Claim StrongExchange True by (metis single_loc.exhaust)
  next
    case False
    then have "stale th th'" "c' = c" "M' = M"
      using assms(1) StrongExchange
      by (cases th; (auto elim!: single_enq_access.elims single_deq_access.elims intro: stale.intros
            simp: compare_exchange_def compare_exchange_weak_def split: prod.splits if_splits)[1])+
    then show thesis by (rule Stale)
  qed
next
  case (Store l x)
  have "single_thread_step c th = (c', th')" "holds_cell th" "covers ord th" "\<not> holds_cell th'"
    "mem_store Release State (state c') M V = (M', V')"
    using assms Store
    by (cases th; (auto elim!: single_enq_access.elims single_deq_access.elims simp: store_definite_def split: prod.splits)[1])+
  then show thesis by (rule Publish)
next
  case (Payload j)
  show thesis
  proof (cases "race_free j M V")
    case True
    have "single_thread_step c th = (c', th')" "holds_cell th" "holds_cell th' \<or> th' = Dequeuing DeqUB"
        "state c' = state c" "mem_cell 0 M V = (M', V')" "th' \<noteq> Enqueuing EnqUB"
      using assms(1) Payload True
      by (cases th; (auto elim!: single_enq_access.elims single_deq_access.elims split: prod.splits option.splits)[1])+
    then show thesis by (rule Cell)
  next
    case False
    then obtain v where "th = Enqueuing (EnqWrite v)" "\<not> acquires ord" "th' = Enqueuing EnqUB" "c' = c" "M' = M" "V' = V"
      using assms Payload
      by (cases th; (auto elim!: single_enq_access.elims single_deq_access.elims simp: race_free_def)[1])+
    then show thesis by (rule Race)
  qed
qed (use assms(1) in simp_all)

lemma thread_step_sc:
  assumes "single_thread_step (cell s) (pcs s i) = (c', th')" "single_access ord (pcs s i) \<noteq> NoAccess"
  shows "single_sys_step s Tau (s\<lparr>cell := c', pcs := (pcs s)(i := th')\<rparr>)"
  using single_access_active [OF assms(2)] assms(1) by (intro s_internal) auto

lemma exchange_read:
  assumes "mem_exchange ord l v M V = (M', V')" "log M l \<noteq> []"
  shows "latest M' l \<le> seen V' l" "uses M' = uses M" "log M' l \<noteq> []"
    "msg_value (last (log M' l)) = v"
    "acquires ord \<Longrightarrow> seen_cell (msg_view (last (log M l))) j \<le> seen_cell V' j"
proof -
  show "seen_cell (msg_view (last (log M l))) j \<le> seen_cell V' j" if "acquires ord"
    using assms that by (auto simp: mem_exchange_def Let_def see_def latest_def read_view_def join_def read_msg_def last_conv_nth)
qed (use assms in \<open>auto simp: mem_exchange_def Let_def see_def latest_def\<close>)

lemma views_ok_step:
  assumes "views_ok ord c M V p" "\<And>j. j \<noteq> i \<Longrightarrow> holds_cell (p i) \<or> state c = EMPTY \<or> state c = READY \<Longrightarrow> \<not> holds_cell (p j)"
    "single_perform False lag c M (V i) (p i) (single_access ord (p i)) = Some (c', M', V', th')"
    "th' \<noteq> Dequeuing DeqUB"
  shows "views_ok ord c' M' (V(i := V')) (p(i := th'))"
proof -
  have hold: "holds_cell (p i) \<longrightarrow> latest M State \<le> seen (V i) State"
    and cov: "covers ord (p i) \<longrightarrow> uses M 0 \<le> seen_cell (V i) 0"
    and log: "log M State \<noteq> []" "msg_value (last (log M State)) = state c"
    using assms(1) by (auto simp: views_ok_def)
  from assms(3) hold cov show ?thesis
  proof (cases rule: perform_cases)
    case Stale
    then show ?thesis using views_ok_local [OF assms(1)] by (auto elim: stale.cases)
  next
    case (Race v)
    then show ?thesis using hold log assms(2) by (intro views_ok_update) auto
  next
    case (Claim ord')
    have nobody: "\<not> holds_cell (p j)" for j using Claim(3,5) assms(2) [of j] by (cases "j = i") auto
    then have "uses M 0 \<le> seen_cell (msg_view (last (log M State))) 0" using assms(1) by (auto simp: views_ok_def)
    then show ?thesis using Claim exchange_read [OF Claim(6) log(1)] nobody le_trans
      by (intro views_ok_update) fastforce+
  next
    case Cell
    then show ?thesis using hold log assms(2,4) by (intro views_ok_update) (auto simp: mem_cell_def latest_def)
  next
    case Publish
    then show ?thesis using cov log assms(2)
      by (intro views_ok_update) (auto simp: mem_store_def Let_def released_view_def see_def)
  qed
qed

lemma single_wstep_simulated:
  assumes "single_wstep ord s l s'" "single_wrelated ord s a"
  shows "\<exists>a'. single_wrelated ord s' a' \<and> (loose_step a l a' \<or> l = Tau \<and> a' = a)"
proof -
  have rel: "single_related (strong_sys s) a" and ok: "views_ok ord (wcell s) (wshared s) (wviews s) (wpcs s)"
    using assms(2) by (simp_all add: single_wrelated_def)
  from assms(1) show ?thesis
  proof cases
    case (w_call i c)
    have "single_sys_step (strong_sys s) l (strong_sys s')" using w_call s_call [of "strong_sys s" i c] by simp
    moreover have "\<not> holds_cell (single_start c)" by (cases c) auto
    then have "views_ok ord (wcell s') (wshared s') (wviews s') (wpcs s')"
      using w_call views_ok_local(2) [OF ok, of i "single_start c"] by simp
    ultimately show ?thesis
      using single_step_simulated [of "strong_sys s"] rel l_try unfolding single_wrelated_def by blast
  next
    case (w_return i r)
    have "single_sys_step (strong_sys s) l (strong_sys s')" using w_return s_return [of "strong_sys s" i r] by simp
    moreover have "single_at (wcell s) (content a) (wpcs s i) (tstats a i)" using rel by (simp add: single_related_def)
    from single_returned_status(2) [OF this w_return(3)]
    have "views_ok ord (wcell s') (wshared s') (wviews s') (wpcs s')"
      using w_return views_ok_local(2) [OF ok, of i SIdle] by simp
    ultimately show ?thesis
      using single_step_simulated [of "strong_sys s"] rel l_try unfolding single_wrelated_def by blast
  next
    case (w_internal lag i c' M' V' th')
    have hold: "holds_cell (wpcs s i) \<longrightarrow> latest (wshared s) State \<le> seen (wviews s i) State"
      and cov: "covers ord (wpcs s i) \<longrightarrow> uses (wshared s) 0 \<le> seen_cell (wviews s i) 0"
      using ok by (auto simp: views_ok_def)
    have acc: "single_access ord (wpcs s i) \<noteq> NoAccess" using w_internal(3) by auto
    have sc: "single_thread_step (wcell s) (wpcs s i) = (c', th') \<Longrightarrow>
        single_sys_step (strong_sys s) Tau (strong_sys s')"
      using thread_step_sc [of "strong_sys s" i c' th' ord] acc w_internal(2) by simp
    from w_internal(3) hold cov
    have "\<exists>a'. single_related (strong_sys s') a' \<and> (loose_step a Tau a' \<or> a' = a)"
    proof (cases rule: perform_cases)
      case Stale
      then show ?thesis using stale_simulated(1) [OF rel, of i th'] w_internal(2) by simp
    next
      case (Race v)
      have "single_at (wcell s) (content a) (wpcs s i) (tstats a i)" using rel by (simp add: single_related_def)
      moreover have "strong_sys s' = strong_sys s\<lparr>cell := wcell s, pcs := (pcs (strong_sys s))(i := Enqueuing EnqUB)\<rparr>"
        using Race w_internal(2) by (simp add: strong_sys_def)
      ultimately show ?thesis
        using holder_step [OF rel, of i "wcell s" "Enqueuing EnqUB"] Race l_try [of a Tau]
        by (fastforce simp: cell_ok_def)
    qed (use single_step_simulated [OF sc rel] l_try in blast)+
    moreover have "th' \<noteq> Dequeuing DeqUB" if "single_related (strong_sys s') a'" for a'
      using that w_internal(2) by (auto simp: single_related_def dest!: spec [of _ i])
    moreover have "\<not> holds_cell (wpcs s j)"
      if "j \<noteq> i" "holds_cell (wpcs s i) \<or> state (wcell s) = EMPTY \<or> state (wcell s) = READY" for j
      using that only_holder [OF rel, of i j] nobody_holds [OF rel, of j] by auto
    ultimately show ?thesis
      using views_ok_step [OF ok _ w_internal(3)] w_internal(1,2) by (auto simp: single_wrelated_def)
  qed
qed

interpretation sw: bounded_simulation "single_wstep ord" loose_step "\<lambda>_. single_wrelated ord"
    "\<lambda>s. s = single_winit" try_init budget for ord budget
proof
  show "single_wrelated ord s try_init" if "s = single_winit" for s :: "'a single_wsys"
    using that by (auto simp: single_wrelated_def single_related_def single_winit_def try_init_def single_new_def
        cell_ok_def views_ok_def)
qed (use single_wstep_simulated in blast)

lemma wreachable:
  assumes "exec (single_wstep ord) single_winit ls s"
  obtains ls' a where "exec loose_step try_init ls' a" "history ls' = history ls" "single_wrelated ord s a"
  using sw.exec_related [OF assms refl order_refl] by blast

text \<open>With an acquiring exchange no thread gets to undefined behaviour.\<close>

lemma race_needs_relaxed:
  assumes "exec (single_wstep ord) single_winit ls s" "acquires ord"
  shows "wpcs s i \<noteq> Enqueuing EnqUB"
  using assms(1)
proof (induction rule: exec.induct)
  case exec_nil
  show ?case by (simp add: single_winit_def)
next
  case (exec_snoc ls s l s')
  obtain a where "single_wrelated ord s a" by (rule wreachable [OF exec_snoc.hyps(1)])
  then have ok: "holds_cell (wpcs s j) \<longrightarrow> latest (wshared s) State \<le> seen (wviews s j) State"
    "covers ord (wpcs s j) \<longrightarrow> uses (wshared s) 0 \<le> seen_cell (wviews s j) 0" for j
    by (auto simp: single_wrelated_def views_ok_def)
  from exec_snoc.hyps(2) show ?case
  proof cases
    case (w_call j c)
    then show ?thesis using exec_snoc.IH by (cases c) auto
  next
    case (w_internal lag j c' M' V' th')
    have "th' \<noteq> Enqueuing EnqUB"
      using w_internal(3) ok(1) [of j] ok(2) [of j]
    proof (cases rule: perform_cases)
      case (Race v)
      then show ?thesis using assms(2) by simp
    qed (auto elim: stale.cases)
    then show ?thesis using exec_snoc.IH w_internal(2) by simp
  qed (use exec_snoc.IH in simp)
qed

section \<open>Properties\<close>

definition race_moves :: "(nat fifo_cmd, nat) move list" where
  "race_moves = [MCall 0 (Enq 7), MStep 0 0, MStep 0 0, MStep 0 0, MStep 0 0, MReturn 0,
     MCall 1 Deq, MStep 1 0, MStep 1 0, MStep 1 0, MStep 1 0, MReturn 1,
     MCall 0 (Enq 8), MStep 0 0, MStep 0 0, MStep 0 0]"

text \<open>C17: The code of \<open>SingleSize\<close> has a data race. One producer and one consumer suffice: thread 0
  enqueues, thread 1 dequeues, and the next \<open>enqueue\<close> of thread 0 writes the payload although the
  read by thread 1 does not happen before, because its exchange is relaxed.\<close>

theorem single_enqueue_races:
  "\<exists>ls s. exec (single_wstep claim_order) single_winit ls s \<and> wpcs s 0 = Enqueuing EnqUB \<and>
     history ls = [Call 0 (Enq 7), Return 0 (REnq (Ok ())), Call 1 Deq, Return 1 (RDeq (Some (7 :: nat))),
       Call 0 (Enq 8)]"
proof -
  have "case sched_run (single_wsched claim_order) single_winit race_moves of
      Some (ls, s) \<Rightarrow> wpcs s 0 = Enqueuing EnqUB \<and>
        history ls = [Call 0 (Enq 7), Return 0 (REnq (Ok ())), Call 1 Deq, Return 1 (RDeq (Some (7 :: nat))),
          Call 0 (Enq 8)]
    | None \<Rightarrow> False"
    by code_simp
  then obtain ls s where "sched_run (single_wsched claim_order) single_winit race_moves = Some (ls, s)"
    "wpcs s 0 = Enqueuing EnqUB"
    "history ls = [Call 0 (Enq 7), Return 0 (REnq (Ok ())), Call 1 Deq, Return 1 (RDeq (Some (7 :: nat))),
      Call 0 (Enq 8)]"
    by (auto split: option.splits)
  then show ?thesis using single_wrun_sound by blast
qed



text \<open>As the code is, undefined behaviour is confined to the write of \<open>enqueue\<close>: a \<open>dequeue\<close> never
  reads an uninitialised payload nor one that is being written, and the exchanges give the cell to
  one thread at a time.\<close>

theorem single_dequeue_safe:
  assumes "exec (single_wstep claim_order) single_winit ls s"
  shows "wpcs s i \<noteq> Dequeuing DeqUB \<and> (holds_cell (wpcs s i) \<and> holds_cell (wpcs s j) \<longrightarrow> i = j)"
proof -
  obtain a where "single_wrelated claim_order s a" by (rule wreachable [OF assms])
  then show ?thesis using single_related_safe [of "strong_sys s" a i j] by (simp add: single_wrelated_def)
qed

theorem single_dequeue_safe_witness:
  "\<exists>ls s. sched_run (single_wsched claim_order) single_winit race_moves = Some (ls, s) \<and>
     wpcs s 0 = Enqueuing EnqUB \<and> wpcs s 1 \<noteq> Dequeuing DeqUB"
proof -
  have "case sched_run (single_wsched claim_order) single_winit race_moves of
      Some (ls, s) \<Rightarrow> wpcs s 0 = Enqueuing EnqUB | None \<Rightarrow> False"
    by code_simp
  then obtain ls s where r: "sched_run (single_wsched claim_order) single_winit race_moves = Some (ls, s)"
    "wpcs s 0 = Enqueuing EnqUB" by (auto split: option.splits)
  from single_dequeue_safe [OF single_wrun_sound [OF r(1)], of 1] r show ?thesis by auto
qed

end
