(* ===== verification/Scq_Ring.thy ===== *)
theory Scq_Ring
  imports Prelude
begin

text \<open>
  The ring of indices \<open>ScqRing\<close> of \<^verbatim>\<open>src/third-party/lfqueue/src/scq.rs\<close>: its data, its
  constructors, and \<open>enqueue\<close>, \<open>dequeue\<close> and \<open>catchup\<close> as machines with one memory access per step.
  The constant \<open>MODE\<close> of the code is the length of the field \<open>is_finalized\<close>. An out-of-range array
  index is a panic, a program counter of its own. The backoff that the code takes from
  \<open>crossbeam_utils\<close> and \<open>yield_marker\<close> have no effect on the state.
\<close>

section \<open>Arithmetic\<close>

definition lfring_threshold3 :: "usize \<Rightarrow> usize \<Rightarrow> usize" where
  "lfring_threshold3 half n = half + n - 1"

definition lfring_pow2 :: "nat \<Rightarrow> usize" where
  "lfring_pow2 order = push_bit order 1"

definition modup :: "usize \<Rightarrow> usize \<Rightarrow> usize" where
  "modup v n = v OR (push_bit 1 n - 1)"

definition lfring_map :: "usize \<Rightarrow> usize \<Rightarrow> usize" where
  "lfring_map idx n = idx AND (n - 1)"

text \<open>The signed comparison: the sign of the difference of the two values read as \<open>isize\<close> (wrapping,
  as in a release build).\<close>

definition lfring_signed_cmp :: "usize \<Rightarrow> usize \<Rightarrow> int" where
  "lfring_signed_cmp a b = sgn (sint (a - b))"

text \<open>\<open>determine_order\<close> and its constant variant; \<open>None\<close> is a panic.\<close>

fun ilog2 :: "nat \<Rightarrow> nat" where
  "ilog2 m = (if m \<le> 1 then 0 else Suc (ilog2 (m div 2)))"

declare ilog2.simps [simp del]

definition checked_ilog2 :: "nat \<Rightarrow> nat option" where
  "checked_ilog2 m = (if m = 0 then None else Some (ilog2 m))"

definition determine_order :: "nat \<Rightarrow> nat option" where
  "determine_order len = (if len mod 2 = 0 \<or> len = 1 then checked_ilog2 len else None)"

definition determine_order_const :: "nat \<Rightarrow> nat option" where
  "determine_order_const len =
     (if len mod 2 = 0 \<or> len = 1
      then (case checked_ilog2 len of Some (Suc k) \<Rightarrow> Some k | _ \<Rightarrow> None)
      else None)"

section \<open>The ring\<close>

record scq_ring =
  is_finalized :: "bool list"
  rhead :: usize
  rtail :: usize
  threshold :: "64 word"
  ring_array :: "usize list"
  order :: nat

definition ring_half :: "scq_ring \<Rightarrow> usize" where
  "ring_half r = lfring_pow2 (order r)"

definition ring_n :: "scq_ring \<Rightarrow> usize" where
  "ring_n r = push_bit 1 (ring_half r)"

definition ring_capacity :: "scq_ring \<Rightarrow> usize" where
  "ring_capacity r = push_bit (order r) 1"

text \<open>The comparison \<open>PartialEq\<close>: rings with the same mode, counters, order and (on the common
  length) entries.\<close>

definition ring_eq :: "scq_ring \<Rightarrow> scq_ring \<Rightarrow> bool" where
  "ring_eq r r' \<longleftrightarrow>
     length (is_finalized r) = length (is_finalized r') \<and>
     \<not> (0 < length (is_finalized r) \<and> is_finalized r ! 0 \<noteq> is_finalized r' ! 0) \<and>
     rhead r = rhead r' \<and> rtail r = rtail r' \<and> threshold r = threshold r' \<and> order r = order r' \<and>
     list_all (\<lambda>(a, b). a = b) (zip (ring_array r) (ring_array r'))"

record scq_alloc =
  alloc_array :: "usize list"
  alloc_tail :: usize
  alloc_thresh :: "64 word"

text \<open>The two loops of \<open>initialize_atomic_array_full\<close>, as folds over the index.\<close>

definition initialize_atomic_array_full :: "usize list \<Rightarrow> nat \<Rightarrow> nat \<Rightarrow> usize list" where
  "initialize_atomic_array_full buf half n =
     (let buf1 = fold (\<lambda>i b. b[unat (lfring_map (of_nat i) (of_nat n)) :=
                  of_nat n + lfring_map (of_nat i) (of_nat half)]) [0..<half] buf
      in fold (\<lambda>i b. b[unat (lfring_map (of_nat i) (of_nat n)) := - 1]) [half..<n] buf1)"

definition create_const_atomic_array_empty :: "nat \<Rightarrow> scq_alloc" where
  "create_const_atomic_array_empty N =
     \<lparr>alloc_array = replicate N (- 1), alloc_tail = 0, alloc_thresh = - 1\<rparr>"

definition create_const_atomic_array_full :: "nat \<Rightarrow> scq_alloc" where
  "create_const_atomic_array_full N =
     (let half = N div 2
      in \<lparr>alloc_array = initialize_atomic_array_full (replicate N (- 1)) half N,
          alloc_tail = of_nat half,
          alloc_thresh = lfring_threshold3 (of_nat half) (of_nat N)\<rparr>)"

definition new_from_sqalloc :: "nat \<Rightarrow> nat \<Rightarrow> scq_alloc \<Rightarrow> scq_ring" where
  "new_from_sqalloc mode ord al =
     \<lparr>is_finalized = replicate mode False, rhead = 0, rtail = alloc_tail al,
      threshold = alloc_thresh al, ring_array = alloc_array al, order = ord\<rparr>"

definition new_const_ring_empty :: "nat \<Rightarrow> nat \<Rightarrow> scq_ring option" where
  "new_const_ring_empty mode N =
     map_option (\<lambda>ord. new_from_sqalloc mode ord (create_const_atomic_array_empty N))
       (determine_order_const N)"

definition new_const_ring_full :: "nat \<Rightarrow> nat \<Rightarrow> scq_ring option" where
  "new_const_ring_full mode N =
     map_option (\<lambda>ord. new_from_sqalloc mode ord (create_const_atomic_array_full N))
       (determine_order_const N)"

definition finalize :: "scq_ring \<Rightarrow> scq_ring" where
  "finalize r = (if length (is_finalized r) = 1 then r\<lparr>is_finalized := [True]\<rparr> else r)"

section \<open>Enqueue\<close>

datatype scq_error = IndexLargerThanOrder | QueueFinalized

datatype ring_enq_pc =
    EFetch usize                 \<comment> \<open>before \<open>tail.fetch_add\<close>, holding the masked index\<close>
  | EEntry usize usize           \<comment> \<open>before the load of the entry\<close>
  | EHead usize usize usize      \<comment> \<open>before the load of \<open>head\<close>\<close>
  | EFinal usize usize usize     \<comment> \<open>before the load of \<open>is_finalized\<close>\<close>
  | ECas usize usize usize       \<comment> \<open>before the exchange of the entry\<close>
  | EThresh                      \<comment> \<open>before the load of \<open>threshold\<close>\<close>
  | EThStore                     \<comment> \<open>before the store of \<open>threshold\<close>\<close>
  | ERet "(unit, scq_error) rust_result"
  | EPanic

definition load_entry :: "scq_ring \<Rightarrow> usize \<Rightarrow> usize option" where
  "load_entry r i = (if unat i < length (ring_array r) then Some (ring_array r ! unat i) else None)"

definition store_entry :: "scq_ring \<Rightarrow> usize \<Rightarrow> usize \<Rightarrow> scq_ring" where
  "store_entry r i w = r\<lparr>ring_array := (ring_array r)[unat i := w]\<rparr>"

definition ring_enqueue_start :: "scq_ring \<Rightarrow> usize \<Rightarrow> ring_enq_pc" where
  "ring_enqueue_start r eidx =
     (if eidx \<ge> ring_capacity r then ERet (Err IndexLargerThanOrder)
      else EFetch (eidx XOR (ring_n r - 1)))"

definition claim_pc :: "scq_ring \<Rightarrow> usize \<Rightarrow> usize \<Rightarrow> usize \<Rightarrow> ring_enq_pc" where
  "claim_pc r e t entry = (if length (is_finalized r) = 1 then EFinal e t entry else ECas e t entry)"

fun ring_enqueue_step :: "bool \<Rightarrow> scq_ring \<Rightarrow> ring_enq_pc \<Rightarrow> scq_ring \<times> ring_enq_pc" where
  "ring_enqueue_step weak r (EFetch e) = (r\<lparr>rtail := rtail r + 1\<rparr>, EEntry e (rtail r))"
| "ring_enqueue_step weak r (EEntry e t) =
     (let n = ring_n r; tcycle = modup (push_bit 1 t) n
      in case load_entry r (lfring_map t n) of
           None \<Rightarrow> (r, EPanic)
         | Some entry \<Rightarrow>
             let ecycle = modup entry n
             in if lfring_signed_cmp ecycle tcycle < 0 \<and> entry = ecycle then (r, claim_pc r e t entry)
                else if lfring_signed_cmp ecycle tcycle < 0 \<and> entry = ecycle XOR n then (r, EHead e t entry)
                else (r, EFetch e))"
| "ring_enqueue_step weak r (EHead e t entry) =
     (if lfring_signed_cmp (rhead r) t \<le> 0 then (r, claim_pc r e t entry) else (r, EFetch e))"
| "ring_enqueue_step weak r (EFinal e t entry) =
     (if is_finalized r ! 0 then (r, ERet (Err QueueFinalized)) else (r, ECas e t entry))"
| "ring_enqueue_step weak r (ECas e t entry) =
     (let n = ring_n r; i = lfring_map t n; tcycle = modup (push_bit 1 t) n
      in case load_entry r i of
           None \<Rightarrow> (r, EPanic)
         | Some cur \<Rightarrow> (case compare_exchange_weak weak cur entry (tcycle XOR e) of
             (c, Ok _) \<Rightarrow> (store_entry r i c, EThresh)
           | (c, Err _) \<Rightarrow> (store_entry r i c, EEntry e t)))"
| "ring_enqueue_step weak r EThresh =
     (r, if threshold r \<noteq> lfring_threshold3 (ring_half r) (ring_n r) then EThStore else ERet (Ok ()))"
| "ring_enqueue_step weak r EThStore =
     (r\<lparr>threshold := lfring_threshold3 (ring_half r) (ring_n r)\<rparr>, ERet (Ok ()))"
| "ring_enqueue_step weak r pc = (r, pc)"

section \<open>Dequeue\<close>

datatype ring_deq_pc =
    DThresh                      \<comment> \<open>before the load of \<open>threshold\<close>\<close>
  | DFetch                       \<comment> \<open>before \<open>head.fetch_add\<close>\<close>
  | DEntry usize nat             \<comment> \<open>before the load of the entry, with the attempts so far\<close>
  | DOr usize usize              \<comment> \<open>before \<open>fetch_or\<close>\<close>
  | DCas usize nat usize usize   \<comment> \<open>before the exchange of the entry\<close>
  | DTail usize                  \<comment> \<open>before the load of \<open>tail\<close>\<close>
  | DCatch usize usize           \<comment> \<open>in \<open>catchup\<close>, before the exchange of \<open>tail\<close>\<close>
  | DCatchHead                   \<comment> \<open>in \<open>catchup\<close>, before the load of \<open>head\<close>\<close>
  | DCatchTail usize             \<comment> \<open>in \<open>catchup\<close>, before the load of \<open>tail\<close>\<close>
  | DSubRet                      \<comment> \<open>before the last \<open>threshold.fetch_sub\<close>\<close>
  | DSub                         \<comment> \<open>before \<open>threshold.fetch_sub\<close> at the end of a round\<close>
  | DRet "usize option"
  | DPanic

text \<open>\<open>catchup\<close>.\<close>

fun catchup_step :: "bool \<Rightarrow> scq_ring \<Rightarrow> ring_deq_pc \<Rightarrow> scq_ring \<times> ring_deq_pc" where
  "catchup_step weak r (DCatch t h) =
     (case compare_exchange_weak weak (rtail r) t h of
        (c, Ok _) \<Rightarrow> (r\<lparr>rtail := c\<rparr>, DSubRet)
      | (c, Err _) \<Rightarrow> (r\<lparr>rtail := c\<rparr>, DCatchHead))"
| "catchup_step weak r DCatchHead = (r, DCatchTail (rhead r))"
| "catchup_step weak r (DCatchTail h) =
     (r, if lfring_signed_cmp (rtail r) h \<ge> 0 then DSubRet else DCatch (rtail r) h)"
| "catchup_step weak r pc = (r, pc)"

text \<open>What \<open>dequeue\<close> does with an entry of another cycle: spin, give up on the slot, or mark it.\<close>

definition stale_entry :: "usize \<Rightarrow> usize \<Rightarrow> nat \<Rightarrow> usize \<Rightarrow> ring_deq_pc" where
  "stale_entry n h attempt entry =
     (let hcycle = modup (push_bit 1 h) n; ecycle = modup entry n;
          mark = (\<lambda>att entry_new. if lfring_signed_cmp ecycle hcycle < 0
                    then DCas h att entry entry_new else DTail h)
      in if entry OR n \<noteq> ecycle
         then (let entry_new = entry AND NOT n
               in if entry = entry_new then DTail h else mark attempt entry_new)
         else if attempt + 1 \<le> 10 then DEntry h (attempt + 1)
         else mark (attempt + 1) (hcycle XOR (NOT entry AND n)))"

fun ring_dequeue_step :: "bool \<Rightarrow> scq_ring \<Rightarrow> ring_deq_pc \<Rightarrow> scq_ring \<times> ring_deq_pc" where
  "ring_dequeue_step weak r DThresh = (r, if sint (threshold r) < 0 then DRet None else DFetch)"
| "ring_dequeue_step weak r DFetch = (r\<lparr>rhead := rhead r + 1\<rparr>, DEntry (rhead r) 0)"
| "ring_dequeue_step weak r (DEntry h attempt) =
     (let n = ring_n r
      in case load_entry r (lfring_map h n) of
           None \<Rightarrow> (r, DPanic)
         | Some entry \<Rightarrow>
             (r, if modup entry n = modup (push_bit 1 h) n then DOr h entry
                 else stale_entry n h attempt entry))"
| "ring_dequeue_step weak r (DOr h entry) =
     (let n = ring_n r; i = lfring_map h n
      in case load_entry r i of
           None \<Rightarrow> (r, DPanic)
         | Some cur \<Rightarrow> (store_entry r i (cur OR (n - 1)), DRet (Some (entry AND (n - 1)))))"
| "ring_dequeue_step weak r (DCas h attempt entry entry_new) =
     (let i = lfring_map h (ring_n r)
      in case load_entry r i of
           None \<Rightarrow> (r, DPanic)
         | Some cur \<Rightarrow> (case compare_exchange_weak weak cur entry entry_new of
             (c, Ok _) \<Rightarrow> (store_entry r i c, DTail h)
           | (c, Err _) \<Rightarrow> (store_entry r i c, DEntry h attempt)))"
| "ring_dequeue_step weak r (DTail h) =
     (r, if lfring_signed_cmp (rtail r) (h + 1) \<le> 0 then DCatch (rtail r) (h + 1) else DSub)"
| "ring_dequeue_step weak r DSubRet = (r\<lparr>threshold := threshold r - 1\<rparr>, DRet None)"
| "ring_dequeue_step weak r DSub =
     (r\<lparr>threshold := threshold r - 1\<rparr>, if sint (threshold r) \<le> 0 then DRet None else DFetch)"
| "ring_dequeue_step weak r pc = catchup_step weak r pc"

section \<open>Properties\<close>

text \<open>On rings of one mode with arrays of one length the comparison \<open>PartialEq\<close> is equality.\<close>

theorem ring_eq_correct:
  assumes "length (ring_array r) = length (ring_array r')" "length (is_finalized r) \<le> 1"
  shows "ring_eq r r' \<longleftrightarrow> r = r'"
proof -
  have "list_all (\<lambda>(a, b). a = b) (zip xs ys) \<longleftrightarrow> xs = ys" if "length xs = length ys" for xs ys :: "usize list"
    using that by (induction xs ys rule: list_induct2) auto
  moreover have "is_finalized r = is_finalized r'"
    if "length (is_finalized r) = length (is_finalized r')"
      "\<not> (0 < length (is_finalized r) \<and> is_finalized r ! 0 \<noteq> is_finalized r' ! 0)"
    using that assms(2) by (cases "is_finalized r"; cases "is_finalized r'") auto
  ultimately show ?thesis using assms(1) by (auto simp: ring_eq_def intro!: scq_ring.equality)
qed

theorem ring_eq_correct_witness:
  "\<not> ring_eq \<lparr>is_finalized = [False], rhead = 0, rtail = 0, threshold = - 1, ring_array = [- 1, - 1], order = 0\<rparr>
     \<lparr>is_finalized = [True], rhead = 0, rtail = 0, threshold = - 1, ring_array = [- 1, - 1], order = 0\<rparr>"
  by (subst ring_eq_correct) simp_all

end
