(* ===== verification/Scq_Words.thy ===== *)
theory Scq_Words
  imports Scq_Ring
begin

text \<open>
  The bit layout of the entries of an \<open>ScqRing\<close>: a cycle number above \<open>m\<close> low bits, which hold the
  safety bit and the index. The lemmas evaluate the expressions of \<open>enqueue\<close> and \<open>dequeue\<close> on words
  in this layout, for cycle numbers of any size.
\<close>

definition cw :: "nat \<Rightarrow> int \<Rightarrow> int \<Rightarrow> usize" where
  "cw m c r = word_of_int (concat_bit m r c)"

lemma cw_arith: "0 \<le> r \<Longrightarrow> r < 2 ^ m \<Longrightarrow> cw m c r = word_of_int (2 ^ m * c + r)"
  by (simp add: cw_def concat_bit_eq push_bit_eq_mult take_bit_int_eq_self algebra_simps)

lemma mask_word: "m < 64 \<Longrightarrow> (2 ^ m - 1 :: usize) = word_of_int (mask m)"
  by (simp add: mask_eq_exp_minus_1)

lemma word_of_int_bits:
  "(word_of_int a :: usize) OR word_of_int b = word_of_int (a OR b)"
  "(word_of_int a :: usize) AND word_of_int b = word_of_int (a AND b)"
  "(word_of_int a :: usize) XOR word_of_int b = word_of_int (a XOR b)"
  "NOT (word_of_int a :: usize) = word_of_int (NOT a)"
  by (auto simp: bit_eq_iff bit_simps)

lemma concat_bits:
  "concat_bit m r c OR take_bit m s = concat_bit m (r OR s) c"
  "concat_bit m r c AND take_bit m s = take_bit m (r AND s)"
  "concat_bit m r c XOR take_bit m s = concat_bit m (r XOR s) c"
  by (auto simp: bit_eq_iff bit_simps)

lemma small_cw: "0 \<le> r \<Longrightarrow> r < 2 ^ m \<Longrightarrow> word_of_int r = cw m 0 r"
  by (simp add: cw_arith)

lemma cw_or: "0 \<le> s \<Longrightarrow> s < 2 ^ m \<Longrightarrow> cw m c r OR word_of_int s = cw m c (r OR s)"
  and cw_and: "0 \<le> s \<Longrightarrow> s < 2 ^ m \<Longrightarrow> cw m c r AND word_of_int s = cw m 0 (r AND s)"
  and cw_xor: "0 \<le> s \<Longrightarrow> s < 2 ^ m \<Longrightarrow> cw m c r XOR word_of_int s = cw m c (r XOR s)"
  by (simp_all add: small_cw) (simp_all add: cw_def word_of_int_bits concat_bits)

lemma cw_cong: "take_bit m r = take_bit m s \<Longrightarrow> cw m c r = cw m c s"
  by (simp add: cw_def concat_bit_def)

text \<open>Evaluation of the expressions, for \<open>m = order + 2\<close> low bits: the ring has \<open>n = 2 ^ (m - 1)\<close> slots.\<close>

abbreviation live :: "nat \<Rightarrow> int \<Rightarrow> int \<Rightarrow> usize" where
  "live m c i \<equiv> cw (Suc m) c (2 ^ m + i)"

abbreviation vacant :: "nat \<Rightarrow> int \<Rightarrow> usize" where
  "vacant m c \<equiv> cw (Suc m) c (mask (Suc m))"

lemma live_bits:
  assumes "0 \<le> i" "i < 2 ^ m"
  shows "(2 ^ m + i) OR mask (Suc m) = (mask (Suc m) :: int)" "(2 ^ m + i) OR mask m = (mask (Suc m) :: int)"
    "(2 ^ m + i) AND mask m = i" "mask (Suc m) XOR (i XOR mask m) = 2 ^ m + i"
proof -
  have i: "i = take_bit m i" using assms by (simp add: take_bit_int_eq_self)
  have sum: "2 ^ m + i = 2 ^ m OR i"
  proof (rule disjunctive_add)
    show "\<not> bit ((2 :: int) ^ m) j \<or> \<not> bit i j" for j
      by (subst i) (auto simp: bit_simps)
  qed
  have b: "bit i j \<Longrightarrow> j < m" for j by (subst (asm) i) (simp add: bit_simps)
  show "(2 ^ m + i) OR mask (Suc m) = (mask (Suc m) :: int)" "(2 ^ m + i) OR mask m = (mask (Suc m) :: int)"
    "(2 ^ m + i) AND mask m = i" "mask (Suc m) XOR (i XOR mask m) = 2 ^ m + i"
    unfolding sum by (auto simp: bit_eq_iff [where 'a = int] bit_simps dest: b)
qed

lemma modup_mask: "m < 63 \<Longrightarrow> modup w (2 ^ m) = w OR word_of_int (mask (Suc m))"
  by (simp add: modup_def push_bit_eq_mult mask_eq_exp_minus_1 mult.commute)

lemma mask_bounds: "0 \<le> (mask m :: int)" "(mask m :: int) < 2 ^ m" "(mask m :: int) < 2 ^ Suc m"
proof -
  have "(0 :: int) < 2 ^ m" by simp
  then show "0 \<le> (mask m :: int)" "(mask m :: int) < 2 ^ m" "(mask m :: int) < 2 ^ Suc m"
    unfolding mask_eq_exp_minus_1 power_Suc by linarith+
qed

lemma modup_cw: "m < 63 \<Longrightarrow> modup (cw (Suc m) c r) (2 ^ m) = vacant m c"
proof -
  have "take_bit (Suc m) (r OR mask (Suc m)) = take_bit (Suc m) (mask (Suc m))"
    by (auto simp: bit_eq_iff [where 'a = int] bit_simps)
  then show "m < 63 \<Longrightarrow> ?thesis"
    using cw_cong [of "Suc m" "r OR mask (Suc m)" "mask (Suc m)" c]
    by (simp only: modup_mask cw_or [OF mask_bounds(1,2)])
qed

lemma modup_position:
  assumes "m < 63"
  shows "modup (push_bit 1 (of_nat p)) (2 ^ m) = vacant m (int (p div 2 ^ m))"
proof -
  have "(push_bit 1 (of_nat p) :: usize) = word_of_int (2 ^ Suc m * int (p div 2 ^ m) + int (2 * (p mod 2 ^ m)))"
  proof -
    have "(push_bit 1 (of_nat p) :: usize) = of_nat (2 * p)" by (simp add: push_bit_eq_mult)
    also have "2 * p = 2 ^ Suc m * (p div 2 ^ m) + 2 * (p mod 2 ^ m)"
      using mult_div_mod_eq [of "2 ^ m" p] unfolding power_Suc by (metis distrib_left mult.assoc)
    finally show ?thesis by simp
  qed
  also have "\<dots> = cw (Suc m) (int (p div 2 ^ m)) (int (2 * (p mod 2 ^ m)))"
  proof (rule cw_arith [symmetric])
    have "p mod 2 ^ m < 2 ^ m" by simp
    then have "2 * (p mod 2 ^ m) < 2 ^ Suc m" by simp
    then show "int (2 * (p mod 2 ^ m)) < 2 ^ Suc m"
      by (metis of_nat_less_iff of_nat_numeral of_nat_power)
  qed simp
  finally show ?thesis using modup_cw [OF assms] by simp
qed

lemma lfring_map_position:
  assumes "m < 64"
  shows "unat (lfring_map (of_nat p) (2 ^ m)) = p mod 2 ^ m"
proof -
  have "p mod 2 ^ m < 2 ^ m" by simp
  also have "(2 :: nat) ^ m < 2 ^ 64" using assms by (intro power_strict_increasing) auto
  finally have lt: "p mod 2 ^ m < 2 ^ 64" .
  have "lfring_map (of_nat p) (2 ^ m) = of_nat (take_bit m p)"
    using assms by (simp add: lfring_map_def and_mask_word take_bit_of_nat)
  then show ?thesis using lt by (simp add: take_bit_eq_mod)
qed

lemma live_words:
  assumes "m < 63" "0 \<le> i" "i < 2 ^ m"
  shows "modup (live m c i) (2 ^ m) = vacant m c" "live m c i AND (2 ^ m - 1) = word_of_int i"
    "live m c i OR (2 ^ m - 1) = vacant m c"
    "vacant m c XOR (word_of_int i XOR (2 ^ m - 1)) = live m c i"
proof -
  note b = live_bits [OF assms(2,3)] and mb = mask_bounds(1,3) [of m]
  have w: "(2 ^ m - 1 :: usize) = word_of_int (mask m)" using assms(1) by (intro mask_word) simp
  show "modup (live m c i) (2 ^ m) = vacant m c" using assms(1) by (rule modup_cw)
  show "live m c i OR (2 ^ m - 1) = vacant m c" by (simp only: w cw_or [OF mb] b)
  have i: "i < 2 ^ Suc m" using assms(2,3) unfolding power_Suc by linarith
  show "live m c i AND (2 ^ m - 1) = word_of_int i"
    by (simp only: w cw_and [OF mb] b small_cw [OF assms(2) i])
  have "0 \<le> i XOR mask m" using assms(2) by (simp add: mask_eq_exp_minus_1)
  moreover have "i XOR mask m < 2 ^ Suc m"
    using XOR_upper [of i "Suc m" "mask m"] assms(2) i mb by simp
  ultimately show "vacant m c XOR (word_of_int i XOR (2 ^ m - 1)) = live m c i"
    by (simp only: w word_of_int_bits cw_xor b)
qed

text \<open>Successive cycles: different, and ordered by the signed comparison, whatever their size.\<close>

lemma cycle_diff:
  assumes "m < 62"
  shows "sint (vacant m (c - 1) - vacant m c) = - (2 ^ Suc m)"
proof -
  have diff: "vacant m (c - 1) - vacant m c = (word_of_int (- (2 ^ Suc m)) :: usize)"
    using mask_bounds(1,2) [of "Suc m"]
    by (simp only: cw_arith) (simp add: algebra_simps del: power_Suc)
  have "(2 :: int) ^ Suc m \<le> 2 ^ 63" using assms by (intro power_increasing) auto
  moreover have "(0 :: int) < 2 ^ Suc m" by simp
  ultimately have "signed_take_bit 63 (- (2 ^ Suc m)) = (- (2 ^ Suc m) :: int)"
    by (intro signed_take_bit_int_eq_self) linarith+
  then show ?thesis by (simp only: diff sint_sbintrunc') simp
qed

lemma cycle_before: "m < 62 \<Longrightarrow> lfring_signed_cmp (vacant m (c - 1)) (vacant m c) = - 1"
  by (simp add: lfring_signed_cmp_def cycle_diff)

lemma cycle_neq: "m < 62 \<Longrightarrow> vacant m (c - 1) \<noteq> vacant m c"
  using cycle_before [of m c] by (auto simp: lfring_signed_cmp_def)

lemma signed_cmp_succ: "lfring_signed_cmp w (w + 1) = - 1" "lfring_signed_cmp w w = 0"
  by (simp_all add: lfring_signed_cmp_def)

section \<open>Properties\<close>



end
