(* ===== verification/Solo_Run.thy ===== *)
theory Solo_Run
  imports Prelude
begin

text \<open>
  Total correctness of machines that run alone, so that a machine inside another one is verified once:
  \<open>solo_within f ret n P s pc\<close> says that from \<open>s\<close> and \<open>pc\<close>, whatever steps fail spuriously, the
  machine returns at most \<open>n\<close> steps after the last spurious failure, in a state and with a result
  that satisfy \<open>P\<close>.
\<close>

fun meets :: "(bool \<Rightarrow> 's \<Rightarrow> 'p \<Rightarrow> 's \<times> 'p) \<Rightarrow> ('p \<Rightarrow> 'r option) \<Rightarrow> nat \<Rightarrow> ('s \<Rightarrow> 'r \<Rightarrow> bool) \<Rightarrow>
    bool list \<Rightarrow> nat \<Rightarrow> 's \<Rightarrow> 'p \<Rightarrow> bool" where
  "meets f ret N P [] n s pc = (case ret pc of Some r \<Rightarrow> P s r | None \<Rightarrow> 0 < n)"
| "meets f ret N P (w # ws) n s pc =
     (case ret pc of
        Some r \<Rightarrow> P s r
      | None \<Rightarrow> (w \<or> 0 < n) \<and> (case f w s pc of (s', pc') \<Rightarrow> meets f ret N P ws (if w then N else n - 1) s' pc'))"

definition solo_within :: "(bool \<Rightarrow> 's \<Rightarrow> 'p \<Rightarrow> 's \<times> 'p) \<Rightarrow> ('p \<Rightarrow> 'r option) \<Rightarrow> nat \<Rightarrow>
    ('s \<Rightarrow> 'r \<Rightarrow> bool) \<Rightarrow> 's \<Rightarrow> 'p \<Rightarrow> bool" where
  "solo_within f ret n P s pc \<longleftrightarrow> (\<forall>ws. meets f ret n P ws n s pc)"

lemma meets_mono:
  assumes "meets f ret N P ws n s pc" "n \<le> m" "N \<le> M" "\<And>s r. P s r \<Longrightarrow> Q s r"
  shows "meets f ret M Q ws m s pc"
  using assms(1,2)
proof (induction ws arbitrary: n m s pc)
  case (Cons w ws)
  show ?case
  proof (cases "ret pc")
    case None
    obtain s' pc' where "f w s pc = (s', pc')" by fastforce
    then show ?thesis
      using Cons.prems Cons.IH [of "if w then N else n - 1" s' pc' "if w then M else m - 1"] None assms(3) by auto
  qed (use Cons.prems assms(4) in simp)
qed (auto split: option.splits intro: assms(4))

lemma within_mono:
  assumes "solo_within f ret n P s pc" "n \<le> m" "\<And>s r. P s r \<Longrightarrow> Q s r"
  shows "solo_within f ret m Q s pc"
  unfolding solo_within_def
proof
  fix ws
  have "meets f ret n P ws n s pc" using assms(1) by (simp add: solo_within_def)
  then show "meets f ret m Q ws m s pc" by (rule meets_mono) (use assms(2,3) in auto)
qed

lemma within_return: "ret pc = Some r \<Longrightarrow> P s r \<Longrightarrow> solo_within f ret n P s pc"
  unfolding solo_within_def
proof
  fix ws
  assume "ret pc = Some r" "P s r"
  then show "meets f ret n P ws n s pc" by (cases ws) auto
qed

text \<open>A step that cannot fail spuriously.\<close>

lemma within_step:
  assumes "ret pc = None" "\<And>w. f w s pc = (s', pc')" "solo_within f ret n P s' pc'"
  shows "solo_within f ret (Suc n) P s pc"
  unfolding solo_within_def
proof
  fix ws
  show "meets f ret (Suc n) P ws (Suc n) s pc"
  proof (cases ws)
    case (Cons w vs)
    have "meets f ret n P vs n s' pc'" using assms(3) by (simp add: solo_within_def)
    then have "meets f ret (Suc n) P vs (if w then Suc n else n) s' pc'" by (rule meets_mono) auto
    then show ?thesis using assms(1,2) Cons by (cases w) simp_all
  qed (use assms(1) in simp)
qed

text \<open>Steps that keep an invariant and, unless they fail spuriously, lower a measure.\<close>

lemma within_measure:
  assumes "I s pc" "\<And>w s pc. I s pc \<Longrightarrow> ret pc = None \<Longrightarrow>
      case f w s pc of (s', pc') \<Rightarrow> I s' pc' \<and> (\<not> w \<longrightarrow> (m pc' :: nat) < m pc)"
    and "\<And>s pc r. I s pc \<Longrightarrow> ret pc = Some r \<Longrightarrow> P s r" "\<And>pc. m pc \<le> N"
  shows "solo_within f ret N P s pc"
proof -
  have "meets f ret N P ws n s pc" if "I s pc" "m pc \<le> n" for ws n s pc
    using that
  proof (induction ws arbitrary: n s pc)
    case Nil
    then show ?case using assms(2) [of s pc False] assms(3) [of s pc] by (auto split: option.splits prod.splits)
  next
    case (Cons w ws)
    show ?case
    proof (cases "ret pc")
      case None
      obtain s' pc' where f: "f w s pc = (s', pc')" by fastforce
      then have i: "I s' pc'" "\<not> w \<longrightarrow> m pc' < m pc" using assms(2) [OF Cons.prems(1) None, of w] by auto
      then have "w \<or> 0 < n" "m pc' \<le> (if w then N else n - 1)" using Cons.prems(2) assms(4) [of pc'] by auto
      then show ?thesis using Cons.IH [OF i(1)] None f by simp
    qed (use Cons.prems assms(3) in auto)
  qed
  then show ?thesis using assms(1,4) by (auto simp: solo_within_def)
qed

text \<open>A machine inside another: \<open>S\<close> and \<open>E\<close> give the state and the program counter of the outer one.\<close>

lemma within_embed:
  assumes inner: "solo_within f ret n P s pc"
    and step: "\<And>w s pc. ret pc = None \<Longrightarrow> F w (S s) (E s pc) = (case f w s pc of (s', pc') \<Rightarrow> (S s', E s' pc'))"
    and running: "\<And>s pc. ret pc = None \<Longrightarrow> Ret (E s pc) = None"
    and after: "\<And>s pc r. ret pc = Some r \<Longrightarrow> P s r \<Longrightarrow> solo_within F Ret m Q (S s) (E s pc)"
  shows "solo_within F Ret (n + m) Q (S s) (E s pc)"
proof -
  have "meets F Ret (n + m) Q ws (k + m) (S s) (E s pc)" if "meets f ret n P ws k s pc" for ws k s pc
    using that
  proof (induction ws arbitrary: k s pc)
    case Nil
    show ?case
    proof (cases "ret pc")
      case (Some r)
      then have "P s r" using Nil by simp
      then have "meets F Ret m Q [] m (S s) (E s pc)" using after [OF Some] unfolding solo_within_def by blast
      then show ?thesis by (rule meets_mono) auto
    qed (use Nil running in simp)
  next
    case (Cons w ws)
    show ?case
    proof (cases "ret pc")
      case (Some r)
      then have "P s r" using Cons.prems by simp
      then have "meets F Ret m Q (w # ws) m (S s) (E s pc)" using after [OF Some] unfolding solo_within_def by blast
      then show ?thesis by (rule meets_mono) auto
    next
      case None
      obtain s' pc' where f: "f w s pc = (s', pc')" by fastforce
      then have "w \<or> 0 < k" "meets f ret n P ws (if w then n else k - 1) s' pc'" using Cons.prems None by auto
      then have "w \<or> 0 < k + m" "meets F Ret (n + m) Q ws (if w then n + m else k + m - 1) (S s') (E s' pc')"
        using Cons.IH [of "if w then n else k - 1" s' pc'] by (cases w; auto)+
      then show ?thesis using step [OF None, of w s] running [OF None] f by simp
    qed
  qed
  then show ?thesis using inner by (simp add: solo_within_def)
qed

lemma within_run:
  assumes "solo_within f ret n P s pc"
  shows "\<exists>s' r. run_solo f ret (ws @ replicate n False) s pc = Some (s', r) \<and> P s' r"
proof -
  have idle: "\<exists>s' r. run_solo f ret (replicate j False) s pc = Some (s', r) \<and> P s' r"
    if "meets f ret n P (replicate j False) k s pc" "k \<le> j" for j k s pc
    using that
  proof (induction j arbitrary: k s pc)
    case (Suc j)
    then show ?case by (cases "ret pc") (auto split: prod.splits)
  qed (auto split: option.splits)
  have "\<exists>s' r. run_solo f ret (ws @ replicate n False) s pc = Some (s', r) \<and> P s' r"
    if "meets f ret n P (ws @ replicate n False) k s pc" "k \<le> n" for ws k s pc
    using that
  proof (induction ws arbitrary: k s pc)
    case (Cons w ws)
    show ?case
    proof (cases "ret pc")
      case None
      obtain s' pc' where f: "f w s pc = (s', pc')" by fastforce
      then have "meets f ret n P (ws @ replicate n False) (if w then n else k - 1) s' pc'"
        using Cons.prems None by auto
      from Cons.IH [OF this] show ?thesis using Cons.prems(2) None f by (cases w) simp_all
    qed (use Cons.prems in auto)
  qed (use idle in simp)
  from this [of ws n s pc] show ?thesis using assms by (simp add: solo_within_def)
qed

end
