(* ===== verification/Scq_Seq.thy ===== *)
theory Scq_Seq
  imports Scq_Words Fifo_Spec Solo_Run
begin

text \<open>
  The ring used by one thread: the representation of a list of indices, and what \<open>enqueue\<close> and
  \<open>dequeue\<close> do to it, whatever weak exchanges fail spuriously. Positions are counted without bound;
  the counters and cycle numbers of the ring may wrap around.
\<close>

section \<open>Solo runs\<close>

fun ring_enq_returned :: "ring_enq_pc \<Rightarrow> (unit, scq_error) rust_result option" where
  "ring_enq_returned (ERet r) = Some r"
| "ring_enq_returned _ = None"

fun ring_deq_returned :: "ring_deq_pc \<Rightarrow> usize option option" where
  "ring_deq_returned (DRet r) = Some r"
| "ring_deq_returned _ = None"

definition ring_enqueue :: "bool list \<Rightarrow> scq_ring \<Rightarrow> usize \<Rightarrow> (scq_ring \<times> (unit, scq_error) rust_result) option" where
  "ring_enqueue ws r eidx =
     run_solo ring_enqueue_step ring_enq_returned (ws @ replicate 6 False) r (ring_enqueue_start r eidx)"

definition ring_dequeue :: "bool list \<Rightarrow> scq_ring \<Rightarrow> (scq_ring \<times> usize option) option" where
  "ring_dequeue ws r =
     run_solo ring_dequeue_step ring_deq_returned (ws @ replicate 18 False) r DThresh"

section \<open>The representation\<close>

definition slots :: "scq_ring \<Rightarrow> nat" where
  "slots r = 2 ^ Suc (order r)"

definition top_threshold :: "scq_ring \<Rightarrow> 64 word" where
  "top_threshold r = lfring_threshold3 (ring_half r) (ring_n r)"

definition entry_ok :: "scq_ring \<Rightarrow> nat \<Rightarrow> nat list \<Rightarrow> nat \<Rightarrow> bool" where
  "entry_ok r h xs p \<longleftrightarrow>
     ring_array r ! (p mod slots r) =
       (if p < h + length xs then live (Suc (order r)) (int (p div slots r)) (int (xs ! (p - h)))
        else vacant (Suc (order r)) (int (p div slots r) - 1))"

definition ring_ok :: "scq_ring \<Rightarrow> nat \<Rightarrow> nat list \<Rightarrow> bool" where
  "ring_ok r h xs \<longleftrightarrow>
     order r \<le> 60 \<and> length (ring_array r) = slots r \<and> length xs \<le> slots r \<and>
     (\<forall>x \<in> set xs. x < 2 ^ order r) \<and>
     rhead r = of_nat h \<and> rtail r = of_nat (h + length xs) \<and>
     (\<forall>p. h \<le> p \<longrightarrow> p < h + slots r \<longrightarrow> entry_ok r h xs p) \<and>
     (if xs = [] then - 1 \<le> sint (threshold r) else threshold r = top_threshold r)"

lemma ring_okD:
  assumes "ring_ok r h xs"
  shows "order r \<le> 60" "length (ring_array r) = slots r" "length xs \<le> slots r"
    "\<And>x. x \<in> set xs \<Longrightarrow> x < 2 ^ order r" "rhead r = of_nat h" "rtail r = of_nat (h + length xs)"
    "\<And>p. h \<le> p \<Longrightarrow> p < h + slots r \<Longrightarrow> entry_ok r h xs p"
    "xs = [] \<Longrightarrow> - 1 \<le> sint (threshold r)" "xs \<noteq> [] \<Longrightarrow> threshold r = top_threshold r"
  using assms by (auto simp: ring_ok_def)

lemma ring_frame [simp]:
  "slots (r\<lparr>rhead := w\<rparr>) = slots r" "slots (r\<lparr>rtail := w\<rparr>) = slots r" "slots (r\<lparr>threshold := w\<rparr>) = slots r"
  "slots (store_entry r i w) = slots r" "order (store_entry r i w) = order r"
  "rhead (store_entry r i w) = rhead r" "rtail (store_entry r i w) = rtail r"
  "threshold (store_entry r i w) = threshold r" "is_finalized (store_entry r i w) = is_finalized r"
  "ring_n (r\<lparr>rhead := w\<rparr>) = ring_n r" "ring_n (r\<lparr>rtail := w\<rparr>) = ring_n r" "ring_n (r\<lparr>threshold := w\<rparr>) = ring_n r"
  "ring_n (store_entry r i w) = ring_n r"
  "top_threshold (r\<lparr>rhead := w\<rparr>) = top_threshold r" "top_threshold (r\<lparr>rtail := w\<rparr>) = top_threshold r"
  "top_threshold (r\<lparr>threshold := w\<rparr>) = top_threshold r" "top_threshold (store_entry r i w) = top_threshold r"
  by (simp_all add: slots_def store_entry_def ring_n_def ring_half_def top_threshold_def)

lemma ring_n_pow: "ring_n r = 2 ^ Suc (order r)"
  by (simp add: ring_n_def ring_half_def lfring_pow2_def push_bit_eq_mult)

lemma ring_sizes:
  "unat (ring_capacity r) = 2 ^ order r" if "order r \<le> 60"
proof -
  have "(2 :: nat) ^ order r \<le> 2 ^ 60" using that by (intro power_increasing) auto
  then have "unat (of_nat (2 ^ order r) :: usize) = 2 ^ order r" by (subst unat_of_nat_64) simp
  then show ?thesis by (simp add: ring_capacity_def push_bit_eq_mult)
qed

lemma index_bound: "x < 2 ^ order r \<Longrightarrow> int x < 2 ^ Suc (order r)"
proof -
  assume "x < 2 ^ order r"
  moreover have "(2 :: nat) ^ order r < 2 ^ Suc (order r)" by simp
  ultimately show ?thesis by (metis of_nat_less_iff of_nat_numeral of_nat_power order_less_trans)
qed

lemma index_unat: "order r \<le> 60 \<Longrightarrow> x < 2 ^ order r \<Longrightarrow> unat (of_nat x :: usize) = x"
proof -
  assume "order r \<le> 60" "x < 2 ^ order r"
  moreover from this have "(2 :: nat) ^ order r \<le> 2 ^ 60" by (intro power_increasing) auto
  ultimately show ?thesis by (subst unat_of_nat_64) simp
qed

lemma top_threshold_nonneg:
  assumes "order r \<le> 60"
  shows "0 \<le> sint (top_threshold r)"
proof -
  let ?v = "3 * 2 ^ order r - 1 :: int"
  have b: "1 \<le> (2 :: int) ^ order r" "(2 :: int) ^ order r \<le> 2 ^ 60"
    using assms by (simp, intro power_increasing) auto
  have "top_threshold r = word_of_int ?v"
    by (simp add: top_threshold_def lfring_threshold3_def ring_n_pow ring_half_def lfring_pow2_def
        push_bit_eq_mult)
  moreover have "signed_take_bit 63 ?v = ?v"
  proof (rule signed_take_bit_int_eq_self)
    have "(0 :: int) \<le> 2 ^ 63" by simp
    then show "- (2 ^ 63) \<le> ?v" using b(1) by linarith
    have "(3 :: int) * 2 ^ 60 < 2 ^ 63" by simp
    then show "?v < 2 ^ 63" using b(2) by linarith
  qed
  ultimately show ?thesis using b by (simp only: sint_sbintrunc') simp
qed

lemma position_eval:
  assumes "order r \<le> 60"
  shows "unat (lfring_map (of_nat p) (ring_n r)) = p mod slots r"
    "modup (push_bit 1 (of_nat p)) (ring_n r) = vacant (Suc (order r)) (int (p div slots r))"
  using assms lfring_map_position [of "Suc (order r)" p] modup_position [of "Suc (order r)" p]
  by (simp_all add: ring_n_pow slots_def)

lemma slots_pos [simp]: "0 < slots r"
  by (simp add: slots_def)

lemma load_position:
  assumes "ring_ok r h xs"
  shows "load_entry r (lfring_map (of_nat p) (ring_n r)) = Some (ring_array r ! (p mod slots r))"
  using ring_okD(1,2) [OF assms] by (simp add: load_entry_def position_eval)

lemma store_position:
  assumes "order r \<le> 60"
  shows "store_entry r (lfring_map (of_nat p) (ring_n r)) w = r\<lparr>ring_array := (ring_array r)[p mod slots r := w]\<rparr>"
  using assms by (simp add: store_entry_def position_eval)

section \<open>The three state changes\<close>

lemma entry_ok_other:
  assumes "entry_ok r h xs p" "slots r' = slots r" "order r' = order r"
    "ring_array r' = (ring_array r)[k := w]" "p mod slots r \<noteq> k"
    "p < h' + length xs' \<longleftrightarrow> p < h + length xs" "p < h + length xs \<Longrightarrow> xs' ! (p - h') = xs ! (p - h)"
  shows "entry_ok r' h' xs' p"
  using assms by (auto simp: entry_ok_def)

lemma next_cycle: "(p + slots r) div slots r = Suc (p div slots r)"
  by (simp add: div_add_self2 slots_def)

lemma ring_push:
  assumes "ring_ok r h xs" "length xs < slots r" "x < 2 ^ order r"
    and r': "r' = r\<lparr>rtail := of_nat (h + length xs) + 1,
      ring_array := (ring_array r)[(h + length xs) mod slots r :=
        live (Suc (order r)) (int ((h + length xs) div slots r)) (int x)], threshold := top_threshold r\<rparr>"
  shows "ring_ok r' h (xs @ [x])"
proof -
  note d = ring_okD [OF assms(1)]
  have s: "slots r' = slots r" "order r' = order r" by (simp_all add: r' slots_def)
  have "entry_ok r' h (xs @ [x]) p" if p: "h \<le> p" "p < h + slots r" for p
  proof (cases "p = h + length xs")
    case True
    then show ?thesis using d(2) by (simp add: entry_ok_def s) (simp add: r')
  next
    case False
    then have "p mod slots r \<noteq> (h + length xs) mod slots r"
      using window_mod_inj [of h p "slots r" "h + length xs"] p assms(2) by auto
    then show ?thesis
      using d(7) [OF p] False p(1)
      by (intro entry_ok_other [OF _ s, where h = h and xs = xs]) (auto simp: r' nth_append)
  qed
  then show ?thesis
    using d assms(2,3) by (auto simp: ring_ok_def s) (auto simp: r' top_threshold_def ring_half_def ring_n_def)
qed

lemma ring_leave:
  assumes "ring_ok r h xs" and s: "slots r' = slots r" "order r' = order r"
    and arr: "ring_array r' = (ring_array r)[h mod slots r := vacant (Suc (order r)) (int (h div slots r))]"
    and p: "Suc h \<le> p" "p < Suc h + slots r"
  shows "entry_ok r' (Suc h) (tl xs) p"
proof (cases "p = h + slots r")
  case True
  then have "\<not> p < Suc h + length (tl xs)" using ring_okD(3) [OF assms(1)] by (cases xs) auto
  moreover have "int (p div slots r) - 1 = int (h div slots r)" by (simp add: True next_cycle)
  ultimately show ?thesis
    using ring_okD(2) [OF assms(1)] by (simp add: entry_ok_def s arr True)
next
  case False
  then have "p mod slots r \<noteq> h mod slots r"
    using window_mod_inj [of h p "slots r" h] p by auto
  then show ?thesis
    using ring_okD(7) [OF assms(1), of p] False p
    by (intro entry_ok_other [OF _ s arr, where h = h and xs = xs]) (cases xs; auto simp: nth_Cons')+
qed

lemma ring_pop:
  assumes "ring_ok r h (x # xs)"
    and r': "r' = r\<lparr>rhead := of_nat h + 1,
      ring_array := (ring_array r)[h mod slots r := vacant (Suc (order r)) (int (h div slots r))]\<rparr>"
  shows "ring_ok r' (Suc h) xs"
proof -
  note d = ring_okD [OF assms(1)]
  have s: "slots r' = slots r" "order r' = order r" by (simp_all add: r' slots_def)
  have "entry_ok r' (Suc h) xs p" if "Suc h \<le> p" "p < Suc h + slots r" for p
    using ring_leave [OF assms(1) s _ that] by (simp add: r')
  moreover have "top_threshold r' = top_threshold r" by (simp add: r' top_threshold_def ring_half_def ring_n_def)
  moreover have "- 1 \<le> sint (top_threshold r)" using top_threshold_nonneg [OF d(1)] by simp
  ultimately show ?thesis
    using d by (auto simp: ring_ok_def s) (auto simp: r')
qed

lemma sint_minus_one: "0 \<le> sint (w :: 64 word) \<Longrightarrow> sint (w - 1) = sint w - 1"
proof -
  assume w: "0 \<le> sint w"
  have "sint w < 2 ^ 63" using sint_lt [of w] by simp
  then have "signed_take_bit 63 (sint w - 1) = sint w - 1"
    using w by (intro signed_take_bit_int_eq_self) auto
  moreover have "w - 1 = word_of_int (sint w - 1)" by simp
  ultimately show ?thesis by (simp only: sint_sbintrunc') simp
qed

lemma ring_skip:
  assumes "ring_ok r h []" "0 \<le> sint (threshold r)"
    and r': "r' = r\<lparr>rhead := of_nat h + 1, rtail := of_nat h + 1,
      ring_array := (ring_array r)[h mod slots r := vacant (Suc (order r)) (int (h div slots r))],
      threshold := threshold r - 1\<rparr>"
  shows "ring_ok r' (Suc h) []"
proof -
  note d = ring_okD [OF assms(1)]
  have s: "slots r' = slots r" "order r' = order r" by (simp_all add: r' slots_def)
  have "entry_ok r' (Suc h) [] p" if "Suc h \<le> p" "p < Suc h + slots r" for p
    using ring_leave [OF assms(1) s _ that] by (simp add: r')
  then show ?thesis
    using d sint_minus_one [OF assms(2)] assms(2) by (auto simp: ring_ok_def s) (auto simp: r')
qed

section \<open>Enqueue\<close>

text \<open>The ring after the increment of the tail, and after the exchange of the entry.\<close>

definition enq_claimed :: "scq_ring \<Rightarrow> nat \<Rightarrow> scq_ring" where
  "enq_claimed r t = r\<lparr>rtail := of_nat t + 1\<rparr>"

definition enq_stored :: "scq_ring \<Rightarrow> nat \<Rightarrow> nat \<Rightarrow> scq_ring" where
  "enq_stored r t x = (enq_claimed r t)\<lparr>ring_array := (ring_array r)[t mod slots r :=
     live (Suc (order r)) (int (t div slots r)) (int x)]\<rparr>"

fun enq_inv :: "scq_ring \<Rightarrow> nat \<Rightarrow> nat \<Rightarrow> scq_ring \<Rightarrow> ring_enq_pc \<Rightarrow> bool" where
  "enq_inv r t x s (EFetch e) \<longleftrightarrow> s = r \<and> e = of_nat x XOR (ring_n r - 1)"
| "enq_inv r t x s (EEntry e w) \<longleftrightarrow> s = enq_claimed r t \<and> e = of_nat x XOR (ring_n r - 1) \<and> w = of_nat t"
| "enq_inv r t x s (EFinal e w en) \<longleftrightarrow> s = enq_claimed r t \<and> e = of_nat x XOR (ring_n r - 1) \<and>
     w = of_nat t \<and> en = ring_array r ! (t mod slots r) \<and> length (is_finalized r) = 1"
| "enq_inv r t x s (ECas e w en) \<longleftrightarrow> s = enq_claimed r t \<and> e = of_nat x XOR (ring_n r - 1) \<and>
     w = of_nat t \<and> en = ring_array r ! (t mod slots r)"
| "enq_inv r t x s EThresh \<longleftrightarrow> s = enq_stored r t x"
| "enq_inv r t x s EThStore \<longleftrightarrow> s = enq_stored r t x"
| "enq_inv r t x s (ERet res) \<longleftrightarrow> res = Ok () \<and> s = (enq_stored r t x)\<lparr>threshold := top_threshold r\<rparr>"
| "enq_inv r t x s _ \<longleftrightarrow> False"

fun enq_measure :: "ring_enq_pc \<Rightarrow> nat" where
  "enq_measure (EFetch _) = 6"
| "enq_measure (EEntry _ _) = 5"
| "enq_measure (EFinal _ _ _) = 4"
| "enq_measure (ECas _ _ _) = 3"
| "enq_measure EThresh = 2"
| "enq_measure EThStore = 1"
| "enq_measure _ = 0"

definition finalized :: "scq_ring \<Rightarrow> bool" where
  "finalized r \<longleftrightarrow> length (is_finalized r) = 1 \<and> is_finalized r ! 0"

lemma enq_frame [simp]:
  "slots (enq_claimed r t) = slots r" "order (enq_claimed r t) = order r" "ring_n (enq_claimed r t) = ring_n r"
  "is_finalized (enq_claimed r t) = is_finalized r" "ring_array (enq_claimed r t) = ring_array r"
  "top_threshold (enq_stored r t x) = top_threshold r" "threshold (enq_stored r t x) = threshold r"
  "load_entry (enq_claimed r t) i = load_entry r i"
  "(enq_claimed r t)\<lparr>ring_array := ring_array r\<rparr> = enq_claimed r t"
  by (simp_all add: enq_claimed_def enq_stored_def top_threshold_def ring_half_def ring_n_def slots_def
      load_entry_def)

lemma enq_store:
  assumes "order r \<le> 60"
  shows "store_entry (enq_claimed r t) (lfring_map (of_nat p) (ring_n r)) w =
    (enq_claimed r t)\<lparr>ring_array := (ring_array r)[p mod slots r := w]\<rparr>"
  using store_position [of "enq_claimed r t" p w] assms by simp

lemma tail_entry:
  assumes "ring_ok r h xs" "length xs < slots r" "t = h + length xs"
  shows "ring_array r ! (t mod slots r) = vacant (Suc (order r)) (int (t div slots r) - 1)"
  using ring_okD(7) [OF assms(1), of t] assms(2,3) by (simp add: entry_ok_def)

lemma enq_inv_entry:
  assumes "ring_ok r h xs" "length xs < slots r" "t = h + length xs" "enq_inv r t x s (EEntry e w)"
  shows "ring_enqueue_step weak s (EEntry e w) = (s, claim_pc r e w (ring_array r ! (t mod slots r)))"
proof -
  note d = ring_okD [OF assms(1)]
  have o: "Suc (order r) < 62" using d(1) by simp
  have "modup (vacant (Suc (order r)) c) (ring_n r) = vacant (Suc (order r)) c" for c
    using o modup_cw by (simp add: ring_n_pow del: power_Suc)
  then show ?thesis
    using assms(4) tail_entry [OF assms(1-3)] position_eval(2) [OF d(1), of t] cycle_before [OF o]
    by (simp add: load_position [OF assms(1)] claim_pc_def Let_def)
qed

lemma enq_inv_cas:
  assumes "ring_ok r h xs" "x < 2 ^ order r" "enq_inv r t x s (ECas e w en)"
  shows "ring_enqueue_step weak s (ECas e w en) =
    (if weak then (s, EEntry e w) else (enq_stored r t x, EThresh))"
proof -
  note d = ring_okD [OF assms(1)]
  have "int x < 2 ^ Suc (order r)" by (rule index_bound [OF assms(2)])
  then have "vacant (Suc (order r)) (int (t div slots r)) XOR (of_nat x XOR (ring_n r - 1)) =
      live (Suc (order r)) (int (t div slots r)) (int x)"
    using live_words(4) [of "Suc (order r)" "int x"] d(1) by (simp add: ring_n_pow del: power_Suc)
  then show ?thesis
    using assms(3) position_eval(2) [OF d(1), of t]
    by (simp add: load_position [OF assms(1)] enq_store [OF d(1)] Let_def compare_exchange_weak_def
        enq_stored_def)
qed

lemma enq_inv_step:
  assumes "ring_ok r h xs" "length xs < slots r" "t = h + length xs" "x < 2 ^ order r" "\<not> finalized r"
    "enq_inv r t x s pc" "ring_enq_returned pc = None"
  shows "case ring_enqueue_step weak s pc of (s', pc') \<Rightarrow>
    enq_inv r t x s' pc' \<and> (\<not> weak \<longrightarrow> enq_measure pc' < enq_measure pc)"
proof (cases pc)
  case (EFetch e)
  then show ?thesis using assms(3,6) ring_okD(6) [OF assms(1)] by (simp add: enq_claimed_def)
next
  case (EEntry e w)
  then show ?thesis
    using assms(6) enq_inv_entry [OF assms(1-3), of x s e w weak] by (auto simp: claim_pc_def)
next
  case (EFinal e w en)
  then show ?thesis using assms(5,6) by (auto simp: finalized_def)
next
  case (ECas e w en)
  then show ?thesis using assms(6) enq_inv_cas [OF assms(1,4), of t s e w en weak] by auto
qed (use assms(6,7) in \<open>auto simp: top_threshold_def [symmetric]\<close>)

lemma ring_enqueue_start_ok:
  assumes "order r \<le> 60" "x < 2 ^ order r"
  shows "ring_enqueue_start r (of_nat x) = EFetch (of_nat x XOR (ring_n r - 1))"
proof -
  have "\<not> ring_capacity r \<le> of_nat x" using assms by (simp add: word_le_nat_alt ring_sizes index_unat)
  then show ?thesis by (simp add: ring_enqueue_start_def)
qed

lemma ring_enqueue_within:
  assumes "ring_ok r h xs" "length xs < slots r" "x < 2 ^ order r" "\<not> finalized r"
  shows "solo_within ring_enqueue_step ring_enq_returned 6
    (\<lambda>r' res. res = Ok () \<and> ring_ok r' h (xs @ [x]) \<and> order r' = order r \<and> is_finalized r' = is_finalized r)
    r (ring_enqueue_start r (of_nat x))"
  unfolding ring_enqueue_start_ok [OF ring_okD(1) [OF assms(1)] assms(3)]
proof (rule within_measure [where I = "enq_inv r (h + length xs) x" and m = enq_measure])
  fix s pc and res :: "(unit, scq_error) rust_result"
  assume "enq_inv r (h + length xs) x s pc" "ring_enq_returned pc = Some res"
  then have "res = Ok ()" "s = (enq_stored r (h + length xs) x)\<lparr>threshold := top_threshold r\<rparr>"
    by (auto elim!: ring_enq_returned.elims)
  then show "res = Ok () \<and> ring_ok s h (xs @ [x]) \<and> order s = order r \<and> is_finalized s = is_finalized r"
    using ring_push [OF assms(1-3), of s] by (simp add: enq_stored_def enq_claimed_def)
next
  show "enq_measure pc \<le> 6" for pc by (cases pc) auto
qed (simp, rule enq_inv_step [OF assms(1,2) refl assms(3,4)])

lemma ring_enqueue_ok:
  assumes "ring_ok r h xs" "length xs < slots r" "x < 2 ^ order r" "\<not> finalized r"
  shows "\<exists>r'. ring_enqueue ws r (of_nat x) = Some (r', Ok ()) \<and> ring_ok r' h (xs @ [x]) \<and>
    order r' = order r \<and> is_finalized r' = is_finalized r"
  unfolding ring_enqueue_def using within_run [OF ring_enqueue_within [OF assms], of ws] by auto

text \<open>On a finalised ring \<open>enqueue\<close> is refused, but has already moved the tail past a position.\<close>

lemma ring_enqueue_finalized:
  assumes "ring_ok r h xs" "length xs < slots r" "x < 2 ^ order r" "finalized r"
  shows "solo_within ring_enqueue_step ring_enq_returned 3
    (\<lambda>r' res. res = Err QueueFinalized \<and> r' = r\<lparr>rtail := rtail r + 1\<rparr>) r (ring_enqueue_start r (of_nat x))"
proof -
  let ?t = "h + length xs" and ?e = "of_nat x XOR (ring_n r - 1)"
  have t: "rtail r = of_nat ?t" using ring_okD(6) [OF assms(1)] .
  have e: "ring_enqueue_step w (enq_claimed r ?t) (EEntry ?e (rtail r)) =
      (enq_claimed r ?t, EFinal ?e (rtail r) (ring_array r ! (?t mod slots r)))" for w
    using enq_inv_entry [OF assms(1,2) refl, of x "enq_claimed r ?t" ?e "rtail r" w] assms(4) t
    by (simp add: claim_pc_def finalized_def)
  let ?P = "\<lambda>r' res. res = Err QueueFinalized \<and> r' = enq_claimed r ?t"
  have "solo_within ring_enqueue_step ring_enq_returned (Suc 0) ?P (enq_claimed r ?t)
      (EFinal ?e (rtail r) (ring_array r ! (?t mod slots r)))"
    using assms(4)
    by (intro within_step [where pc' = "ERet (Err QueueFinalized)"] within_return [where r = "Err QueueFinalized"])
      (auto simp: finalized_def)
  then have "solo_within ring_enqueue_step ring_enq_returned (Suc (Suc 0)) ?P (enq_claimed r ?t) (EEntry ?e (rtail r))"
    by (rule within_step [where pc' = "EFinal ?e (rtail r) (ring_array r ! (?t mod slots r))", rotated 2]) (simp, rule e)
  then have "solo_within ring_enqueue_step ring_enq_returned (Suc (Suc (Suc 0))) ?P r (EFetch ?e)"
    by (rule within_step [where pc' = "EEntry ?e (rtail r)", rotated 2]) (use t in \<open>simp_all add: enq_claimed_def\<close>)
  then show ?thesis
    using t unfolding ring_enqueue_start_ok [OF ring_okD(1) [OF assms(1)] assms(3)]
    by (simp add: enq_claimed_def numeral_3_eq_3)
qed

lemma ring_enqueue_too_large:
  assumes "eidx \<ge> ring_capacity r"
  shows "ring_enqueue ws r eidx = Some (r, Err IndexLargerThanOrder)"
  using assms by (cases ws) (simp_all add: ring_enqueue_def ring_enqueue_start_def numeral_eq_Suc)

section \<open>Dequeue from a ring that holds an index\<close>

definition deq_claimed :: "scq_ring \<Rightarrow> nat \<Rightarrow> scq_ring" where
  "deq_claimed r h = r\<lparr>rhead := of_nat h + 1\<rparr>"

definition deq_vacated :: "scq_ring \<Rightarrow> nat \<Rightarrow> scq_ring" where
  "deq_vacated r h = (deq_claimed r h)\<lparr>ring_array := (ring_array r)[h mod slots r :=
     vacant (Suc (order r)) (int (h div slots r))]\<rparr>"

lemma deq_frame [simp]:
  "slots (deq_claimed r h) = slots r" "order (deq_claimed r h) = order r" "ring_n (deq_claimed r h) = ring_n r"
  "ring_array (deq_claimed r h) = ring_array r" "load_entry (deq_claimed r h) i = load_entry r i"
  "(deq_claimed r h)\<lparr>ring_array := ring_array r\<rparr> = deq_claimed r h"
  "load_entry (r\<lparr>rtail := w\<rparr>) i = load_entry r i"
  "rtail (deq_claimed r h) = rtail r" "threshold (deq_claimed r h) = threshold r"
  "rtail (deq_vacated r h) = rtail r" "threshold (deq_vacated r h) = threshold r"
  "rhead (deq_vacated r h) = of_nat h + 1"
  by (simp_all add: deq_claimed_def deq_vacated_def ring_n_def ring_half_def slots_def load_entry_def)

lemma deq_store:
  assumes "order r \<le> 60"
  shows "store_entry (deq_claimed r h) (lfring_map (of_nat p) (ring_n r)) w =
    (deq_claimed r h)\<lparr>ring_array := (ring_array r)[p mod slots r := w]\<rparr>"
  using store_position [of "deq_claimed r h" p w] assms by simp

fun take_inv :: "scq_ring \<Rightarrow> nat \<Rightarrow> nat \<Rightarrow> scq_ring \<Rightarrow> ring_deq_pc \<Rightarrow> bool" where
  "take_inv r h x s DThresh \<longleftrightarrow> s = r"
| "take_inv r h x s DFetch \<longleftrightarrow> s = r"
| "take_inv r h x s (DEntry w att) \<longleftrightarrow> s = deq_claimed r h \<and> w = of_nat h"
| "take_inv r h x s (DOr w en) \<longleftrightarrow> s = deq_claimed r h \<and> w = of_nat h \<and> en = ring_array r ! (h mod slots r)"
| "take_inv r h x s (DRet res) \<longleftrightarrow> s = deq_vacated r h \<and> res = Some (of_nat x)"
| "take_inv r h x s _ \<longleftrightarrow> False"

fun deq_measure :: "ring_deq_pc \<Rightarrow> nat" where
  "deq_measure DThresh = 18"
| "deq_measure DFetch = 17"
| "deq_measure (DEntry _ att) = 5 + (11 - att)"
| "deq_measure (DCas _ _ _ _) = 4"
| "deq_measure DCatchHead = 4"
| "deq_measure (DTail _) = 3"
| "deq_measure (DCatchTail _) = 3"
| "deq_measure (DCatch _ _) = 2"
| "deq_measure (DOr _ _) = 1"
| "deq_measure DSubRet = 1"
| "deq_measure _ = 0"

lemma head_entry:
  assumes "ring_ok r h (x # xs)"
  shows "ring_array r ! (h mod slots r) = live (Suc (order r)) (int (h div slots r)) (int x)"
  using ring_okD(7) [OF assms, of h] by (simp add: entry_ok_def)

lemma take_inv_step:
  assumes "ring_ok (r\<lparr>rtail := tp\<rparr>) h (x # xs)" "take_inv r h x s pc" "ring_deq_returned pc = None"
  shows "case ring_dequeue_step weak s pc of (s', pc') \<Rightarrow>
    take_inv r h x s' pc' \<and> (\<not> weak \<longrightarrow> deq_measure pc' < deq_measure pc)"
proof -
  note d = ring_okD [OF assms(1), simplified]
  have m: "Suc (order r) < 63" using d(1) by simp
  have x: "int x < 2 ^ Suc (order r)" using d(4) [of x] by (intro index_bound) simp
  note lw = live_words [OF m _ x, simplified ring_n_pow [symmetric]]
  show ?thesis
  proof (cases pc)
    case DThresh
    then show ?thesis using assms(2) d(9) top_threshold_nonneg [OF d(1)] by simp
  next
    case DFetch
    then show ?thesis using assms(2) d(5) by (simp add: deq_claimed_def)
  next
    case (DEntry w att)
    then show ?thesis
      using assms(2) lw(1) head_entry [OF assms(1), simplified] position_eval(2) [OF d(1), of h]
      by (simp add: load_position [OF assms(1), simplified] Let_def)
  next
    case (DOr w en)
    then show ?thesis
      using assms(2) lw(2,3) head_entry [OF assms(1), simplified]
      by (simp add: load_position [OF assms(1), simplified] deq_store [OF d(1)] deq_vacated_def Let_def)
  qed (use assms(2,3) in auto)
qed

lemma deq_measure_le: "deq_measure pc \<le> 18"
  by (cases pc) auto

text \<open>The tail is not read, so that it may be past a position that a refused \<open>enqueue\<close> has skipped.\<close>

lemma ring_dequeue_within:
  assumes "ring_ok (r\<lparr>rtail := tp\<rparr>) h (x # xs)"
  shows "solo_within ring_dequeue_step ring_deq_returned 18
    (\<lambda>r' res. res = Some (of_nat x) \<and> ring_ok (r'\<lparr>rtail := tp\<rparr>) (Suc h) xs \<and> rtail r' = rtail r \<and>
      order r' = order r \<and> is_finalized r' = is_finalized r) r DThresh"
proof (rule within_measure [where I = "take_inv r h x" and m = deq_measure])
  fix s pc res
  assume "take_inv r h x s pc" "ring_deq_returned pc = Some res"
  then have res: "res = Some (of_nat x)" "s = deq_vacated r h" by (auto elim!: ring_deq_returned.elims)
  then have "ring_ok (s\<lparr>rtail := tp\<rparr>) (Suc h) xs"
    by (intro ring_pop [OF assms]) (simp add: deq_vacated_def deq_claimed_def)
  then show "res = Some (of_nat x) \<and> ring_ok (s\<lparr>rtail := tp\<rparr>) (Suc h) xs \<and> rtail s = rtail r \<and>
      order s = order r \<and> is_finalized s = is_finalized r"
    using res by (simp add: deq_vacated_def deq_claimed_def)
qed (simp, rule take_inv_step [OF assms], assumption+, rule deq_measure_le)

lemma ring_dequeue_some:
  assumes "ring_ok r h (x # xs)"
  shows "\<exists>r'. ring_dequeue ws r = Some (r', Some (of_nat x)) \<and> ring_ok r' (Suc h) xs \<and>
    order r' = order r \<and> is_finalized r' = is_finalized r"
proof -
  have "ring_ok (r\<lparr>rtail := rtail r\<rparr>) h (x # xs)" using assms by simp
  from within_run [OF ring_dequeue_within [OF this], of ws] obtain r' where
    "ring_dequeue ws r = Some (r', Some (of_nat x))" "ring_ok (r'\<lparr>rtail := rtail r\<rparr>) (Suc h) xs"
    "rtail r' = rtail r" "order r' = order r" "is_finalized r' = is_finalized r"
    by (auto simp: ring_dequeue_def)
  moreover from this have "r'\<lparr>rtail := rtail r\<rparr> = r'" by (metis scq_ring.surjective scq_ring.update_convs(3))
  ultimately show ?thesis by metis
qed

section \<open>Dequeue from an empty ring\<close>

text \<open>The head passes the tail, marks the vacant slot with its own cycle, and the tail catches up.\<close>

definition deq_caught_up :: "scq_ring \<Rightarrow> nat \<Rightarrow> scq_ring" where
  "deq_caught_up r h = (deq_vacated r h)\<lparr>rtail := of_nat h + 1\<rparr>"

fun miss_inv :: "scq_ring \<Rightarrow> nat \<Rightarrow> scq_ring \<Rightarrow> ring_deq_pc \<Rightarrow> bool" where
  "miss_inv r h s DThresh \<longleftrightarrow> s = r"
| "miss_inv r h s DFetch \<longleftrightarrow> s = r \<and> 0 \<le> sint (threshold r)"
| "miss_inv r h s (DEntry w att) \<longleftrightarrow> s = deq_claimed r h \<and> w = of_nat h \<and> 0 \<le> sint (threshold r)"
| "miss_inv r h s (DCas w att en new) \<longleftrightarrow> s = deq_claimed r h \<and> w = of_nat h \<and> 0 \<le> sint (threshold r) \<and>
     en = ring_array r ! (h mod slots r) \<and> new = vacant (Suc (order r)) (int (h div slots r))"
| "miss_inv r h s (DTail w) \<longleftrightarrow> s = deq_vacated r h \<and> w = of_nat h \<and> 0 \<le> sint (threshold r)"
| "miss_inv r h s (DCatch t w) \<longleftrightarrow>
     s = deq_vacated r h \<and> t = rtail r \<and> w = of_nat h + 1 \<and> 0 \<le> sint (threshold r)"
| "miss_inv r h s DCatchHead \<longleftrightarrow> s = deq_vacated r h \<and> 0 \<le> sint (threshold r)"
| "miss_inv r h s (DCatchTail w) \<longleftrightarrow> s = deq_vacated r h \<and> w = of_nat h + 1 \<and> 0 \<le> sint (threshold r)"
| "miss_inv r h s DSubRet \<longleftrightarrow> s = deq_caught_up r h \<and> 0 \<le> sint (threshold r)"
| "miss_inv r h s (DRet res) \<longleftrightarrow> res = None \<and>
     (if sint (threshold r) < 0 then s = r
      else s = (deq_caught_up r h)\<lparr>threshold := threshold r - 1\<rparr>)"
| "miss_inv r h s _ \<longleftrightarrow> False"

lemma vacant_safe:
  assumes "m < 63"
  shows "vacant m c OR 2 ^ m = vacant m c" "NOT (vacant m c) AND 2 ^ m = 0"
proof -
  have "mask (Suc m) OR 2 ^ m = (mask (Suc m) :: int)"
    by (auto simp: bit_eq_iff [where 'a = int] bit_simps)
  then show or: "vacant m c OR 2 ^ m = vacant m c"
    using cw_or [of "2 ^ m" "Suc m" c "mask (Suc m)"] by (simp add: word_of_int_2p)
  then have "NOT (vacant m c) AND (vacant m c OR 2 ^ m) = 0" by simp
  then show "NOT (vacant m c) AND 2 ^ m = 0"
    by (simp add: bit.conj_disj_distrib)
qed

lemma miss_entry:
  assumes "ring_ok (r\<lparr>rtail := of_nat h\<rparr>) h []" "miss_inv r h s (DEntry w att)"
  shows "ring_dequeue_step weak s (DEntry w att) = (s, if att + 1 \<le> 10 then DEntry w (att + 1)
    else DCas w (att + 1) (ring_array r ! (h mod slots r)) (vacant (Suc (order r)) (int (h div slots r))))"
proof -
  note d = ring_okD [OF assms(1), simplified]
  let ?m = "Suc (order r)" and ?c = "int (h div slots r)"
  have m: "?m < 62" using d(1) by simp
  have en: "ring_array r ! (h mod slots r) = vacant ?m (?c - 1)"
    using tail_entry [OF assms(1), simplified] by simp
  have up: "modup (vacant ?m c) (ring_n r) = vacant ?m c" for c
    using m modup_cw by (simp add: ring_n_pow del: power_Suc)
  have safe: "vacant ?m c OR ring_n r = vacant ?m c" "NOT (vacant ?m c) AND ring_n r = 0" for c
    using vacant_safe [of ?m] m by (simp_all add: ring_n_pow del: power_Suc)
  show ?thesis
    using assms(2) en position_eval(2) [OF d(1), of h] cycle_before [OF m] cycle_neq [OF m]
    by (simp add: load_position [OF assms(1), simplified] Let_def up safe stale_entry_def)
qed

lemma miss_inv_step:
  assumes "ring_ok (r\<lparr>rtail := of_nat h\<rparr>) h []" "rtail r = of_nat h \<or> rtail r = of_nat h + 1"
    "miss_inv r h s pc" "ring_deq_returned pc = None"
  shows "case ring_dequeue_step weak s pc of (s', pc') \<Rightarrow>
    miss_inv r h s' pc' \<and> (\<not> weak \<longrightarrow> deq_measure pc' < deq_measure pc)"
proof -
  note d = ring_okD [OF assms(1), simplified]
  have cmp: "lfring_signed_cmp (rtail r) (of_nat h + 1) \<le> 0" "lfring_signed_cmp (of_nat h) (of_nat h + 1) < 0"
    using assms(2) signed_cmp_succ [of "of_nat h"] by (auto simp: lfring_signed_cmp_def)
  have up: "deq_vacated r h = deq_caught_up r h" if "rtail r = of_nat h + 1"
    using that by (simp add: deq_caught_up_def deq_vacated_def deq_claimed_def)
  show ?thesis
  proof (cases pc)
    case (DEntry w att)
    then show ?thesis using assms(3) miss_entry [OF assms(1), of s w att weak] by auto
  next
    case (DCas w att en new)
    then show ?thesis
      using assms(3) by (auto simp: load_position [OF assms(1), simplified] deq_store [OF d(1)] Let_def
          compare_exchange_weak_def deq_vacated_def)
  next
    case DFetch
    then show ?thesis using assms(3) d(5) by (simp add: deq_claimed_def)
  qed (use assms(2-4) cmp up in \<open>auto simp: compare_exchange_weak_def deq_caught_up_def\<close>)
qed

lemma ring_dequeue_miss:
  assumes "ring_ok (r\<lparr>rtail := of_nat h\<rparr>) h []" "rtail r = of_nat h \<or> rtail r = of_nat h + 1"
  shows "solo_within ring_dequeue_step ring_deq_returned 18
    (\<lambda>r' res. res = None \<and> (r' = r \<or> ring_ok r' (Suc h) []) \<and> order r' = order r \<and> is_finalized r' = is_finalized r)
    r DThresh"
proof (rule within_measure [where I = "miss_inv r h" and m = deq_measure])
  fix s pc res
  assume inv: "miss_inv r h s pc" "ring_deq_returned pc = Some res"
  show "res = None \<and> (s = r \<or> ring_ok s (Suc h) []) \<and> order s = order r \<and> is_finalized s = is_finalized r"
  proof (cases "sint (threshold r) < 0")
    case True
    then show ?thesis using inv by (auto elim!: ring_deq_returned.elims)
  next
    case False
    then have s: "res = None" "s = (deq_caught_up r h)\<lparr>threshold := threshold r - 1\<rparr>"
      using inv by (auto elim!: ring_deq_returned.elims)
    then have "ring_ok s (Suc h) []"
      using False by (intro ring_skip [OF assms(1)]) (auto simp: deq_caught_up_def deq_vacated_def deq_claimed_def)
    then show ?thesis using s by (simp add: deq_caught_up_def deq_vacated_def deq_claimed_def)
  qed
qed (simp, rule miss_inv_step [OF assms], assumption+, rule deq_measure_le)

lemma ring_dequeue_none:
  assumes "ring_ok r h []"
  shows "\<exists>r' h'. ring_dequeue ws r = Some (r', None) \<and> ring_ok r' h' [] \<and>
    order r' = order r \<and> is_finalized r' = is_finalized r"
proof -
  have t: "rtail r = of_nat h" using ring_okD(6) [OF assms] by simp
  then have "r\<lparr>rtail := of_nat h\<rparr> = r" by (metis scq_ring.surjective scq_ring.update_convs(3))
  then have "ring_ok (r\<lparr>rtail := of_nat h\<rparr>) h []" "rtail r = of_nat h \<or> rtail r = of_nat h + 1"
    using assms t by metis+
  from within_run [OF ring_dequeue_miss [OF this], of ws] show ?thesis
    using assms unfolding ring_dequeue_def by auto
qed

section \<open>Rings that have skipped a position\<close>

text \<open>An \<open>enqueue\<close> that is refused because the ring is finalised leaves the tail one position too far.\<close>

definition ring_good :: "scq_ring \<Rightarrow> nat \<Rightarrow> nat list \<Rightarrow> bool" where
  "ring_good r h xs \<longleftrightarrow> ring_ok (r\<lparr>rtail := of_nat (h + length xs)\<rparr>) h xs \<and>
     (rtail r = of_nat (h + length xs) \<or> rtail r = of_nat (h + length xs) + 1)"

lemma ring_reset: "rtail r = w \<Longrightarrow> r\<lparr>rtail := w\<rparr> = r"
  by (metis scq_ring.surjective scq_ring.update_convs(3))

lemma ring_ok_good: "ring_ok r h xs \<Longrightarrow> ring_good r h xs"
  using ring_okD(6) [of r h xs] ring_reset [of r "of_nat (h + length xs)"] by (metis ring_good_def)

lemma ring_good_some:
  assumes "ring_good r h (x # xs)"
  shows "\<exists>r'. ring_dequeue ws r = Some (r', Some (of_nat x)) \<and> ring_good r' (Suc h) xs \<and>
    order r' = order r \<and> is_finalized r' = is_finalized r"
proof -
  have "ring_ok (r\<lparr>rtail := of_nat (h + length (x # xs))\<rparr>) h (x # xs)" using assms unfolding ring_good_def by blast
  from within_run [OF ring_dequeue_within [OF this], of ws] show ?thesis
    using assms unfolding ring_dequeue_def ring_good_def by auto
qed

lemma ring_good_none:
  assumes "ring_good r h []"
  shows "\<exists>r' h'. ring_dequeue ws r = Some (r', None) \<and> ring_good r' h' [] \<and>
    order r' = order r \<and> is_finalized r' = is_finalized r"
proof -
  have "ring_ok (r\<lparr>rtail := of_nat h\<rparr>) h []" "rtail r = of_nat h \<or> rtail r = of_nat h + 1"
    using assms by (auto simp: ring_good_def)
  from within_run [OF ring_dequeue_miss [OF this], of ws] show ?thesis
    using assms ring_ok_good unfolding ring_dequeue_def by fastforce
qed

end
