(* ===== verification/Scq_New.thy ===== *)
theory Scq_New
  imports Scq_Seq
begin

text \<open>
  The constructors of the ring: for a power of two they give the empty ring and the ring of all
  indices; \<open>determine_order\<close> accepts other even lengths as well.
\<close>

lemma ilog2_pow: "ilog2 (2 ^ k) = k"
proof (induction k)
  case 0
  then show ?case by (simp add: ilog2.simps)
next
  case (Suc k)
  have "\<not> (2 :: nat) ^ Suc k \<le> 1" using one_less_power [of "2 :: nat" "Suc k"] by simp
  moreover have "(2 :: nat) ^ Suc k div 2 = 2 ^ k" by simp
  ultimately show ?case using Suc by (subst ilog2.simps) simp
qed

lemma order_pow: "determine_order_const (2 ^ Suc k) = Some k" "determine_order (2 ^ k) = Some k"
  using ilog2_pow [of "Suc k"] ilog2_pow [of k]
  by (cases k; simp add: determine_order_const_def determine_order_def checked_ilog2_def)+

lemma fold_fill:
  assumes "a \<le> b" "b \<le> length buf" "\<And>i. a \<le> i \<Longrightarrow> i < b \<Longrightarrow> f i = i"
  shows "fold (\<lambda>i buf. buf[f i := g i]) [a..<b] buf = take a buf @ map g [a..<b] @ drop b buf"
  using assms
proof (induction b)
  case (Suc b)
  show ?case
  proof (cases "a = Suc b")
    case False
    then have ab: "a \<le> b" using Suc.prems(1) by simp
    then have "fold (\<lambda>i buf. buf[f i := g i]) [a..<b] buf = take a buf @ map g [a..<b] @ drop b buf"
      using Suc.prems by (intro Suc.IH) auto
    moreover have "f b = b" using Suc.prems(3) [of b] ab by simp
    moreover have "drop b buf = buf ! b # drop (Suc b) buf" using Suc.prems(2) by (simp add: Cons_nth_drop_Suc)
    ultimately show ?thesis using ab Suc.prems(2) by (simp add: list_update_append)
  qed simp
qed simp

lemma vacant_minus_one: "(- 1 :: usize) = vacant m (- 1)"
  using mask_bounds(1,2) [of "Suc m"] by (simp only: cw_arith) (simp add: mask_eq_exp_minus_1)

lemma full_array:
  assumes "k \<le> 60"
  shows "initialize_atomic_array_full (replicate (2 ^ Suc k) (- 1)) (2 ^ k) (2 ^ Suc k) =
    map (\<lambda>i. live (Suc k) 0 (int i)) [0..<2 ^ k] @ map (\<lambda>i. vacant (Suc k) (- 1)) [2 ^ k..<2 ^ Suc k]"
proof -
  let ?n = "2 ^ Suc k :: nat" and ?f = "\<lambda>i. unat (lfring_map (of_nat i) (of_nat (2 ^ Suc k)))"
  have map_n: "?f i = i" if "i < ?n" for i
    using that assms lfring_map_position [of "Suc k" i] by (simp del: power_Suc)
  have val: "(of_nat ?n + lfring_map (of_nat i) (of_nat (2 ^ k)) :: usize) = live (Suc k) 0 (int i)"
    if "i < 2 ^ k" for i
  proof -
    have "unat (lfring_map (of_nat i) (of_nat (2 ^ k))) = i"
      using that assms lfring_map_position [of k i] by simp
    then have "lfring_map (of_nat i) (of_nat (2 ^ k)) = (of_nat i :: usize)" by (metis of_nat_unat ucast_id)
    moreover have "i < 2 ^ Suc k" using that by simp
    then have "int i < 2 ^ Suc k" by (metis of_nat_less_iff of_nat_numeral of_nat_power)
    ultimately show ?thesis using small_cw [of "2 ^ Suc k + int i" "Suc (Suc k)"] by simp
  qed
  note vac = vacant_minus_one [of "Suc k"]
  let ?buf = "replicate ?n (- 1 :: usize)"
  let ?live = "map (\<lambda>i. of_nat ?n + lfring_map (of_nat i) (of_nat (2 ^ k))) [0..<2 ^ k] :: usize list"
  have "fold (\<lambda>i b. b[?f i := of_nat ?n + lfring_map (of_nat i) (of_nat (2 ^ k))]) [0..<2 ^ k] ?buf =
      take 0 ?buf @ ?live @ drop (2 ^ k) ?buf"
    by (rule fold_fill) (use map_n in auto)
  moreover have "fold (\<lambda>i b. b[?f i := - 1]) [2 ^ k..<?n] (?live @ drop (2 ^ k) ?buf) =
      take (2 ^ k) (?live @ drop (2 ^ k) ?buf) @ map (\<lambda>i. - 1) [2 ^ k..<?n] @ drop ?n (?live @ drop (2 ^ k) ?buf)"
    by (rule fold_fill) (use map_n in auto)
  moreover have "?live = map (\<lambda>i. live (Suc k) 0 (int i)) [0..<2 ^ k]" using val by simp
  ultimately show ?thesis
    by (simp add: initialize_atomic_array_full_def Let_def vac del: power_Suc)
qed

lemma new_rings:
  assumes "k \<le> 60"
  shows "\<exists>r. new_const_ring_empty mode (2 ^ Suc k) = Some r \<and> ring_ok r 0 [] \<and> order r = k \<and>
      is_finalized r = replicate mode False"
    "\<exists>r. new_const_ring_full mode (2 ^ Suc k) = Some r \<and> ring_ok r 0 [0..<2 ^ k] \<and> order r = k \<and>
      is_finalized r = replicate mode False"
proof -
  let ?n = "2 ^ Suc k :: nat"
  have vac: "(- 1 :: usize) = vacant (Suc k) (- 1)" by (rule vacant_minus_one)
  let ?e = "new_from_sqalloc mode k (create_const_atomic_array_empty ?n)"
  have "entry_ok ?e 0 [] p" if "p < ?n" for p
    using that by (simp add: new_from_sqalloc_def create_const_atomic_array_empty_def slots_def entry_ok_def
        vac del: power_Suc)
  then have "ring_ok ?e 0 []"
    using assms
    by (simp add: ring_ok_def del: power_Suc)
      (simp add: new_from_sqalloc_def create_const_atomic_array_empty_def slots_def del: power_Suc)
  then show "\<exists>r. new_const_ring_empty mode (2 ^ Suc k) = Some r \<and> ring_ok r 0 [] \<and> order r = k \<and>
      is_finalized r = replicate mode False"
    by (simp add: new_const_ring_empty_def order_pow new_from_sqalloc_def del: power_Suc)
  let ?f = "new_from_sqalloc mode k (create_const_atomic_array_full ?n)"
  have half: "?n div 2 = 2 ^ k" by simp
  let ?L = "map (\<lambda>i. live (Suc k) 0 (int i)) [0..<2 ^ k] @ map (\<lambda>i. vacant (Suc k) (- 1)) [2 ^ k..<?n]"
  have f: "?f = \<lparr>is_finalized = replicate mode False, rhead = 0, rtail = of_nat (2 ^ k),
      threshold = lfring_threshold3 (of_nat (2 ^ k)) (of_nat ?n), ring_array = ?L, order = k\<rparr>"
    by (simp only: new_from_sqalloc_def create_const_atomic_array_full_def Let_def half full_array [OF assms]
        scq_alloc.simps)
  have len: "length ?L = ?n" by simp
  have nth: "?L ! p = (if p < 2 ^ k then live (Suc k) 0 (int p) else vacant (Suc k) (- 1))" if "p < ?n" for p
    using that by (simp add: nth_append)
  have "entry_ok ?f 0 [0..<2 ^ k] p" if p: "p < ?n" for p
  proof -
    have "p mod ?n = p" "p div ?n = 0" using p by (rule mod_less, rule div_less)
    then show ?thesis using nth [OF p] by (simp add: entry_ok_def f slots_def del: power_Suc)
  qed
  moreover have "top_threshold ?f = lfring_threshold3 (of_nat (2 ^ k)) (of_nat ?n)"
    unfolding f by (simp add: top_threshold_def ring_half_def ring_n_def lfring_pow2_def push_bit_eq_mult mult.commute)
  ultimately have "ring_ok ?f 0 [0..<2 ^ k]"
    using assms len by (simp add: ring_ok_def del: power_Suc) (simp add: f slots_def del: power_Suc)
  then show "\<exists>r. new_const_ring_full mode (2 ^ Suc k) = Some r \<and> ring_ok r 0 [0..<2 ^ k] \<and> order r = k \<and>
      is_finalized r = replicate mode False"
    by (simp add: new_const_ring_full_def order_pow new_from_sqalloc_def del: power_Suc)
qed

end
