(* ===== verification/Scq_Bounded.thy ===== *)
theory Scq_Bounded
  imports Scq_New
begin

text \<open>
  \<open>BoundedQueue\<close> of \<^verbatim>\<open>src/third-party/lfqueue/src/scq.rs\<close>: two rings of indices, one of the free
  slots of a backing array and one of the allocated slots, with the constructors of the constant
  and of the allocated variant (\<^verbatim>\<open>lfstd.rs\<close>). The operations are composed of the rings' solo runs;
  the argument \<open>ws\<close> gives the spurious failures of the ring operations in the order of their calls.
  \<open>None\<close> is a panic, undefined behaviour, or a ring operation that does not return.
\<close>

section \<open>The queue and its operations\<close>

record 'a bounded_queue =
  backing :: "'a option list"
  free_queue :: scq_ring
  alloc_queue :: scq_ring
  used :: usize

datatype queue_error = ErrQueueFull | ErrQueueFinalized

text \<open>\<open>ConstBoundedQueue::new_const\<close>, and the macro \<open>const_queue!\<close> with its assertions.\<close>

definition bounded_new_const :: "nat \<Rightarrow> 'a bounded_queue option" where
  "bounded_new_const N =
     (if N mod 2 \<noteq> 0 \<or> N = 0 then None
      else case (new_const_ring_empty 0 N, new_const_ring_full 0 N) of
             (Some al, Some fr) \<Rightarrow>
               Some \<lparr>backing = replicate N None, free_queue = fr, alloc_queue = al, used = 0\<rparr>
           | _ \<Rightarrow> None)"

definition const_queue :: "nat \<Rightarrow> 'a bounded_queue option" where
  "const_queue sz =
     (if sz \<noteq> 0 \<and> (sz mod 2 = 0 \<or> sz = 1) then bounded_new_const (sz * 2) else None)"

text \<open>The allocated rings, and \<open>AllocBoundedQueue::new\<close>.\<close>

definition allocate_atomic_array_full :: "nat \<Rightarrow> scq_alloc" where
  "allocate_atomic_array_full ord =
     (let half = 2 ^ ord; n = half * 2
      in \<lparr>alloc_array = initialize_atomic_array_full (replicate n (- 1)) half n,
          alloc_tail = of_nat half, alloc_thresh = lfring_threshold3 (of_nat half) (of_nat n)\<rparr>)"

definition allocate_atomic_array_empty :: "nat \<Rightarrow> scq_alloc" where
  "allocate_atomic_array_empty ord =
     \<lparr>alloc_array = replicate (2 ^ (ord + 1)) (- 1), alloc_tail = 0, alloc_thresh = - 1\<rparr>"

definition new_alloc_ring_empty :: "nat \<Rightarrow> nat \<Rightarrow> scq_ring" where
  "new_alloc_ring_empty mode ord = new_from_sqalloc mode ord (allocate_atomic_array_empty ord)"

definition new_alloc_ring_full :: "nat \<Rightarrow> nat \<Rightarrow> scq_ring" where
  "new_alloc_ring_full mode ord = new_from_sqalloc mode ord (allocate_atomic_array_full ord)"

definition alloc_bounded_new :: "nat \<Rightarrow> nat \<Rightarrow> 'a bounded_queue option" where
  "alloc_bounded_new mode sz =
     (case determine_order sz of
        None \<Rightarrow> None
      | Some ord \<Rightarrow> Some \<lparr>backing = replicate (2 * sz) None, free_queue = new_alloc_ring_full mode ord,
                          alloc_queue = new_alloc_ring_empty mode ord, used = 0\<rparr>)"

definition bounded_capacity :: "'a bounded_queue \<Rightarrow> usize" where
  "bounded_capacity q = ring_capacity (free_queue q)"

definition write_slot :: "'a bounded_queue \<Rightarrow> usize \<Rightarrow> 'a \<Rightarrow> 'a bounded_queue option" where
  "write_slot q pos v =
     (if unat pos < length (backing q) then Some (q\<lparr>backing := (backing q)[unat pos := Some v]\<rparr>) else None)"

definition read_slot :: "'a bounded_queue \<Rightarrow> usize \<Rightarrow> 'a option" where
  "read_slot q pos = (if unat pos < length (backing q) then backing q ! unat pos else None)"

text \<open>The part of \<open>enqueue_cycle\<close> after a free index has been taken.\<close>

definition enqueue_at :: "bool \<Rightarrow> (nat \<Rightarrow> bool list) \<Rightarrow> 'a bounded_queue \<Rightarrow> usize \<Rightarrow> usize \<Rightarrow> 'a \<Rightarrow>
    ('a bounded_queue \<times> (unit, 'a \<times> queue_error) rust_result) option" where
  "enqueue_at fin ws q sz pos item =
     (case write_slot q pos item of
        None \<Rightarrow> None
      | Some q1 \<Rightarrow>
          (case ring_enqueue (ws 1) (alloc_queue q1) pos of
             None \<Rightarrow> None
           | Some (al, Err e) \<Rightarrow>
               (let q2 = q1\<lparr>alloc_queue := al, used := used q1 - 1\<rparr>
                in case read_slot q2 pos of
                     None \<Rightarrow> None
                   | Some v \<Rightarrow>
                       (case ring_enqueue (ws 2) (free_queue q2) pos of
                          Some (fr, Ok _) \<Rightarrow> Some (q2\<lparr>free_queue := fr\<rparr>, Err (v, ErrQueueFinalized))
                        | _ \<Rightarrow> None))
           | Some (al, Ok _) \<Rightarrow>
               Some (q1\<lparr>alloc_queue := if fin \<and> sz + 1 \<ge> bounded_capacity q1 then finalize al else al\<rparr>,
                     Ok ())))"

definition enqueue_cycle :: "bool \<Rightarrow> (nat \<Rightarrow> bool list) \<Rightarrow> 'a bounded_queue \<Rightarrow> 'a \<Rightarrow>
    ('a bounded_queue \<times> (unit, 'a \<times> queue_error) rust_result) option" where
  "enqueue_cycle fin ws q item =
     (let sz = used q; q1 = q\<lparr>used := used q + 1\<rparr>
      in if sz \<ge> bounded_capacity q1
         then Some (q1\<lparr>used := used q1 - 1\<rparr>, Err (item, ErrQueueFull))
         else case ring_dequeue (ws 0) (free_queue q1) of
                None \<Rightarrow> None
              | Some (fr, None) \<Rightarrow>
                  Some (q1\<lparr>free_queue := fr, used := used q1 - 1\<rparr>, Err (item, ErrQueueFull))
              | Some (fr, Some pos) \<Rightarrow> enqueue_at fin ws (q1\<lparr>free_queue := fr\<rparr>) sz pos item)"

definition bounded_enqueue :: "(nat \<Rightarrow> bool list) \<Rightarrow> 'a bounded_queue \<Rightarrow> 'a \<Rightarrow>
    ('a bounded_queue \<times> (unit, 'a) rust_result) option" where
  "bounded_enqueue ws q item =
     map_option (\<lambda>(q', r). (q', case r of Ok u \<Rightarrow> Ok u | Err (v, _) \<Rightarrow> Err v)) (enqueue_cycle False ws q item)"

definition bounded_dequeue :: "(nat \<Rightarrow> bool list) \<Rightarrow> 'a bounded_queue \<Rightarrow>
    ('a bounded_queue \<times> 'a option) option" where
  "bounded_dequeue ws q =
     (case ring_dequeue (ws 0) (alloc_queue q) of
        None \<Rightarrow> None
      | Some (al, None) \<Rightarrow> Some (q\<lparr>alloc_queue := al\<rparr>, None)
      | Some (al, Some pos) \<Rightarrow>
          (let q1 = q\<lparr>alloc_queue := al, used := used q - 1\<rparr>
           in case read_slot q1 pos of
                None \<Rightarrow> None
              | Some v \<Rightarrow>
                  (case ring_enqueue (ws 1) (free_queue q1) pos of
                     Some (fr, Ok _) \<Rightarrow> Some (q1\<lparr>free_queue := fr\<rparr>, Some v)
                   | _ \<Rightarrow> None)))"

text \<open>\<open>drop\<close>: the allocated indices are dequeued until the ring is empty, and each payload's
  destructor runs.\<close>

partial_function (option) bounded_drop :: "(nat \<Rightarrow> bool list) \<Rightarrow> 'a bounded_queue \<Rightarrow>
    ('a bounded_queue \<times> 'a list) option" where
  "bounded_drop ws q =
     (case ring_dequeue (ws 0) (alloc_queue q) of
        None \<Rightarrow> None
      | Some (al, None) \<Rightarrow> Some (q\<lparr>alloc_queue := al\<rparr>, [])
      | Some (al, Some pos) \<Rightarrow>
          (case read_slot q pos of
             None \<Rightarrow> None
           | Some v \<Rightarrow>
               Option.bind (bounded_drop (\<lambda>i. ws (Suc i))
                   (q\<lparr>alloc_queue := al, backing := (backing q)[unat pos := None]\<rparr>))
                 (\<lambda>(q', vs). Some (q', v # vs))))"

section \<open>The indices of a ring\<close>

definition ring_indices :: "scq_ring \<Rightarrow> nat list" where
  "ring_indices r =
     map (\<lambda>j. unat (ring_array r ! ((unat (rhead r) + j) mod slots r) AND (ring_n r - 1)))
       [0..<unat (rtail r - rhead r)]"

lemma ring_indices_ok:
  assumes "ring_ok r h xs"
  shows "ring_indices r = xs"
proof (rule nth_equalityI)
  note d = ring_okD [OF assms]
  have "(2 :: nat) ^ Suc (order r) \<le> 2 ^ 61" using d(1) by (intro power_increasing) auto
  then have sl: "slots r < 2 ^ 64" by (simp add: slots_def)
  have "rtail r - rhead r = of_nat (length xs)" using d(5,6) by simp
  moreover have "unat (of_nat (length xs) :: usize) = length xs"
    using d(3) sl by (subst unat_of_nat_64) simp
  ultimately have len: "unat (rtail r - rhead r) = length xs" by simp
  then show "length (ring_indices r) = length xs" by (simp add: ring_indices_def)
  fix j
  assume "j < length (ring_indices r)"
  then have j: "j < length xs" by (simp add: ring_indices_def len)
  have "slots r dvd 2 ^ 64"
    using d(1) unfolding slots_def by (intro le_imp_power_dvd) simp
  then have "(h mod 2 ^ 64 + j) mod slots r = (h + j) mod slots r"
    by (metis mod_add_left_eq mod_mod_cancel)
  then have pos: "(unat (rhead r) + j) mod slots r = (h + j) mod slots r" by (simp add: d(5))
  have en: "ring_array r ! ((h + j) mod slots r) =
      live (Suc (order r)) (int ((h + j) div slots r)) (int (xs ! j))"
    using d(7) [of "h + j"] j d(3) by (simp add: entry_ok_def)
  have x: "xs ! j < 2 ^ order r" using d(4) j by simp
  have "int (xs ! j) < 2 ^ Suc (order r)" by (rule index_bound [OF x])
  then have "live (Suc (order r)) c (int (xs ! j)) AND (ring_n r - 1) = of_nat (xs ! j)" for c
    using live_words(2) [of "Suc (order r)" "int (xs ! j)" c] d(1) by (simp add: ring_n_pow del: power_Suc)
  moreover have "unat (of_nat (xs ! j) :: usize) = xs ! j" by (rule index_unat [OF d(1) x])
  ultimately show "ring_indices r ! j = xs ! j"
    using j len by (simp add: ring_indices_def pos en)
qed

section \<open>The invariant\<close>

text \<open>The two rings hold every index below the capacity exactly once; the slots of the allocated
  indices are initialised, and \<open>used\<close> counts them.\<close>

definition bq_ok :: "'a bounded_queue \<Rightarrow> nat list \<Rightarrow> nat list \<Rightarrow> bool" where
  "bq_ok q as fs \<longleftrightarrow>
     (\<exists>h. ring_ok (alloc_queue q) h as) \<and> (\<exists>h. ring_ok (free_queue q) h fs) \<and>
     order (alloc_queue q) = order (free_queue q) \<and>
     distinct (as @ fs) \<and> set (as @ fs) = {..<2 ^ order (free_queue q)} \<and>
     2 ^ order (free_queue q) \<le> length (backing q) \<and> used q = of_nat (length as) \<and>
     (\<forall>i \<in> set as. backing q ! i \<noteq> None) \<and>
     \<not> finalized (alloc_queue q) \<and> \<not> finalized (free_queue q)"

definition bq_contents :: "'a bounded_queue \<Rightarrow> 'a list" where
  "bq_contents q = map (\<lambda>i. the (backing q ! i)) (ring_indices (alloc_queue q))"

definition bq_wf :: "'a bounded_queue \<Rightarrow> bool" where
  "bq_wf q \<longleftrightarrow> (\<exists>as fs. bq_ok q as fs)"

definition bq_cap :: "'a bounded_queue \<Rightarrow> nat" where
  "bq_cap q = unat (bounded_capacity q)"

lemma bq_okD:
  assumes "bq_ok q as fs"
  obtains ha hf where "ring_ok (alloc_queue q) ha as" "ring_ok (free_queue q) hf fs"
  using assms by (auto simp: bq_ok_def)

lemma bq_ok_facts:
  assumes "bq_ok q as fs"
  shows "order (free_queue q) \<le> 60" "order (alloc_queue q) = order (free_queue q)"
    "length as + length fs = 2 ^ order (free_queue q)" "bq_cap q = 2 ^ order (free_queue q)"
    "length as < slots (alloc_queue q)" "length fs < slots (free_queue q)"
    "unat (used q) = length as" "bq_contents q = map (\<lambda>i. the (backing q ! i)) as"
proof -
  obtain ha hf where r: "ring_ok (alloc_queue q) ha as" "ring_ok (free_queue q) hf fs"
    by (rule bq_okD [OF assms])
  show o: "order (free_queue q) \<le> 60" using ring_okD(1) [OF r(2)] .
  show eq: "order (alloc_queue q) = order (free_queue q)" using assms by (simp add: bq_ok_def)
  have "card (set (as @ fs)) = length (as @ fs)" using assms by (intro distinct_card) (simp add: bq_ok_def)
  then show len: "length as + length fs = 2 ^ order (free_queue q)" using assms by (simp add: bq_ok_def)
  show "bq_cap q = 2 ^ order (free_queue q)" using o by (simp add: bq_cap_def bounded_capacity_def ring_sizes)
  have pos: "(0 :: nat) < 2 ^ order (free_queue q)" by simp
  show "length as < slots (alloc_queue q)" "length fs < slots (free_queue q)"
    using len pos unfolding slots_def eq power_Suc by linarith+
  have "(2 :: nat) ^ order (free_queue q) \<le> 2 ^ 60" using o by (intro power_increasing) auto
  then show "unat (used q) = length as"
    using assms len by (simp add: bq_ok_def)
  show "bq_contents q = map (\<lambda>i. the (backing q ! i)) as"
    by (simp add: bq_contents_def ring_indices_ok [OF r(1)])
qed

lemma bq_room:
  assumes "bq_ok q as fs" "length as < 2 ^ order (free_queue q)"
  shows "\<exists>q' fs'. bounded_enqueue ws q v = Some (q', Ok ()) \<and> bq_ok q' (as @ [hd fs]) fs' \<and>
    order (free_queue q') = order (free_queue q) \<and> bq_contents q' = bq_contents q @ [v]"
proof -
  note f = bq_ok_facts [OF assms(1)]
  obtain ha hf where r: "ring_ok (alloc_queue q) ha as" "ring_ok (free_queue q) hf fs"
    by (rule bq_okD [OF assms(1)])
  obtain i fs' where fs: "fs = i # fs'" using f(3) assms(2) by (cases fs) auto
  have i: "i < 2 ^ order (free_queue q)" "i \<notin> set as" using assms(1) fs by (auto simp: bq_ok_def)
  obtain fr where fr: "ring_dequeue (ws 0) (free_queue q) = Some (fr, Some (of_nat i))"
    "ring_ok fr (Suc hf) fs'" "order fr = order (free_queue q)" "is_finalized fr = is_finalized (free_queue q)"
    using ring_dequeue_some [OF r(2) [unfolded fs], of "ws 0"] by blast
  have nf: "\<not> finalized (alloc_queue q)" "\<not> finalized (free_queue q)" using assms(1) by (auto simp: bq_ok_def)
  obtain al where al: "ring_enqueue (ws 1) (alloc_queue q) (of_nat i) = Some (al, Ok ())"
    "ring_ok al ha (as @ [i])" "order al = order (alloc_queue q)" "is_finalized al = is_finalized (alloc_queue q)"
    using ring_enqueue_ok [OF r(1) f(5) _ nf(1), of i "ws 1"] i(1) f(2) by auto
  have ui: "unat (of_nat i :: usize) = i" by (rule index_unat [OF f(1) i(1)])
  have len: "i < length (backing q)" using assms(1) i(1) by (auto simp: bq_ok_def)
  let ?q = "q\<lparr>used := used q + 1, free_queue := fr, backing := (backing q)[i := Some v], alloc_queue := al\<rparr>"
  have guard: "\<not> bounded_capacity q \<le> used q"
    using f(4,7) assms(2) by (simp add: word_le_nat_alt bq_cap_def)
  have "enqueue_cycle False ws q v = Some (?q, Ok ())"
    using guard fr(1) al(1) len ui
    by (simp add: enqueue_cycle_def enqueue_at_def write_slot_def bounded_capacity_def Let_def)
  then have res: "bounded_enqueue ws q v = Some (?q, Ok ())" by (simp add: bounded_enqueue_def)
  have ok: "bq_ok ?q (as @ [i]) fs'"
    using assms(1) fr(2-4) al(2-4) nf i(2) len
    by (auto simp: bq_ok_def fs finalized_def nth_list_update)
  moreover have "bq_contents ?q = bq_contents q @ [v]"
    using bq_ok_facts(8) [OF ok] f(8) i(2) len by (auto simp: nth_list_update)
  ultimately show ?thesis using res fr(3) fs by (intro exI [of _ ?q] exI [of _ fs']) simp
qed

lemma bq_full:
  assumes "bq_ok q as fs" "length as = 2 ^ order (free_queue q)"
  shows "bounded_enqueue ws q v = Some (q, Err v)"
proof -
  note f = bq_ok_facts [OF assms(1)]
  have "bounded_capacity q \<le> used q" using f(4,7) assms(2) by (simp add: word_le_nat_alt bq_cap_def)
  then show ?thesis by (simp add: bounded_enqueue_def enqueue_cycle_def bounded_capacity_def Let_def)
qed

lemma bq_take:
  assumes "bq_ok q (i # as) fs"
  shows "\<exists>q'. bounded_dequeue ws q = Some (q', Some (the (backing q ! i))) \<and> bq_ok q' as (fs @ [i]) \<and>
    order (free_queue q') = order (free_queue q) \<and> bq_contents q' = tl (bq_contents q)"
proof -
  note f = bq_ok_facts [OF assms]
  obtain ha hf where r: "ring_ok (alloc_queue q) ha (i # as)" "ring_ok (free_queue q) hf fs"
    by (rule bq_okD [OF assms])
  have i: "i < 2 ^ order (free_queue q)" "backing q ! i \<noteq> None" "i < length (backing q)"
    using assms by (auto simp: bq_ok_def)
  have ui: "unat (of_nat i :: usize) = i" by (rule index_unat [OF f(1) i(1)])
  have nf: "\<not> finalized (alloc_queue q)" "\<not> finalized (free_queue q)" using assms by (auto simp: bq_ok_def)
  obtain al where al: "ring_dequeue (ws 0) (alloc_queue q) = Some (al, Some (of_nat i))"
    "ring_ok al (Suc ha) as" "order al = order (alloc_queue q)" "is_finalized al = is_finalized (alloc_queue q)"
    using ring_dequeue_some [OF r(1), of "ws 0"] by blast
  obtain fr where fr: "ring_enqueue (ws 1) (free_queue q) (of_nat i) = Some (fr, Ok ())"
    "ring_ok fr hf (fs @ [i])" "order fr = order (free_queue q)" "is_finalized fr = is_finalized (free_queue q)"
    using ring_enqueue_ok [OF r(2) f(6) i(1) nf(2), of "ws 1"] by auto
  let ?q = "q\<lparr>alloc_queue := al, used := used q - 1, free_queue := fr\<rparr>"
  have res: "bounded_dequeue ws q = Some (?q, Some (the (backing q ! i)))"
    using al(1) fr(1) i(2,3) ui by (auto simp: bounded_dequeue_def read_slot_def Let_def)
  have ok: "bq_ok ?q as (fs @ [i])"
    using assms al(2-4) fr(2-4) nf by (auto simp: bq_ok_def finalized_def)
  moreover have "bq_contents ?q = tl (bq_contents q)"
    using bq_ok_facts(8) [OF ok] f(8) by simp
  ultimately show ?thesis using res fr(3) by (intro exI [of _ ?q]) simp
qed

lemma bq_none:
  assumes "bq_ok q [] fs"
  shows "\<exists>q'. bounded_dequeue ws q = Some (q', None) \<and> bq_ok q' [] fs \<and> free_queue q' = free_queue q"
proof -
  obtain ha where r: "ring_ok (alloc_queue q) ha []" using assms by (auto simp: bq_ok_def)
  obtain al h where al: "ring_dequeue (ws 0) (alloc_queue q) = Some (al, None)" "ring_ok al h []"
    "order al = order (alloc_queue q)" "is_finalized al = is_finalized (alloc_queue q)"
    using ring_dequeue_none [OF r, of "ws 0"] by blast
  then have "bq_ok (q\<lparr>alloc_queue := al\<rparr>) [] fs" using assms by (auto simp: bq_ok_def finalized_def)
  then show ?thesis using al(1) by (simp add: bounded_dequeue_def)
qed

interpretation bq: fifo_queue bq_wf bq_contents bq_cap
    "\<lambda>q v. bounded_enqueue (ws q) q v" "\<lambda>q. bounded_dequeue (ws q) q"
  for ws :: "'a bounded_queue \<Rightarrow> nat \<Rightarrow> bool list"
proof (unfold_locales, goal_cases)
  case (1 q)
  then obtain as fs where "bq_ok q as fs" by (auto simp: bq_wf_def)
  from bq_ok_facts [OF this] show ?case by simp
next
  case (2 q v)
  then obtain as fs where ok: "bq_ok q as fs" by (auto simp: bq_wf_def)
  note f = bq_ok_facts [OF ok]
  obtain q' fs' where q': "bounded_enqueue (ws q) q v = Some (q', Ok ())" "bq_ok q' (as @ [hd fs]) fs'"
    "order (free_queue q') = order (free_queue q)" "bq_contents q' = bq_contents q @ [v]"
    using bq_room [OF ok, of "ws q" v] 2(2) f(4,8) by auto
  with bq_ok_facts(4) [OF q'(2)] f(4) show ?case by (auto simp: bq_wf_def)
next
  case (3 q v)
  then obtain as fs where ok: "bq_ok q as fs" by (auto simp: bq_wf_def)
  from bq_full [OF ok, of "ws q" v] 3 bq_ok_facts(4,8) [OF ok] show ?case by auto
next
  case (4 q x xs)
  then obtain as fs where ok: "bq_ok q as fs" by (auto simp: bq_wf_def)
  note f = bq_ok_facts [OF ok]
  obtain i as' where as: "as = i # as'" using 4(2) f(8) by (cases as) auto
  obtain q' where q': "bounded_dequeue (ws q) q = Some (q', Some (the (backing q ! i)))"
    "bq_ok q' as' (fs @ [i])" "order (free_queue q') = order (free_queue q)" "bq_contents q' = tl (bq_contents q)"
    using bq_take [OF ok [unfolded as], of "ws q"] by auto
  with bq_ok_facts(4) [OF q'(2)] f(4,8) 4(2) as show ?case by (auto simp: bq_wf_def)
next
  case (5 q)
  then obtain as fs where ok: "bq_ok q as fs" by (auto simp: bq_wf_def)
  with 5(2) have as: "as = []" using bq_ok_facts(8) [OF ok] by simp
  obtain q' where q': "bounded_dequeue (ws q) q = Some (q', None)" "bq_ok q' [] fs" "free_queue q' = free_queue q"
    using bq_none [OF ok [unfolded as], of "ws q"] by blast
  with bq_ok_facts(8) [OF q'(2)] show ?case by (auto simp: bq_wf_def bq_cap_def bounded_capacity_def)
qed

section \<open>Construction\<close>

lemma new_bq_ok:
  assumes "ring_ok al 0 []" "ring_ok fr 0 [0..<2 ^ k]" "order al = k" "order fr = k"
    "is_finalized al = replicate mode False" "is_finalized fr = replicate mode False" "2 ^ k \<le> len"
  shows "bq_ok \<lparr>backing = replicate len None, free_queue = fr, alloc_queue = al, used = 0\<rparr> [] [0..<2 ^ k]"
  using assms by (auto simp: bq_ok_def finalized_def)

lemma const_queue_new:
  assumes "k \<le> 60"
  shows "\<exists>q :: 'a bounded_queue. const_queue (2 ^ k) = Some q \<and> bq_wf q \<and> bq_contents q = [] \<and> bq_cap q = 2 ^ k"
proof -
  obtain al fr where r: "new_const_ring_empty 0 (2 ^ Suc k) = Some al" "ring_ok al 0 []" "order al = k"
    "is_finalized al = replicate 0 False" "new_const_ring_full 0 (2 ^ Suc k) = Some fr"
    "ring_ok fr 0 [0..<2 ^ k]" "order fr = k" "is_finalized fr = replicate 0 False"
    using new_rings [OF assms, of 0] by blast
  let ?q = "\<lparr>backing = replicate (2 ^ Suc k) None, free_queue = fr, alloc_queue = al, used = 0\<rparr> :: 'a bounded_queue"
  have ok: "bq_ok ?q [] [0..<2 ^ k]" using r by (intro new_bq_ok) auto
  have "(2 :: nat) ^ k mod 2 = 0 \<or> (2 :: nat) ^ k = 1" by (cases k) auto
  moreover have "(2 :: nat) ^ k * 2 = 2 ^ Suc k" "(2 :: nat) ^ Suc k mod 2 = 0" by simp_all
  ultimately have "const_queue (2 ^ k) = Some ?q"
    using r(1,5) by (simp add: const_queue_def bounded_new_const_def del: power_Suc)
  then show ?thesis using ok bq_ok_facts(4,8) [OF ok] r(7) by (auto simp: bq_wf_def)
qed

lemma ilog2_bounds: "0 < m \<Longrightarrow> 2 ^ ilog2 m \<le> m \<and> m < 2 ^ Suc (ilog2 m)"
proof (induction m rule: ilog2.induct)
  case (1 m)
  show ?case
  proof (cases "m \<le> 1")
    case True
    then show ?thesis using 1(2) by (simp add: ilog2.simps [of m])
  next
    case False
    then have "2 ^ ilog2 (m div 2) \<le> m div 2 \<and> m div 2 < 2 ^ Suc (ilog2 (m div 2))" using 1(1) by simp
    then show ?thesis using False by (auto simp: ilog2.simps [of m])
  qed
qed

lemma alloc_rings:
  "new_const_ring_empty mode (2 ^ Suc k) = Some (new_alloc_ring_empty mode k)"
  "new_const_ring_full mode (2 ^ Suc k) = Some (new_alloc_ring_full mode k)"
proof -
  have h: "(2 :: nat) ^ Suc k div 2 = 2 ^ k" "(2 :: nat) ^ k * 2 = 2 ^ Suc k" by simp_all
  show "new_const_ring_empty mode (2 ^ Suc k) = Some (new_alloc_ring_empty mode k)"
    by (simp add: new_const_ring_empty_def order_pow new_alloc_ring_empty_def allocate_atomic_array_empty_def
        create_const_atomic_array_empty_def del: power_Suc)
  show "new_const_ring_full mode (2 ^ Suc k) = Some (new_alloc_ring_full mode k)"
    by (simp only: new_const_ring_full_def order_pow new_alloc_ring_full_def allocate_atomic_array_full_def
        create_const_atomic_array_full_def Let_def h option.map)
qed

lemma alloc_new_ok:
  assumes "0 < sz" "sz < 2 ^ 61" "sz mod 2 = 0 \<or> sz = 1"
  shows "\<exists>q :: 'a bounded_queue. alloc_bounded_new mode sz = Some q \<and> bq_ok q [] [0..<2 ^ ilog2 sz] \<and>
    order (free_queue q) = ilog2 sz"
proof -
  let ?k = "ilog2 sz"
  note b = ilog2_bounds [OF assms(1)]
  have "(2 :: nat) ^ ?k < 2 ^ 61" using b assms(2) by linarith
  then have "?k < 61" by (rule power_less_imp_less_exp [rotated]) simp
  then have k: "?k \<le> 60" by simp
  let ?al = "new_alloc_ring_empty mode ?k" and ?fr = "new_alloc_ring_full mode ?k"
  have r: "ring_ok ?al 0 []" "order ?al = ?k" "is_finalized ?al = replicate mode False"
    "ring_ok ?fr 0 [0..<2 ^ ?k]" "order ?fr = ?k" "is_finalized ?fr = replicate mode False"
    using new_rings [OF k, of mode] alloc_rings [of mode ?k] by auto
  let ?q = "\<lparr>backing = replicate (2 * sz) None, free_queue = ?fr, alloc_queue = ?al, used = 0\<rparr> :: 'a bounded_queue"
  have ok: "bq_ok ?q [] [0..<2 ^ ?k]" using r b by (intro new_bq_ok) auto
  moreover have "alloc_bounded_new mode sz = Some ?q"
    using assms(1,3) by (simp add: alloc_bounded_new_def determine_order_def checked_ilog2_def)
  ultimately show ?thesis using r(5) by auto
qed

lemma alloc_new:
  assumes "0 < sz" "sz < 2 ^ 61" "sz mod 2 = 0 \<or> sz = 1"
  shows "\<exists>q :: 'a bounded_queue. alloc_bounded_new mode sz = Some q \<and> bq_wf q \<and> bq_contents q = [] \<and>
    bq_cap q = 2 ^ ilog2 sz"
proof -
  obtain q :: "'a bounded_queue" where q: "alloc_bounded_new mode sz = Some q" "bq_ok q [] [0..<2 ^ ilog2 sz]"
    "order (free_queue q) = ilog2 sz"
    using alloc_new_ok [OF assms] by blast
  then show ?thesis using bq_ok_facts(4,8) [OF q(2)] by (auto simp: bq_wf_def)
qed

section \<open>Dropping\<close>

lemma bounded_drop_loop:
  assumes "ring_good (alloc_queue q) h as" "distinct as" "\<forall>i \<in> set as. i < length (backing q) \<and> backing q ! i \<noteq> None"
  shows "\<exists>q'. bounded_drop ws q = Some (q', map (\<lambda>i. the (backing q ! i)) as)"
  using assms
proof (induction as arbitrary: ws q h)
  case Nil
  from ring_good_none [OF Nil(1), of "ws 0"] show ?case
    by (auto simp: bounded_drop.simps [of ws q])
next
  case (Cons i as)
  obtain al where al: "ring_dequeue (ws 0) (alloc_queue q) = Some (al, Some (of_nat i))" "ring_good al (Suc h) as"
    using ring_good_some [OF Cons.prems(1), of "ws 0"] by blast
  have i: "i < length (backing q)" "backing q ! i \<noteq> None" using Cons.prems(3) by auto
  have ui: "unat (of_nat i :: usize) = i"
  proof -
    have "ring_ok ((alloc_queue q)\<lparr>rtail := of_nat (h + length (i # as))\<rparr>) h (i # as)"
      using Cons.prems(1) unfolding ring_good_def by blast
    from index_unat [OF ring_okD(1) [OF this, simplified]] ring_okD(4) [OF this, of i] show ?thesis by simp
  qed
  let ?q = "q\<lparr>alloc_queue := al, backing := (backing q)[i := None]\<rparr>"
  have "\<forall>j \<in> set as. j < length (backing ?q) \<and> backing ?q ! j \<noteq> None"
    using Cons.prems(2,3) by (auto simp: nth_list_update)
  then obtain q' where q': "bounded_drop (\<lambda>j. ws (Suc j)) ?q = Some (q', map (\<lambda>j. the (backing ?q ! j)) as)"
    using Cons.IH [of ?q "Suc h" "\<lambda>j. ws (Suc j)"] al(2) Cons.prems(2) by auto
  have "map (\<lambda>j. the (backing ?q ! j)) as = map (\<lambda>j. the (backing q ! j)) as"
    using Cons.prems(2) by (auto intro!: arg_cong [where f = the] nth_list_update_neq)
  with q' al(1) i ui show ?case by (auto simp: bounded_drop.simps [of ws q] read_slot_def)
qed

section \<open>Properties\<close>

text \<open>C18: Used by one thread, the bounded queue of \<open>lfqueue\<close> made of two rings is a first-in first-out
  queue: for a power of two, any sequence of operations on a new \<open>const_queue!\<close> returns, with the
  results of the reference queue of that capacity, however often the rings' counters and cycle
  numbers wrap around and whatever weak exchanges fail spuriously.\<close>

theorem const_queue_fifo:
  assumes "k \<le> 60" "const_queue (2 ^ k) = Some q"
  shows "\<exists>q' rs. run_ops (fifo_op (\<lambda>q v. bounded_enqueue (ws q) q v) (\<lambda>q. bounded_dequeue (ws q) q)) q ps =
      Some (q', rs) \<and> fifo_ref_run (2 ^ k) [] ps = (bq_contents q', rs)"
proof -
  have "bq_wf q" "bq_contents q = []" "bq_cap q = 2 ^ k"
    using const_queue_new [OF assms(1), where 'a = 'a] assms(2) by auto
  then show ?thesis using bq.run_refines [of q ws ps] by auto
qed

theorem const_queue_fifo_witness:
  "\<exists>q q' rs. const_queue (2 ^ 1) = Some q \<and>
     run_ops (fifo_op (\<lambda>q v. bounded_enqueue (\<lambda>_. [True]) q v) (\<lambda>q. bounded_dequeue (\<lambda>_. [True]) q)) q
       [Enq (1 :: nat), Deq, Deq] = Some (q', rs) \<and>
     fifo_ref_run (2 ^ 1) [] [Enq (1 :: nat), Deq, Deq] = (bq_contents q', rs)"
proof -
  obtain q :: "nat bounded_queue" where q: "const_queue (2 ^ 1) = Some q"
    using const_queue_new [of 1, where 'a = nat] by auto
  from const_queue_fifo [OF _ q, of "\<lambda>_ _. [True]" "[Enq 1, Deq, Deq]"] q show ?thesis by auto
qed

text \<open>\<open>AllocBoundedQueue::new\<close> accepts every even size, and one; the queue is empty and well-formed,
  and its capacity is the greatest power of two that is at most the size.\<close>

theorem alloc_bounded_new_correct:
  assumes "0 < sz" "sz < 2 ^ 61" "sz mod 2 = 0 \<or> sz = 1"
  shows "\<exists>q k. (alloc_bounded_new mode sz :: 'a bounded_queue option) = Some q \<and> bq_wf q \<and> bq_contents q = [] \<and>
    bq_cap q = 2 ^ k \<and> 2 ^ k \<le> sz \<and> sz < 2 ^ Suc k"
  using alloc_new [OF assms, of mode, where 'a = 'a] ilog2_bounds [OF assms(1)] by blast

theorem alloc_bounded_new_correct_witness:
  "\<exists>q k. (alloc_bounded_new 0 6 :: nat bounded_queue option) = Some q \<and> bq_wf q \<and> bq_contents q = [] \<and>
    bq_cap q = 2 ^ k \<and> 2 ^ k \<le> (6 :: nat) \<and> (6 :: nat) < 2 ^ Suc k"
  by (rule alloc_bounded_new_correct) simp_all

text \<open>In the two rings of a well-formed bounded queue every index below the capacity is in exactly
  one ring and once, so that two elements never share a slot; enqueue and dequeue keep this.\<close>

theorem bounded_slots_partitioned:
  assumes "bq_wf q"
  shows "distinct (ring_indices (alloc_queue q) @ ring_indices (free_queue q)) \<and>
    set (ring_indices (alloc_queue q) @ ring_indices (free_queue q)) = {..<bq_cap q} \<and>
    (\<forall>q' r. bounded_enqueue ws q v = Some (q', r) \<longrightarrow> bq_wf q' \<and> bq_cap q' = bq_cap q) \<and>
    (\<forall>q' r. bounded_dequeue ws q = Some (q', r) \<longrightarrow> bq_wf q' \<and> bq_cap q' = bq_cap q)"
proof -
  obtain as fs where ok: "bq_ok q as fs" using assms by (auto simp: bq_wf_def)
  obtain ha hf where "ring_ok (alloc_queue q) ha as" "ring_ok (free_queue q) hf fs" by (rule bq_okD [OF ok])
  then have "ring_indices (alloc_queue q) = as" "ring_indices (free_queue q) = fs"
    by (auto intro: ring_indices_ok)
  moreover have "distinct (as @ fs)" "set (as @ fs) = {..<bq_cap q}"
    using ok bq_ok_facts(4) [OF ok] by (auto simp: bq_ok_def)
  moreover have "\<exists>q' r. bounded_enqueue ws q v = Some (q', r) \<and> bq_wf q' \<and> bq_cap q' = bq_cap q"
    "\<exists>q' r. bounded_dequeue ws q = Some (q', r) \<and> bq_wf q' \<and> bq_cap q' = bq_cap q"
    using bq.op_refines [OF assms, of "\<lambda>_. ws" "Enq v"] bq.op_refines [OF assms, of "\<lambda>_. ws" Deq] by auto
  ultimately show ?thesis by auto
qed

theorem bounded_slots_partitioned_witness:
  "\<exists>q :: nat bounded_queue. const_queue (2 ^ 1) = Some q \<and>
     distinct (ring_indices (alloc_queue q) @ ring_indices (free_queue q))"
proof -
  obtain q :: "nat bounded_queue" where q: "const_queue (2 ^ 1) = Some q" "bq_wf q"
    using const_queue_new [of 1, where 'a = nat] by auto
  with bounded_slots_partitioned [OF q(2)] show ?thesis by blast
qed

text \<open>\<open>drop\<close> terminates and runs the destructor of exactly the stored elements, oldest first.\<close>

theorem bounded_drop_exact:
  assumes "bq_wf q"
  shows "\<exists>q'. bounded_drop ws q = Some (q', bq_contents q)"
proof -
  obtain as fs where ok: "bq_ok q as fs" using assms by (auto simp: bq_wf_def)
  obtain ha hf where r: "ring_ok (alloc_queue q) ha as" "ring_ok (free_queue q) hf fs" by (rule bq_okD [OF ok])
  have "set as \<subseteq> {..<2 ^ order (free_queue q)}" using ok by (auto simp: bq_ok_def)
  then have "distinct as" "\<forall>i \<in> set as. i < length (backing q) \<and> backing q ! i \<noteq> None"
    using ok by (auto simp: bq_ok_def)
  from bounded_drop_loop [OF ring_ok_good [OF r(1)] this] show ?thesis by (simp add: bq_ok_facts(8) [OF ok])
qed

theorem bounded_drop_exact_witness:
  "\<exists>q q' q'' :: nat bounded_queue. const_queue (2 ^ 1) = Some q \<and>
     bounded_enqueue (\<lambda>_. []) q 7 = Some (q', Ok ()) \<and> bounded_drop (\<lambda>_. []) q' = Some (q'', [7])"
proof -
  obtain q :: "nat bounded_queue" where q: "const_queue (2 ^ 1) = Some q" "bq_wf q" "bq_contents q = []" "bq_cap q = 2"
    using const_queue_new [of 1, where 'a = nat] by auto
  obtain q' where q': "bounded_enqueue (\<lambda>_. []) q 7 = Some (q', Ok ())" "bq_wf q'" "bq_contents q' = [7]"
    using bq.enq_room [OF q(2), of "\<lambda>_ _. []" 7] q(3,4) by auto
  from bounded_drop_exact [OF q'(2), of "\<lambda>_. []"] q(1) q'(1,3) show ?thesis by auto
qed

text \<open>C33: Sizes that are even and no power of two. \<open>const_queue!(T; 6)\<close> passes every assertion and
  \<open>new_const\<close> does not panic, but the queue is unusable: it reports a capacity of four, and the
  first \<open>enqueue\<close> on the new queue is refused as if the queue were full.\<close>

theorem const_queue_six_unusable:
  "\<exists>q q'. const_queue 6 = Some q \<and> bounded_capacity q = 4 \<and>
     bounded_enqueue (\<lambda>_. replicate 100 False) q (7 :: nat) = Some (q', Err 7)"
proof -
  have "map_option bounded_capacity (const_queue 6 :: nat bounded_queue option) = Some 4" by code_simp
  moreover have "map_option (\<lambda>q. map_option snd (bounded_enqueue (\<lambda>_. replicate 100 False) q (7 :: nat)))
      (const_queue 6) = Some (Some (Err 7))" by code_simp
  ultimately show ?thesis by auto
qed

end
