(* ===== verification/Scq_Machine.thy ===== *)
theory Scq_Machine
  imports Scq_Bounded
begin

text \<open>
  \<open>enqueue_cycle\<close> and \<open>dequeue\<close> of \<open>BoundedQueue\<close> as machines with one memory access per step: the machines
  of the rings run inside them. The runs composed in \<open>Scq_Bounded\<close> are their solo runs. A segment is
  a bounded queue whose ring of allocated indices may be finalised, as the unbounded queue leaves it.
\<close>

section \<open>The machines\<close>

datatype 'a cycle_pc =
    CUsed 'a                       \<comment> \<open>before \<open>used.fetch_add\<close>\<close>
  | CFull 'a                       \<comment> \<open>before \<open>used.fetch_sub\<close>, refused as full\<close>
  | CFree usize 'a ring_deq_pc     \<comment> \<open>in \<open>free_queue.dequeue\<close>, with the size read\<close>
  | CWrite usize 'a usize          \<comment> \<open>before the write of the slot\<close>
  | CAlloc usize usize ring_enq_pc \<comment> \<open>in \<open>alloc_queue.enqueue\<close>\<close>
  | CFinal                         \<comment> \<open>before \<open>finalize\<close>\<close>
  | CUnuse usize                   \<comment> \<open>before \<open>used.fetch_sub\<close>, refused as finalised\<close>
  | CTake usize                    \<comment> \<open>before the read of the slot\<close>
  | CGive 'a ring_enq_pc           \<comment> \<open>in \<open>free_queue.enqueue\<close>\<close>
  | CRet "(unit, 'a \<times> queue_error) rust_result"
  | CPanic

fun free_next :: "usize \<Rightarrow> 'a \<Rightarrow> ring_deq_pc \<Rightarrow> 'a cycle_pc" where
  "free_next sz v (DRet None) = CFull v"
| "free_next sz v (DRet (Some pos)) = CWrite sz v pos"
| "free_next sz v DPanic = CPanic"
| "free_next sz v pc = CFree sz v pc"

fun alloc_next :: "bool \<Rightarrow> usize \<Rightarrow> usize \<Rightarrow> usize \<Rightarrow> ring_enq_pc \<Rightarrow> 'a cycle_pc" where
  "alloc_next fin cap sz pos (ERet (Ok u)) = (if fin \<and> sz + 1 \<ge> cap then CFinal else CRet (Ok ()))"
| "alloc_next fin cap sz pos (ERet (Err e)) = CUnuse pos"
| "alloc_next fin cap sz pos EPanic = CPanic"
| "alloc_next fin cap sz pos pc = CAlloc sz pos pc"

fun give_next :: "'a \<Rightarrow> ring_enq_pc \<Rightarrow> 'a cycle_pc" where
  "give_next v (ERet (Ok u)) = CRet (Err (v, ErrQueueFinalized))"
| "give_next v (ERet (Err e)) = CPanic"
| "give_next v EPanic = CPanic"
| "give_next v pc = CGive v pc"

fun cycle_step :: "bool \<Rightarrow> bool \<Rightarrow> 'a bounded_queue \<Rightarrow> 'a cycle_pc \<Rightarrow> 'a bounded_queue \<times> 'a cycle_pc" where
  "cycle_step fin weak q (CUsed v) =
     (q\<lparr>used := used q + 1\<rparr>, if used q \<ge> bounded_capacity q then CFull v else CFree (used q) v DThresh)"
| "cycle_step fin weak q (CFull v) = (q\<lparr>used := used q - 1\<rparr>, CRet (Err (v, ErrQueueFull)))"
| "cycle_step fin weak q (CFree sz v pc) =
     (case ring_dequeue_step weak (free_queue q) pc of (fr, pc') \<Rightarrow> (q\<lparr>free_queue := fr\<rparr>, free_next sz v pc'))"
| "cycle_step fin weak q (CWrite sz v pos) =
     (case write_slot q pos v of
        None \<Rightarrow> (q, CPanic)
      | Some q1 \<Rightarrow> (q1, alloc_next fin (bounded_capacity q1) sz pos (ring_enqueue_start (alloc_queue q1) pos)))"
| "cycle_step fin weak q (CAlloc sz pos pc) =
     (case ring_enqueue_step weak (alloc_queue q) pc of
        (al, pc') \<Rightarrow> (q\<lparr>alloc_queue := al\<rparr>, alloc_next fin (bounded_capacity q) sz pos pc'))"
| "cycle_step fin weak q CFinal = (q\<lparr>alloc_queue := finalize (alloc_queue q)\<rparr>, CRet (Ok ()))"
| "cycle_step fin weak q (CUnuse pos) = (q\<lparr>used := used q - 1\<rparr>, CTake pos)"
| "cycle_step fin weak q (CTake pos) =
     (q, case read_slot q pos of None \<Rightarrow> CPanic | Some v \<Rightarrow> give_next v (ring_enqueue_start (free_queue q) pos))"
| "cycle_step fin weak q (CGive v pc) =
     (case ring_enqueue_step weak (free_queue q) pc of (fr, pc') \<Rightarrow> (q\<lparr>free_queue := fr\<rparr>, give_next v pc'))"
| "cycle_step fin weak q pc = (q, pc)"

fun cycle_returned :: "'a cycle_pc \<Rightarrow> (unit, 'a \<times> queue_error) rust_result option" where
  "cycle_returned (CRet r) = Some r"
| "cycle_returned _ = None"

datatype 'a take_pc =
    TAlloc ring_deq_pc             \<comment> \<open>in \<open>alloc_queue.dequeue\<close>\<close>
  | TUnuse usize                   \<comment> \<open>before \<open>used.fetch_sub\<close>\<close>
  | TRead usize                    \<comment> \<open>before the read of the slot\<close>
  | TGive 'a ring_enq_pc           \<comment> \<open>in \<open>free_queue.enqueue\<close>\<close>
  | TRet "'a option"
  | TPanic

fun taken_next :: "ring_deq_pc \<Rightarrow> 'a take_pc" where
  "taken_next (DRet None) = TRet None"
| "taken_next (DRet (Some pos)) = TUnuse pos"
| "taken_next DPanic = TPanic"
| "taken_next pc = TAlloc pc"

fun given_next :: "'a \<Rightarrow> ring_enq_pc \<Rightarrow> 'a take_pc" where
  "given_next v (ERet (Ok u)) = TRet (Some v)"
| "given_next v (ERet (Err e)) = TPanic"
| "given_next v EPanic = TPanic"
| "given_next v pc = TGive v pc"

fun take_step :: "bool \<Rightarrow> 'a bounded_queue \<Rightarrow> 'a take_pc \<Rightarrow> 'a bounded_queue \<times> 'a take_pc" where
  "take_step weak q (TAlloc pc) =
     (case ring_dequeue_step weak (alloc_queue q) pc of (al, pc') \<Rightarrow> (q\<lparr>alloc_queue := al\<rparr>, taken_next pc'))"
| "take_step weak q (TUnuse pos) = (q\<lparr>used := used q - 1\<rparr>, TRead pos)"
| "take_step weak q (TRead pos) =
     (q, case read_slot q pos of None \<Rightarrow> TPanic | Some v \<Rightarrow> given_next v (ring_enqueue_start (free_queue q) pos))"
| "take_step weak q (TGive v pc) =
     (case ring_enqueue_step weak (free_queue q) pc of (fr, pc') \<Rightarrow> (q\<lparr>free_queue := fr\<rparr>, given_next v pc'))"
| "take_step weak q pc = (q, pc)"

fun take_returned :: "'a take_pc \<Rightarrow> 'a option option" where
  "take_returned (TRet r) = Some r"
| "take_returned _ = None"

text \<open>The machine of \<open>BoundedQueue::dequeue\<close> starts in the ring of allocated indices.\<close>

abbreviation take_start :: "'a take_pc" where
  "take_start \<equiv> TAlloc DThresh"

section \<open>Rings inside the machines\<close>

lemma running_next [simp]:
  "ring_deq_returned pc = None \<Longrightarrow> cycle_returned (free_next sz v pc) = None"
  "ring_enq_returned epc = None \<Longrightarrow> cycle_returned (alloc_next fin cap sz pos epc) = None"
  "ring_enq_returned epc = None \<Longrightarrow> cycle_returned (give_next v epc) = None"
  "ring_deq_returned pc = None \<Longrightarrow> take_returned (taken_next pc) = None"
  "ring_enq_returned epc = None \<Longrightarrow> take_returned (given_next v epc) = None"
  by (cases pc; cases epc; simp)+

lemma ring_panics [simp]: "ring_dequeue_step w r DPanic = (r, DPanic)" "ring_enqueue_step w r EPanic = (r, EPanic)"
  by simp_all

lemma free_step:
  "ring_deq_returned pc = None \<Longrightarrow> cycle_step fin w (q\<lparr>free_queue := s\<rparr>) (free_next sz v pc) =
    (case ring_dequeue_step w s pc of (s', pc') \<Rightarrow> (q\<lparr>free_queue := s'\<rparr>, free_next sz v pc'))"
  by (cases pc) (auto split: prod.splits)

lemma alloc_step:
  "ring_enq_returned pc = None \<Longrightarrow> cap = bounded_capacity q \<Longrightarrow> cycle_step fin w (q\<lparr>alloc_queue := s\<rparr>) (alloc_next fin cap sz pos pc) =
    (case ring_enqueue_step w s pc of (s', pc') \<Rightarrow> (q\<lparr>alloc_queue := s'\<rparr>, alloc_next fin cap sz pos pc'))"
  by (cases pc) (auto simp: bounded_capacity_def split: prod.splits)

lemma give_step:
  "ring_enq_returned pc = None \<Longrightarrow> cycle_step fin w (q\<lparr>free_queue := s\<rparr>) (give_next v pc) =
    (case ring_enqueue_step w s pc of (s', pc') \<Rightarrow> (q\<lparr>free_queue := s'\<rparr>, give_next v pc'))"
  by (cases pc) (auto split: prod.splits)

lemma taken_step:
  "ring_deq_returned pc = None \<Longrightarrow> take_step w (q\<lparr>alloc_queue := s\<rparr>) (taken_next pc) =
    (case ring_dequeue_step w s pc of (s', pc') \<Rightarrow> (q\<lparr>alloc_queue := s'\<rparr>, taken_next pc'))"
  by (cases pc) (auto split: prod.splits)

lemma given_step:
  "ring_enq_returned pc = None \<Longrightarrow> take_step w (q\<lparr>free_queue := s\<rparr>) (given_next v pc) =
    (case ring_enqueue_step w s pc of (s', pc') \<Rightarrow> (q\<lparr>free_queue := s'\<rparr>, given_next v pc'))"
  by (cases pc) (auto split: prod.splits)

lemma free_within:
  assumes "solo_within ring_dequeue_step ring_deq_returned n P (free_queue q) pc"
    "\<And>fr r. P fr r \<Longrightarrow> solo_within (cycle_step fin) cycle_returned m Q (q\<lparr>free_queue := fr\<rparr>) (free_next sz v (DRet r))"
  shows "solo_within (cycle_step fin) cycle_returned (n + m) Q q (free_next sz v pc)"
proof -
  have "solo_within (cycle_step fin) cycle_returned (n + m) Q (q\<lparr>free_queue := free_queue q\<rparr>) (free_next sz v pc)"
    by (rule within_embed [OF assms(1)]) (use free_step in \<open>auto elim!: ring_deq_returned.elims intro: assms(2)\<close>)
  then show ?thesis by simp
qed

lemma alloc_within:
  assumes "solo_within ring_enqueue_step ring_enq_returned n P (alloc_queue q) pc" "cap = bounded_capacity q"
    "\<And>al r. P al r \<Longrightarrow>
      solo_within (cycle_step fin) cycle_returned m Q (q\<lparr>alloc_queue := al\<rparr>) (alloc_next fin cap sz pos (ERet r))"
  shows "solo_within (cycle_step fin) cycle_returned (n + m) Q q (alloc_next fin cap sz pos pc)"
proof -
  have "solo_within (cycle_step fin) cycle_returned (n + m) Q (q\<lparr>alloc_queue := alloc_queue q\<rparr>)
      (alloc_next fin cap sz pos pc)"
    by (rule within_embed [OF assms(1)]) (use alloc_step [OF _ assms(2)] in \<open>auto elim!: ring_enq_returned.elims intro: assms(3)\<close>)
  then show ?thesis by simp
qed

lemma give_within:
  assumes "solo_within ring_enqueue_step ring_enq_returned n P (free_queue q) pc"
    "\<And>fr r. P fr r \<Longrightarrow> solo_within (cycle_step fin) cycle_returned m Q (q\<lparr>free_queue := fr\<rparr>) (give_next v (ERet r))"
  shows "solo_within (cycle_step fin) cycle_returned (n + m) Q q (give_next v pc)"
proof -
  have "solo_within (cycle_step fin) cycle_returned (n + m) Q (q\<lparr>free_queue := free_queue q\<rparr>) (give_next v pc)"
    by (rule within_embed [OF assms(1)]) (use give_step in \<open>auto elim!: ring_enq_returned.elims intro: assms(2)\<close>)
  then show ?thesis by simp
qed

lemma taken_within:
  assumes "solo_within ring_dequeue_step ring_deq_returned n P (alloc_queue q) pc"
    "\<And>al r. P al r \<Longrightarrow> solo_within take_step take_returned m Q (q\<lparr>alloc_queue := al\<rparr>) (taken_next (DRet r))"
  shows "solo_within take_step take_returned (n + m) Q q (taken_next pc)"
proof -
  have "solo_within take_step take_returned (n + m) Q (q\<lparr>alloc_queue := alloc_queue q\<rparr>) (taken_next pc)"
    by (rule within_embed [OF assms(1)]) (use taken_step in \<open>auto elim!: ring_deq_returned.elims intro: assms(2)\<close>)
  then show ?thesis by simp
qed

lemma given_within:
  assumes "solo_within ring_enqueue_step ring_enq_returned n P (free_queue q) pc"
    "\<And>fr r. P fr r \<Longrightarrow> solo_within take_step take_returned m Q (q\<lparr>free_queue := fr\<rparr>) (given_next v (ERet r))"
  shows "solo_within take_step take_returned (n + m) Q q (given_next v pc)"
proof -
  have "solo_within take_step take_returned (n + m) Q (q\<lparr>free_queue := free_queue q\<rparr>) (given_next v pc)"
    by (rule within_embed [OF assms(1)]) (use given_step in \<open>auto elim!: ring_enq_returned.elims intro: assms(2)\<close>)
  then show ?thesis by simp
qed

end
