(* ===== verification/Scq_Runs.thy ===== *)
theory Scq_Runs
  imports Scq_Machine
begin

text \<open>
  The machines of \<open>Scq_Machine\<close> against the runs of \<open>Scq_Bounded\<close>, for every state: the results a call
  can have are the same, whatever the spurious failures. A call of the machine runs the rings inside it
  step by step, a run composes the calls of the rings, so the equivalence is the one between a program
  and the same program with its calls inlined.
\<close>

section \<open>The results of a solo run\<close>

inductive solo_result :: "(bool \<Rightarrow> 's \<Rightarrow> 'p \<Rightarrow> 's \<times> 'p) \<Rightarrow> ('p \<Rightarrow> 'r option) \<Rightarrow> 's \<Rightarrow> 'p \<Rightarrow> 's \<times> 'r \<Rightarrow> bool"
  for f ret where
  returned: "ret pc = Some r \<Longrightarrow> solo_result f ret s pc (s, r)"
| stepped: "ret pc = None \<Longrightarrow> f w s pc = (s', pc') \<Longrightarrow> solo_result f ret s' pc' x \<Longrightarrow> solo_result f ret s pc x"

inductive_cases solo_resultE: "solo_result f ret s pc x"

lemma run_more: "run_solo f ret us s pc = Some x \<Longrightarrow> run_solo f ret (us @ vs) s pc = Some x"
proof (induction us arbitrary: s pc)
  case Nil
  then show ?case by (cases vs) (auto split: option.splits)
qed (auto split: option.splits prod.splits)

lemma solo_result_run: "solo_result f ret s pc x \<longleftrightarrow> (\<exists>ws. run_solo f ret ws s pc = Some x)"
proof
  show "solo_result f ret s pc x \<Longrightarrow> \<exists>ws. run_solo f ret ws s pc = Some x"
  proof (induction rule: solo_result.induct)
    case (returned pc r s)
    then show ?case by (intro exI [of _ "[]"]) simp
  next
    case (stepped pc w s s' pc' x)
    then obtain ws where "run_solo f ret ws s' pc' = Some x" by blast
    with stepped(1,2) show ?case by (intro exI [of _ "w # ws"]) simp
  qed
  have "run_solo f ret ws s pc = Some x \<Longrightarrow> solo_result f ret s pc x" for ws
    by (induction ws arbitrary: s pc) (auto split: option.splits prod.splits intro: solo_result.intros)
  then show "\<exists>ws. run_solo f ret ws s pc = Some x \<Longrightarrow> solo_result f ret s pc x" by blast
qed

lemma result_returned: "ret pc = Some r \<Longrightarrow> solo_result f ret s pc x \<longleftrightarrow> x = (s, r)"
  by (auto elim: solo_resultE intro: solo_result.returned)

lemma result_one:
  assumes "ret pc = None" "\<And>w. f w s pc = (s', pc')"
  shows "solo_result f ret s pc x \<longleftrightarrow> solo_result f ret s' pc' x"
  using assms by (auto elim: solo_resultE intro: solo_result.stepped)

lemma result_stuck:
  assumes "ret pc = None" "\<And>w. f w s pc = (s, pc)"
  shows "\<not> solo_result f ret s pc x"
proof -
  have "run_solo f ret ws s pc = None" for ws using assms by (induction ws) auto
  then show ?thesis by (simp add: solo_result_run)
qed

text \<open>A machine that runs another inside it, until that one returns at \<open>D r\<close>.\<close>

lemma result_inside:
  assumes step: "\<And>w s pc. ret pc = None \<Longrightarrow> F w (S s) (E pc) = (case f w s pc of (s', pc') \<Rightarrow> (S s', E pc'))"
    and running: "\<And>pc. ret pc = None \<Longrightarrow> Ret (E pc) = None"
    and ends: "\<And>pc r. ret pc = Some r \<longleftrightarrow> pc = D r"
  shows "solo_result F Ret (S s) (E pc) x \<longleftrightarrow>
    (\<exists>s' r. solo_result f ret s pc (s', r) \<and> solo_result F Ret (S s') (E (D r)) x)"
proof
  have "\<exists>s' r. solo_result f ret s pc (s', r) \<and> solo_result F Ret (S s') (E (D r)) x"
    if "run_solo F Ret ws (S s) (E pc) = Some x" for ws
    using that
  proof (induction ws arbitrary: s pc)
    case Nil
    then obtain r where "ret pc = Some r" using running by (cases "ret pc") auto
    with Nil show ?case using ends solo_result.returned [of ret pc] solo_result_run by metis
  next
    case (Cons w ws)
    show ?case
    proof (cases "ret pc")
      case None
      obtain s' pc' where f: "f w s pc = (s', pc')" by fastforce
      then have "run_solo F Ret ws (S s') (E pc') = Some x" using Cons.prems step [OF None] running [OF None] by simp
      from Cons.IH [OF this] show ?thesis using solo_result.stepped [of ret, OF None, of f, OF f] by blast
    next
      case (Some r)
      then show ?thesis using Cons.prems ends solo_result.returned [of ret pc] solo_result_run by metis
    qed
  qed
  then show "solo_result F Ret (S s) (E pc) x \<Longrightarrow>
      \<exists>s' r. solo_result f ret s pc (s', r) \<and> solo_result F Ret (S s') (E (D r)) x"
    by (auto simp: solo_result_run [of F])
next
  have "solo_result f ret s pc y \<Longrightarrow> solo_result F Ret (S (fst y)) (E (D (snd y))) x \<Longrightarrow>
      solo_result F Ret (S s) (E pc) x" for y
  proof (induction rule: solo_result.induct)
    case (returned pc r s)
    with ends show ?case by simp
  next
    case (stepped pc w s s' pc' y)
    then show ?case using solo_result.stepped [of Ret "E pc" F w "S s"] running step by simp
  qed
  then show "\<exists>s' r. solo_result f ret s pc (s', r) \<and> solo_result F Ret (S s') (E (D r)) x \<Longrightarrow>
      solo_result F Ret (S s) (E pc) x" by fastforce
qed

section \<open>The calls of the rings\<close>

lemma ring_returned:
  "ring_deq_returned pc = Some r \<longleftrightarrow> pc = DRet r"
  "ring_enq_returned epc = Some e \<longleftrightarrow> epc = ERet e"
  by (cases pc; simp) (cases epc; simp)

abbreviation cycle_result :: "bool \<Rightarrow> 'a bounded_queue \<Rightarrow> 'a cycle_pc \<Rightarrow>
    'a bounded_queue \<times> (unit, 'a \<times> queue_error) rust_result \<Rightarrow> bool" where
  "cycle_result fin \<equiv> solo_result (cycle_step fin) cycle_returned"

abbreviation take_result :: "'a bounded_queue \<Rightarrow> 'a take_pc \<Rightarrow> 'a bounded_queue \<times> 'a option \<Rightarrow> bool" where
  "take_result \<equiv> solo_result take_step take_returned"

lemma result_ring:
  "solo_result ring_dequeue_step ring_deq_returned r DThresh y \<longleftrightarrow> (\<exists>ws. ring_dequeue ws r = Some y)"
  "solo_result ring_enqueue_step ring_enq_returned r (ring_enqueue_start r pos) z \<longleftrightarrow>
    (\<exists>ws. ring_enqueue ws r pos = Some z)"
  unfolding solo_result_run ring_dequeue_def ring_enqueue_def by (blast intro: run_more)+

lemma result_free:
  "cycle_result fin q (free_next sz v DThresh) x \<longleftrightarrow>
    (\<exists>fr r. (\<exists>ws. ring_dequeue ws (free_queue q) = Some (fr, r)) \<and>
      cycle_result fin (q\<lparr>free_queue := fr\<rparr>) (free_next sz v (DRet r)) x)"
  using result_inside [where F = "cycle_step fin" and Ret = cycle_returned and f = ring_dequeue_step and ret = ring_deq_returned
      and E = "free_next sz v" and D = DRet and S = "\<lambda>s. q\<lparr>free_queue := s\<rparr>" and s = "free_queue q"
      and pc = "DThresh" and x = x, OF free_step running_next(1) ring_returned(1)]
  by (simp add: result_ring)

lemma result_alloc:
  "cycle_result fin q (alloc_next fin (bounded_capacity q) sz pos (ring_enqueue_start (alloc_queue q) pos)) x \<longleftrightarrow>
    (\<exists>al r. (\<exists>ws. ring_enqueue ws (alloc_queue q) pos = Some (al, r)) \<and>
      cycle_result fin (q\<lparr>alloc_queue := al\<rparr>) (alloc_next fin (bounded_capacity q) sz pos (ERet r)) x)"
  using result_inside [where F = "cycle_step fin" and Ret = cycle_returned and f = ring_enqueue_step and ret = ring_enq_returned
      and E = "alloc_next fin (bounded_capacity q) sz pos" and D = ERet and S = "\<lambda>s. q\<lparr>alloc_queue := s\<rparr>" and s = "alloc_queue q"
      and pc = "ring_enqueue_start (alloc_queue q) pos" and x = x, OF alloc_step [OF _ refl] running_next(2) ring_returned(2)]
  by (simp add: result_ring)

lemma result_give:
  "cycle_result fin q (give_next v (ring_enqueue_start (free_queue q) pos)) x \<longleftrightarrow>
    (\<exists>fr r. (\<exists>ws. ring_enqueue ws (free_queue q) pos = Some (fr, r)) \<and>
      cycle_result fin (q\<lparr>free_queue := fr\<rparr>) (give_next v (ERet r)) x)"
  using result_inside [where F = "cycle_step fin" and Ret = cycle_returned and f = ring_enqueue_step and ret = ring_enq_returned
      and E = "give_next v" and D = ERet and S = "\<lambda>s. q\<lparr>free_queue := s\<rparr>" and s = "free_queue q"
      and pc = "ring_enqueue_start (free_queue q) pos" and x = x, OF give_step running_next(3) ring_returned(2)]
  by (simp add: result_ring)

lemma result_taken:
  "take_result q take_start x \<longleftrightarrow>
    (\<exists>al r. (\<exists>ws. ring_dequeue ws (alloc_queue q) = Some (al, r)) \<and>
      take_result (q\<lparr>alloc_queue := al\<rparr>) (taken_next (DRet r)) x)"
  using result_inside [where F = "take_step" and Ret = take_returned and f = ring_dequeue_step and ret = ring_deq_returned
      and E = "taken_next" and D = DRet and S = "\<lambda>s. q\<lparr>alloc_queue := s\<rparr>" and s = "alloc_queue q"
      and pc = "DThresh" and x = x, OF taken_step running_next(4) ring_returned(1)]
  by (simp add: result_ring)

lemma result_given:
  "take_result q (given_next v (ring_enqueue_start (free_queue q) pos)) x \<longleftrightarrow>
    (\<exists>fr r. (\<exists>ws. ring_enqueue ws (free_queue q) pos = Some (fr, r)) \<and>
      take_result (q\<lparr>free_queue := fr\<rparr>) (given_next v (ERet r)) x)"
  using result_inside [where F = "take_step" and Ret = take_returned and f = ring_enqueue_step and ret = ring_enq_returned
      and E = "given_next v" and D = ERet and S = "\<lambda>s. q\<lparr>free_queue := s\<rparr>" and s = "free_queue q"
      and pc = "ring_enqueue_start (free_queue q) pos" and x = x, OF given_step running_next(5) ring_returned(2)]
  by (simp add: result_ring)

section \<open>The machines and the runs\<close>

lemma ex_result: "(\<exists>r. P r) \<longleftrightarrow> (\<exists>a. P (Ok a)) \<or> (\<exists>e. P (Err e))"
  by (metis rust_result.exhaust)

lemma result_ret [simp]:
  "cycle_result fin q (CRet r) x \<longleftrightarrow> x = (q, r)"
  "take_result q (TRet t) y \<longleftrightarrow> y = (q, t)"
  by (rule result_returned; simp)+

lemma result_end [simp]:
  "\<not> cycle_result fin q CPanic x"
  "cycle_result fin q (CFull v) x \<longleftrightarrow> x = (q\<lparr>used := used q - 1\<rparr>, Err (v, ErrQueueFull))"
  "cycle_result fin q CFinal x \<longleftrightarrow> x = (q\<lparr>alloc_queue := finalize (alloc_queue q)\<rparr>, Ok ())"
  "\<not> take_result q TPanic y"
proof -
  show "\<not> take_result q TPanic y" by (rule result_stuck) auto
  show "\<not> cycle_result fin q CPanic x" by (rule result_stuck) auto
  show "cycle_result fin q (CFull v) x \<longleftrightarrow> x = (q\<lparr>used := used q - 1\<rparr>, Err (v, ErrQueueFull))"
    by (subst result_one) auto
  show "cycle_result fin q CFinal x \<longleftrightarrow> x = (q\<lparr>alloc_queue := finalize (alloc_queue q)\<rparr>, Ok ())"
    by (subst result_one) auto
qed


lemma result_unuse:
  "cycle_result fin q (CUnuse pos) x \<longleftrightarrow>
    (\<exists>v. read_slot (q\<lparr>used := used q - 1\<rparr>) pos = Some v \<and>
      (\<exists>fr. (\<exists>ws u. ring_enqueue ws (free_queue q) pos = Some (fr, Ok u)) \<and>
        x = (q\<lparr>used := used q - 1, free_queue := fr\<rparr>, Err (v, ErrQueueFinalized))))"
proof -
  let ?q = "q\<lparr>used := used q - 1\<rparr>"
  have "cycle_result fin q (CUnuse pos) x \<longleftrightarrow> cycle_result fin ?q (CTake pos) x" by (rule result_one) auto
  also have "\<dots> \<longleftrightarrow> cycle_result fin ?q (case read_slot ?q pos of None \<Rightarrow> CPanic
      | Some v \<Rightarrow> give_next v (ring_enqueue_start (free_queue ?q) pos)) x"
    by (rule result_one) auto
  finally show ?thesis
    using result_give [of fin ?q] by (cases "read_slot ?q pos") (auto simp: ex_result)
qed

lemma ex_option: "(\<exists>r. P r) \<longleftrightarrow> P None \<or> (\<exists>a. P (Some a))"
  by (metis option.exhaust)

lemma enqueue_at_runs:
  assumes "ws 1 = us 1" "ws 2 = us 2"
  shows "enqueue_at fin ws q sz pos v = enqueue_at fin us q sz pos v"
  unfolding enqueue_at_def by (simp only: assms)

lemma result_write:
  "cycle_result fin q (CWrite sz v pos) x \<longleftrightarrow> (\<exists>ws. enqueue_at fin ws q sz pos v = Some x)"
proof (cases "write_slot q pos v")
  case None
  have "cycle_result fin q (CWrite sz v pos) x \<longleftrightarrow> cycle_result fin q CPanic x" by (rule result_one) (auto simp: None)
  with None show ?thesis by (simp add: enqueue_at_def)
next
  case (Some q1)
  have "cycle_result fin q (CWrite sz v pos) x \<longleftrightarrow>
      cycle_result fin q1 (alloc_next fin (bounded_capacity q1) sz pos (ring_enqueue_start (alloc_queue q1) pos)) x"
    by (rule result_one) (auto simp: Some)
  also have "\<dots> \<longleftrightarrow> (\<exists>al. (\<exists>ws u. ring_enqueue ws (alloc_queue q1) pos = Some (al, Ok u)) \<and>
        x = (q1\<lparr>alloc_queue := if fin \<and> sz + 1 \<ge> bounded_capacity q1 then finalize al else al\<rparr>, Ok ())) \<or>
      (\<exists>al. (\<exists>ws e. ring_enqueue ws (alloc_queue q1) pos = Some (al, Err e)) \<and>
        cycle_result fin (q1\<lparr>alloc_queue := al\<rparr>) (CUnuse pos) x)"
    unfolding result_alloc ex_result
    by (cases "fin \<and> sz + 1 \<ge> bounded_capacity q1") (simp_all add: bounded_capacity_def; blast)+
  also have "\<dots> \<longleftrightarrow> (\<exists>ws. enqueue_at fin ws q sz pos v = Some x)" (is "?l \<longleftrightarrow> ?r")
  proof
    show ?r if ?l
    proof -
      from that consider al ws u where "ring_enqueue ws (alloc_queue q1) pos = Some (al, Ok u)"
          "x = (q1\<lparr>alloc_queue := if fin \<and> sz + 1 \<ge> bounded_capacity q1 then finalize al else al\<rparr>, Ok ())"
        | al ws e v' fr ws' u where "ring_enqueue ws (alloc_queue q1) pos = Some (al, Err e)"
          "read_slot (q1\<lparr>alloc_queue := al, used := used q1 - 1\<rparr>) pos = Some v'"
          "ring_enqueue ws' (free_queue q1) pos = Some (fr, Ok u)"
          "x = (q1\<lparr>alloc_queue := al, used := used q1 - 1, free_queue := fr\<rparr>, Err (v', ErrQueueFinalized))"
        unfolding result_unuse by auto
      then show ?r
      proof cases
        case (1 al ws u)
        then show ?thesis using Some by (intro exI [of _ "\<lambda>_. ws"]) (auto simp: enqueue_at_def)
      next
        case (2 al ws e v' fr ws' u)
        then show ?thesis using Some
          by (intro exI [of _ "\<lambda>i. if i = 1 then ws else ws'"]) (auto simp: enqueue_at_def Let_def)
      qed
    qed
    show ?l if ?r
    proof -
      from that obtain ws where ws: "enqueue_at fin ws q sz pos v = Some x" by blast
      with Some obtain al r where al: "ring_enqueue (ws 1) (alloc_queue q1) pos = Some (al, r)"
        by (auto simp: enqueue_at_def split: option.splits)
      show ?l
      proof (cases r)
        case (Ok u)
        with ws Some al show ?thesis by (auto simp: enqueue_at_def)
      next
        case (Err e)
        let ?q2 = "q1\<lparr>alloc_queue := al, used := used q1 - 1\<rparr>"
        obtain v' fr r' where v': "read_slot ?q2 pos = Some v'" "ring_enqueue (ws 2) (free_queue q1) pos = Some (fr, r')"
          using ws Some al Err by (auto simp: enqueue_at_def Let_def split: option.splits prod.splits)
        then obtain u where "r' = Ok u" using ws Some al Err by (cases r') (auto simp: enqueue_at_def Let_def)
        with ws Some al Err v' have "x = (?q2\<lparr>free_queue := fr\<rparr>, Err (v', ErrQueueFinalized))"
          by (simp add: enqueue_at_def Let_def)
        then have "cycle_result fin (q1\<lparr>alloc_queue := al\<rparr>) (CUnuse pos) x"
          unfolding result_unuse using v' \<open>r' = Ok u\<close> by (intro exI [of _ v'] conjI exI [of _ fr]) auto
        with al Err show ?thesis by blast
      qed
    qed
  qed
  finally show ?thesis .
qed

text \<open>The machine of \<open>enqueue_cycle\<close> and the composition of its ring calls.\<close>

lemma cycle_machine_refines:
  "(\<exists>ws. run_solo (cycle_step fin) cycle_returned ws q (CUsed v) = Some x) \<longleftrightarrow>
    (\<exists>ws. enqueue_cycle fin ws q v = Some x)"
proof (cases "bounded_capacity q \<le> used q")
  case True
  have "cycle_result fin q (CUsed v) x \<longleftrightarrow> cycle_result fin (q\<lparr>used := used q + 1\<rparr>) (CFull v) x"
    by (rule result_one) (auto simp: True)
  with True show ?thesis
    by (auto simp: solo_result_run [symmetric] enqueue_cycle_def Let_def bounded_capacity_def)
next
  case False
  let ?q = "q\<lparr>used := used q + 1\<rparr>"
  have "cycle_result fin q (CUsed v) x \<longleftrightarrow> cycle_result fin ?q (free_next (used q) v DThresh) x"
    by (rule result_one) (auto simp: False)
  also have "\<dots> \<longleftrightarrow> (\<exists>fr. (\<exists>ws. ring_dequeue ws (free_queue q) = Some (fr, None)) \<and>
        x = (?q\<lparr>free_queue := fr, used := used q\<rparr>, Err (v, ErrQueueFull))) \<or>
      (\<exists>fr pos. (\<exists>ws. ring_dequeue ws (free_queue q) = Some (fr, Some pos)) \<and>
        (\<exists>ws. enqueue_at fin ws (?q\<lparr>free_queue := fr\<rparr>) (used q) pos v = Some x))" (is "_ \<longleftrightarrow> ?l")
    unfolding result_free ex_option by (simp add: result_write) blast
  also have "\<dots> \<longleftrightarrow> (\<exists>ws. enqueue_cycle fin ws q v = Some x)" (is "_ \<longleftrightarrow> ?r")
  proof
    show ?r if ?l
    proof -
      from that consider fr ws where "ring_dequeue ws (free_queue q) = Some (fr, None)"
          "x = (?q\<lparr>free_queue := fr, used := used q\<rparr>, Err (v, ErrQueueFull))"
        | fr pos us ws where "ring_dequeue us (free_queue q) = Some (fr, Some pos)"
          "enqueue_at fin ws (?q\<lparr>free_queue := fr\<rparr>) (used q) pos v = Some x" by blast
      then show ?r
      proof cases
        case (1 fr ws)
        with False show ?thesis
          by (intro exI [of _ "\<lambda>_. ws"]) (simp add: enqueue_cycle_def Let_def bounded_capacity_def)
      next
        case (2 fr pos us ws)
        then have "enqueue_at fin (ws(0 := us)) (?q\<lparr>free_queue := fr\<rparr>) (used q) pos v = Some x"
          by (subst enqueue_at_runs [of "ws(0 := us)" ws]) auto
        with False 2(1) show ?thesis
          by (intro exI [of _ "ws(0 := us)"]) (simp add: enqueue_cycle_def Let_def bounded_capacity_def)
      qed
    qed
    show ?l if ?r
      using that False by (fastforce simp: enqueue_cycle_def Let_def bounded_capacity_def split: option.splits)
  qed
  finally show ?thesis by (simp add: solo_result_run)
qed

text \<open>The machine of \<open>dequeue\<close> and the composition of its ring calls.\<close>

lemma take_machine_refines:
  "(\<exists>ws. run_solo take_step take_returned ws q take_start = Some x) \<longleftrightarrow> (\<exists>ws. bounded_dequeue ws q = Some x)"
proof -
  have unuse: "take_result q' (TUnuse pos) x \<longleftrightarrow>
      (\<exists>v. read_slot (q'\<lparr>used := used q' - 1\<rparr>) pos = Some v \<and>
        (\<exists>fr. (\<exists>ws u. ring_enqueue ws (free_queue q') pos = Some (fr, Ok u)) \<and>
          x = (q'\<lparr>used := used q' - 1, free_queue := fr\<rparr>, Some v)))" for q' pos
  proof -
    let ?q = "q'\<lparr>used := used q' - 1\<rparr>"
    have "take_result q' (TUnuse pos) x \<longleftrightarrow> take_result ?q (TRead pos) x" by (rule result_one) auto
    also have "\<dots> \<longleftrightarrow> take_result ?q (case read_slot ?q pos of None \<Rightarrow> TPanic
        | Some v \<Rightarrow> given_next v (ring_enqueue_start (free_queue ?q) pos)) x"
      by (rule result_one) auto
    finally show ?thesis using result_given [of ?q] by (cases "read_slot ?q pos") (auto simp: ex_result)
  qed
  have "take_result q take_start x \<longleftrightarrow> (\<exists>al. (\<exists>ws. ring_dequeue ws (alloc_queue q) = Some (al, None)) \<and>
        x = (q\<lparr>alloc_queue := al\<rparr>, None)) \<or>
      (\<exists>al pos. (\<exists>ws. ring_dequeue ws (alloc_queue q) = Some (al, Some pos)) \<and>
        take_result (q\<lparr>alloc_queue := al\<rparr>) (TUnuse pos) x)" (is "_ \<longleftrightarrow> ?l")
    unfolding result_taken ex_option by simp blast
  also have "\<dots> \<longleftrightarrow> (\<exists>ws. bounded_dequeue ws q = Some x)" (is "_ \<longleftrightarrow> ?r")
  proof
    show ?r if ?l
    proof -
      from that consider al ws where "ring_dequeue ws (alloc_queue q) = Some (al, None)"
          "x = (q\<lparr>alloc_queue := al\<rparr>, None)"
        | al pos ws v fr us u where "ring_dequeue ws (alloc_queue q) = Some (al, Some pos)"
          "read_slot (q\<lparr>alloc_queue := al, used := used q - 1\<rparr>) pos = Some v"
          "ring_enqueue us (free_queue q) pos = Some (fr, Ok u)"
          "x = (q\<lparr>alloc_queue := al, used := used q - 1, free_queue := fr\<rparr>, Some v)"
        unfolding unuse by auto
      then show ?r
      proof cases
        case (1 al ws)
        then show ?thesis by (intro exI [of _ "\<lambda>_. ws"]) (simp add: bounded_dequeue_def)
      next
        case (2 al pos ws v fr us u)
        then show ?thesis
          by (intro exI [of _ "\<lambda>i. if i = 0 then ws else us"]) (simp add: bounded_dequeue_def Let_def)
      qed
    qed
    show ?l if ?r
    proof -
      from that obtain ws where ws: "bounded_dequeue ws q = Some x" by blast
      then obtain al r where al: "ring_dequeue (ws 0) (alloc_queue q) = Some (al, r)"
        by (auto simp: bounded_dequeue_def split: option.splits)
      show ?l
      proof (cases r)
        case None
        with ws al show ?thesis by (auto simp: bounded_dequeue_def)
      next
        case (Some pos)
        let ?q1 = "q\<lparr>alloc_queue := al, used := used q - 1\<rparr>"
        obtain v fr r' where v: "read_slot ?q1 pos = Some v" "ring_enqueue (ws 1) (free_queue q) pos = Some (fr, r')"
          using ws al Some by (auto simp: bounded_dequeue_def Let_def split: option.splits prod.splits)
        then obtain u where "r' = Ok u" using ws al Some by (cases r') (auto simp: bounded_dequeue_def Let_def)
        with ws al Some v have "x = (?q1\<lparr>free_queue := fr\<rparr>, Some v)" by (simp add: bounded_dequeue_def Let_def)
        then have "take_result (q\<lparr>alloc_queue := al\<rparr>) (TUnuse pos) x"
          unfolding unuse using v \<open>r' = Ok u\<close> by (intro exI [of _ v] conjI exI [of _ fr]) auto
        with al Some show ?thesis by blast
      qed
    qed
  qed
  finally show ?thesis by (simp add: solo_result_run)
qed

text \<open>The bounded queue at two granularities. The machines of \<open>enqueue_cycle\<close> and \<open>dequeue\<close>, with one
  access to memory per step, and the compositions of the calls of the rings have the same results over all
  spurious failures, from every state, one with a finalised or corrupt ring included.\<close>

theorem bounded_machines_agree:
  "((\<exists>ws. run_solo (cycle_step fin) cycle_returned ws q (CUsed v) = Some x) \<longleftrightarrow>
      (\<exists>ws. enqueue_cycle fin ws q v = Some x)) \<and>
    ((\<exists>ws. run_solo take_step take_returned ws q take_start = Some y) \<longleftrightarrow> (\<exists>ws. bounded_dequeue ws q = Some y))"
  by (intro conjI cycle_machine_refines take_machine_refines)

end
