(* ===== verification/Scq_Conc.thy ===== *)
theory Scq_Conc
  imports Scq_New
begin

text \<open>
  The ring of indices under any number of threads, with sequentially consistent accesses: which indices it
  holds, and that a step of \<open>enqueue\<close> or \<open>dequeue\<close> moves an index between the ring and the thread that
  performs it, and changes nothing else. Each position of \<open>head\<close> and \<open>tail\<close> is handed out once as long as the counters do
  not reach \<open>2 ^ 61\<close>; an entry of the cycle of a position that has not been examined is not empty, so that the
  one \<open>dequeue\<close> that is to examine it gets the index.
\<close>

section \<open>What an entry says\<close>

definition e_cycle :: "nat \<Rightarrow> usize \<Rightarrow> int" where
  "e_cycle m w = drop_bit (Suc m) (sint w)"

definition e_index :: "nat \<Rightarrow> usize \<Rightarrow> nat" where
  "e_index m w = unat (take_bit m w)"

definition bottom :: "nat \<Rightarrow> nat" where
  "bottom m = 2 ^ m - 1"

lemma e_decode: "w = cw (Suc m) (e_cycle m w) (take_bit (Suc m) (sint w))"
proof -
  have "cw (Suc m) (e_cycle m w) (take_bit (Suc m) (sint w)) =
      word_of_int (2 ^ Suc m * (sint w div 2 ^ Suc m) + sint w mod 2 ^ Suc m)"
    by (subst cw_arith) (simp_all only: e_cycle_def drop_bit_eq_div take_bit_eq_mod, simp_all)
  also have "\<dots> = word_of_int (sint w)" by (simp only: mult_div_mod_eq)
  finally show ?thesis by simp
qed

lemma modup_entry: "m < 63 \<Longrightarrow> modup w (2 ^ m) = vacant m (e_cycle m w)"
  by (subst e_decode [of w m]) (simp only: modup_cw)

lemma cycle_cw:
  assumes "m \<le> 61" "- 1 \<le> c" "c < 2 ^ (62 - m)" "0 \<le> r" "r < 2 ^ Suc m"
  shows "e_cycle m (cw (Suc m) c r) = c"
proof -
  have "(2 :: int) ^ Suc m * c + r < 2 ^ Suc m * (c + 1)" using assms(5) by (simp add: algebra_simps)
  also have "\<dots> \<le> 2 ^ Suc m * 2 ^ (62 - m)" using assms(3) by (intro mult_left_mono) auto
  also have "\<dots> = 2 ^ 63" using assms(1) by (simp only: power_add [symmetric]) simp
  finally have up: "2 ^ Suc m * c + r < (2 ^ 63 :: int)" .
  have "- (2 ^ 63) \<le> (2 ^ Suc m * (- 1) :: int)"
    using power_increasing [of "Suc m" 63 "2 :: int"] assms(1) by simp
  also have "\<dots> \<le> 2 ^ Suc m * c" using assms(2) by (intro mult_left_mono) auto
  finally have low: "- (2 ^ 63) \<le> (2 ^ Suc m * c + r :: int)" using assms(4) by linarith
  have "sint (cw (Suc m) c r) = 2 ^ Suc m * c + r"
    using signed_take_bit_int_eq_self [OF low up] by (simp only: cw_arith [OF assms(4,5)] sint_sbintrunc') simp
  then have "e_cycle m (cw (Suc m) c r) = (2 ^ Suc m * c + r) div 2 ^ Suc m"
    by (simp add: e_cycle_def drop_bit_eq_div)
  then show ?thesis using assms(4,5) by simp
qed

lemma cmp_cycles:
  assumes "m \<le> 61" "- 1 \<le> c" "c < 2 ^ (61 - m)" "- 1 \<le> c'" "c' < 2 ^ (61 - m)"
  shows "lfring_signed_cmp (vacant m c) (vacant m c') = sgn (c - c')"
proof -
  have diff: "vacant m c - vacant m c' = (word_of_int (2 ^ Suc m * (c - c')) :: usize)"
    using mask_bounds(1,2) [of "Suc m"]
    by (simp only: cw_arith) (simp add: algebra_simps del: power_Suc)
  have pow: "(2 :: int) ^ Suc m * 2 ^ (61 - m) = 2 ^ 62" using assms(1) by (simp only: power_add [symmetric]) simp
  have "1 \<le> (2 :: int) ^ (61 - m)" by simp
  then have "- (2 * 2 ^ (61 - m)) < c - c'" "c - c' < 2 * 2 ^ (61 - m)" using assms(2-5) by linarith+
  then have "2 ^ Suc m * (- (2 * 2 ^ (61 - m))) < 2 ^ Suc m * (c - c')" "2 ^ Suc m * (c - c') < 2 ^ Suc m * (2 * 2 ^ (61 - m))"
    by (intro mult_strict_left_mono; simp)+
  moreover have "(2 :: int) ^ Suc m * (2 * 2 ^ (61 - m)) = 2 ^ 63" using pow by (simp add: algebra_simps)
  ultimately have "signed_take_bit 63 (2 ^ Suc m * (c - c')) = 2 ^ Suc m * (c - c')"
    by (intro signed_take_bit_int_eq_self) linarith+
  then show ?thesis
    by (simp only: lfring_signed_cmp_def diff sint_sbintrunc') (simp add: sgn_mult)
qed

lemma index_less: "e_index m w < 2 ^ m"
proof -
  have "e_index m w = take_bit m (unat w)" by (simp add: e_index_def unsigned_take_bit_eq)
  then show ?thesis by simp
qed

lemma len64: "LENGTH(64) = 64" by simp

lemma e_cycle_cong:
  assumes "\<And>k. m < k \<Longrightarrow> k < 64 \<Longrightarrow> bit w k = bit w' k" "m < 63"
  shows "e_cycle m w = e_cycle m w'"
proof (rule bit_eqI)
  fix k
  have "bit (sint w) n = bit (sint w') n" if "m < n" for n
  proof (cases "n < 64")
    case True
    then have "\<not> 64 \<le> n" "bit w n = bit w' n" using that assms(1) by auto
    then show ?thesis by (simp only: bit_sint_iff len64 simp_thms)
  next
    case False
    moreover have "\<not> bit w n" "\<not> bit w' n" using False bit_imp_le_length by fastforce+
    moreover have "bit w 63 = bit w' 63" using assms by simp
    moreover have "64 - 1 = (63 :: nat)" by simp
    ultimately show ?thesis by (simp only: bit_sint_iff len64 simp_thms)
  qed
  then show "bit (e_cycle m w) k = bit (e_cycle m w') k"
    by (simp only: e_cycle_def bit_drop_bit_eq comp_def)
qed

lemma e_index_cong:
  assumes "\<And>k. k < m \<Longrightarrow> bit w k = bit w' k" "m < 63"
  shows "e_index m w = e_index m w'"
proof -
  have "take_bit m w = take_bit m w'" using assms by (auto simp: bit_eq_iff bit_take_bit_iff)
  then show ?thesis by (simp add: e_index_def)
qed

lemma usize_bits: "(v :: usize) = w \<longleftrightarrow> (\<forall>k. bit v k = bit w k)"
  by (auto intro: bit_eqI)

lemma bits:
  assumes "m \<le> 61"
  shows "bit (2 ^ m - 1 :: usize) k \<longleftrightarrow> k < m" "bit (2 ^ m :: usize) k \<longleftrightarrow> k = m"
    "bit (modup w (2 ^ m)) k \<longleftrightarrow> bit w k \<or> k \<le> m"
proof -
  have m: "bit (2 ^ j - 1 :: usize) k \<longleftrightarrow> k < j" if "j < 64" for j k
    using that bit_mask_iff [of j k, where 'a = usize] by (auto simp: mask_eq_exp_minus_1 dest: bit_imp_le_length)
  show "bit (2 ^ m - 1 :: usize) k \<longleftrightarrow> k < m" using m [of m k] assms by simp
  show "bit (2 ^ m :: usize) k \<longleftrightarrow> k = m" using assms by (auto simp: bit_exp_iff)
  have "modup w (2 ^ m) = w OR (2 ^ Suc m - 1)" by (simp add: modup_def push_bit_eq_mult mult.commute)
  then show "bit (modup w (2 ^ m)) k \<longleftrightarrow> bit w k \<or> k \<le> m"
    using m [of "Suc m" k] assms by (auto simp: bit_or_iff)
qed

lemma e_index_bits: "m \<le> 61 \<Longrightarrow> e_index m w = bottom m \<longleftrightarrow> (\<forall>k < m. bit w k)"
proof -
  assume m: "m \<le> 61"
  have "unat (2 ^ m - 1 :: usize) = bottom m"
  proof -
    have "(2 :: nat) ^ m \<le> 2 ^ 61" using m by (intro power_increasing) auto
    then have "unat (of_nat (bottom m) :: usize) = bottom m" by (subst unat_of_nat_64) (simp add: bottom_def)
    then show ?thesis by (simp add: bottom_def of_nat_diff)
  qed
  then have "e_index m w = bottom m \<longleftrightarrow> take_bit m w = 2 ^ m - 1"
    by (metis e_index_def unsigned_word_eqI)
  also have "\<dots> \<longleftrightarrow> (\<forall>k. bit (take_bit m w) k = bit (2 ^ m - 1 :: usize) k)" by (rule usize_bits)
  also have "\<dots> \<longleftrightarrow> (\<forall>k < m. bit w k)" using bits(1) [OF m] by (auto simp: bit_take_bit_iff)
  finally show ?thesis .
qed

text \<open>The entries that \<open>enqueue\<close> accepts are empty, and what it writes.\<close>

lemma accepted_bottom:
  assumes "m \<le> 61" "w = modup w (2 ^ m) \<or> w = modup w (2 ^ m) XOR 2 ^ m"
  shows "e_index m w = bottom m"
  unfolding e_index_bits [OF assms(1)]
proof (intro allI impI)
  fix k assume "k < m"
  then show "bit w k" using assms(2) bits(2,3) [OF assms(1)] by (metis bit_xor_iff order_less_imp_le order_less_irrefl)
qed

text \<open>What \<open>dequeue\<close> does to an entry.\<close>

lemma marked_entry:
  assumes "m \<le> 61"
  shows "e_cycle m (w AND NOT (2 ^ m)) = e_cycle m w" "e_index m (w AND NOT (2 ^ m)) = e_index m w"
  using assms bits(2) [OF assms] by (intro e_cycle_cong e_index_cong; auto simp: bit_and_iff bit_not_iff)+

lemma advanced_entry:
  assumes "m \<le> 61" "e_index m w = bottom m"
  shows "e_cycle m (vacant m c XOR (NOT w AND 2 ^ m)) = e_cycle m (vacant m c)"
    "e_index m (vacant m c XOR (NOT w AND 2 ^ m)) = bottom m"
proof -
  let ?v = "vacant m c XOR (NOT w AND 2 ^ m)"
  have b: "bit ?v k = bit (vacant m c) k" if "k \<noteq> m" for k
    using that bits(2) [OF assms(1)] by (auto simp: bit_and_iff bit_xor_iff)
  then show "e_cycle m ?v = e_cycle m (vacant m c)" using assms(1) by (intro e_cycle_cong) auto
  have "vacant m c = modup (vacant m c) (2 ^ m)" using assms(1) by (simp only: modup_cw)
  then have "bit (vacant m c) k" if "k < m" for k using bits(3) [OF assms(1), of "vacant m c" k] that by auto
  then show "e_index m ?v = bottom m" using b e_index_bits [OF assms(1)] by auto
qed

lemma consumed_entry:
  assumes "m \<le> 61"
  shows "e_cycle m (w OR (2 ^ m - 1)) = e_cycle m w" "e_index m (w OR (2 ^ m - 1)) = bottom m"
    "unat (w AND (2 ^ m - 1)) = e_index m w"
proof -
  show "e_cycle m (w OR (2 ^ m - 1)) = e_cycle m w"
    using assms bits(1) [OF assms] by (intro e_cycle_cong) (auto simp: bit_or_iff)
  show "e_index m (w OR (2 ^ m - 1)) = bottom m"
    unfolding e_index_bits [OF assms] bit_or_iff bits(1) [OF assms] by simp
  show "unat (w AND (2 ^ m - 1)) = e_index m w" by (simp only: and_mask_word e_index_def)
qed

lemma empty_test:
  assumes "m \<le> 61"
  shows "w OR 2 ^ m \<noteq> modup w (2 ^ m) \<longleftrightarrow> e_index m w \<noteq> bottom m"
proof -
  have "w OR 2 ^ m = modup w (2 ^ m) \<longleftrightarrow> (\<forall>k. bit (w OR 2 ^ m) k = bit (modup w (2 ^ m)) k)"
    by (rule usize_bits)
  also have "\<dots> \<longleftrightarrow> (\<forall>k. (bit w k \<or> k = m) = (bit w k \<or> k \<le> m))"
    by (simp only: bit_or_iff bits(2,3) [OF assms])
  finally have "w OR 2 ^ m = modup w (2 ^ m) \<longleftrightarrow> (\<forall>k < m. bit w k)"
    by (auto simp: order_le_less)
  then show ?thesis unfolding e_index_bits [OF assms] by simp
qed

lemma live_entry:
  assumes "m \<le> 61" "- 1 \<le> c" "c < 2 ^ (62 - m)" "x < 2 ^ m"
  shows "e_cycle m (live m c (int x)) = c" "e_index m (live m c (int x)) = x"
proof -
  have x: "int x < 2 ^ m" using assms(4) by (metis of_nat_less_iff of_nat_numeral of_nat_power)
  then show "e_cycle m (live m c (int x)) = c" using assms by (intro cycle_cw) auto
  have "live m c (int x) AND (2 ^ m - 1) = of_nat x" using live_words(2) [of m "int x" c] assms(1) x by simp
  moreover have "(2 :: nat) ^ m \<le> 2 ^ 61" using assms(1) by (intro power_increasing) auto
  then have "x < 2 ^ 64" using assms(4) by simp
  ultimately show "e_index m (live m c (int x)) = x" using consumed_entry(3) [OF assms(1), of "live m c (int x)"] by simp
qed

lemma vacant_entry:
  assumes "m \<le> 61" "- 1 \<le> c" "c < 2 ^ (62 - m)"
  shows "e_cycle m (vacant m c) = c" "e_index m (vacant m c) = bottom m"
proof -
  show "e_cycle m (vacant m c) = c" using assms mask_bounds [of "Suc m"] by (intro cycle_cw) auto
  have "vacant m c = modup (vacant m c) (2 ^ m)" using assms(1) by (simp only: modup_cw)
  then show "e_index m (vacant m c) = bottom m" using accepted_bottom assms(1) by blast
qed

section \<open>The ring and the threads inside it\<close>

definition cyc :: "scq_ring \<Rightarrow> nat \<Rightarrow> int" where
  "cyc r j = e_cycle (Suc (order r)) (ring_array r ! j)"

definition idx :: "scq_ring \<Rightarrow> nat \<Rightarrow> nat" where
  "idx r j = e_index (Suc (order r)) (ring_array r ! j)"

abbreviation none :: "scq_ring \<Rightarrow> nat" where
  "none r \<equiv> bottom (Suc (order r))"

text \<open>The indices in the ring.\<close>

definition indices :: "scq_ring \<Rightarrow> nat set" where
  "indices r = {idx r j |j. j < slots r \<and> idx r j \<noteq> none r}"

text \<open>An entry of cycle \<open>c\<close> in slot \<open>j\<close> was inserted at the position \<open>c * slots + j\<close> of \<open>tail\<close>, its ticket. The indices in
  the ring with their tickets.\<close>

definition ticket :: "scq_ring \<Rightarrow> nat \<Rightarrow> nat" where
  "ticket r j = nat (cyc r j) * slots r + j"

definition entries :: "scq_ring \<Rightarrow> (nat \<times> nat) set" where
  "entries r = (\<lambda>j. (idx r j, ticket r j)) ` {j. j < slots r \<and> idx r j \<noteq> none r}"

lemma indices_entries: "indices r = fst ` entries r"
  by (auto simp: indices_def entries_def image_image)

lemma finite_entries [simp]: "finite (entries r)"
  by (simp add: entries_def)

text \<open>What a thread does on the ring.\<close>

datatype ring_act = Quiet | Enqs ring_enq_pc | Deqs ring_deq_pc

text \<open>The position whose entry a \<open>dequeue\<close> is to examine.\<close>

fun visits :: "ring_act \<Rightarrow> nat option" where
  "visits (Deqs (DEntry h k)) = Some (unat h)"
| "visits (Deqs (DOr h w)) = Some (unat h)"
| "visits (Deqs (DCas h k w w')) = Some (unat h)"
| "visits _ = None"

text \<open>The index that an \<open>enqueue\<close> is to insert.\<close>

fun carries :: "nat \<Rightarrow> ring_enq_pc \<Rightarrow> nat option" where
  "carries m (EFetch e) = Some (unat (e XOR (2 ^ m - 1)))"
| "carries m (EEntry e t) = Some (unat (e XOR (2 ^ m - 1)))"
| "carries m (EHead e t w) = Some (unat (e XOR (2 ^ m - 1)))"
| "carries m (EFinal e t w) = Some (unat (e XOR (2 ^ m - 1)))"
| "carries m (ECas e t w) = Some (unat (e XOR (2 ^ m - 1)))"
| "carries m _ = None"

text \<open>The ticket that an \<open>enqueue\<close> has drawn.\<close>

fun enq_ticket :: "ring_enq_pc \<Rightarrow> nat option" where
  "enq_ticket (EEntry e t) = Some (unat t)"
| "enq_ticket (EHead e t w) = Some (unat t)"
| "enq_ticket (EFinal e t w) = Some (unat t)"
| "enq_ticket (ECas e t w) = Some (unat t)"
| "enq_ticket _ = None"

definition unread :: "scq_ring \<Rightarrow> nat \<Rightarrow> bool" where
  "unread r h \<longleftrightarrow> h < unat (rhead r) \<and>
     \<not> (idx r (h mod slots r) = none r \<and> cyc r (h mod slots r) = int (h div slots r))"

fun enq_ok :: "nat \<Rightarrow> scq_ring \<Rightarrow> ring_enq_pc \<Rightarrow> bool" where
  "enq_ok b r (EEntry e t) \<longleftrightarrow> unat t < unat (rtail r)"
| "enq_ok b r (EHead e t w) \<longleftrightarrow> unat t < unat (rtail r) \<and> e_index (Suc (order r)) w = none r"
| "enq_ok b r (EFinal e t w) \<longleftrightarrow> unat t < unat (rtail r) \<and> e_index (Suc (order r)) w = none r \<and> length (is_finalized r) = 1"
| "enq_ok b r (ECas e t w) \<longleftrightarrow> unat t < unat (rtail r) \<and> e_index (Suc (order r)) w = none r"
| "enq_ok b r EPanic \<longleftrightarrow> False"
| "enq_ok b r _ \<longleftrightarrow> True"

fun deq_ok :: "nat \<Rightarrow> scq_ring \<Rightarrow> ring_deq_pc \<Rightarrow> bool" where
  "deq_ok b r (DEntry h k) \<longleftrightarrow> unread r (unat h)"
| "deq_ok b r (DOr h w) \<longleftrightarrow> unat h < unat (rhead r) \<and>
     cyc r (unat h mod slots r) = int (unat h div slots r) \<and>
     idx r (unat h mod slots r) = e_index (Suc (order r)) w \<and> e_index (Suc (order r)) w \<noteq> none r"
| "deq_ok b r (DCas h k w w') \<longleftrightarrow> unread r (unat h) \<and>
     (if e_index (Suc (order r)) w = none r
      then e_index (Suc (order r)) w' = none r \<and> e_cycle (Suc (order r)) w' = int (unat h div slots r)
      else e_index (Suc (order r)) w' = e_index (Suc (order r)) w \<and>
        e_cycle (Suc (order r)) w' = e_cycle (Suc (order r)) w)"
| "deq_ok b r (DTail h) \<longleftrightarrow> unat h < b"
| "deq_ok b r (DCatch t h) \<longleftrightarrow> unat t \<le> unat h \<and> unat h \<le> b"
| "deq_ok b r (DCatchTail h) \<longleftrightarrow> unat h \<le> b"
| "deq_ok b r DPanic \<longleftrightarrow> False"
| "deq_ok b r _ \<longleftrightarrow> True"

fun act_ok :: "nat \<Rightarrow> scq_ring \<Rightarrow> ring_act \<Rightarrow> bool" where
  "act_ok b r Quiet \<longleftrightarrow> True"
| "act_ok b r (Enqs pc) \<longleftrightarrow> enq_ok b r pc \<and> (\<forall>x. carries (Suc (order r)) pc = Some x \<longrightarrow> x < 2 ^ order r)"
| "act_ok b r (Deqs pc) \<longleftrightarrow> deq_ok b r pc"

definition entry_fine :: "nat \<Rightarrow> scq_ring \<Rightarrow> nat \<Rightarrow> bool" where
  "entry_fine b r j \<longleftrightarrow> - 1 \<le> cyc r j \<and> cyc r j * int (slots r) + int j < int b \<and>
     (if idx r j = none r then cyc r j * int (slots r) + int j < int (unat (rhead r)) else idx r j < 2 ^ order r)"

definition ring_inv :: "nat \<Rightarrow> scq_ring \<Rightarrow> (nat \<Rightarrow> ring_act) \<Rightarrow> bool" where
  "ring_inv b r A \<longleftrightarrow> order r \<le> 60 \<and> length (ring_array r) = slots r \<and> unat (rhead r) \<le> b \<and> unat (rtail r) \<le> b \<and>
     (\<forall>j < slots r. entry_fine b r j) \<and>
     (\<forall>j < slots r. \<forall>k < slots r. idx r j = idx r k \<longrightarrow> idx r j \<noteq> none r \<longrightarrow> j = k) \<and>
     (\<forall>i. act_ok b r (A i)) \<and>
     (\<forall>i k h. visits (A i) = Some h \<longrightarrow> visits (A k) = Some h \<longrightarrow> i = k)"

lemma word_position:
  assumes "order r \<le> 60"
  shows "unat (lfring_map t (ring_n r)) = unat t mod slots r"
    "modup (push_bit 1 t) (ring_n r) = vacant (Suc (order r)) (int (unat t div slots r))"
  using position_eval [OF assms, of "unat t"] by simp_all

lemma visits_ok: "act_ok b r a \<Longrightarrow> visits a = Some h \<Longrightarrow> h < unat (rhead r)"
  by (induction a rule: visits.induct) (auto simp: unread_def)

lemma act_ok_local:
  assumes "act_ok b r a" "b \<le> b'" "unat (rhead r) \<le> unat (rhead r')" "unat (rtail r) \<le> unat (rtail r')" "order r' = order r"
    "length (is_finalized r') = length (is_finalized r)"
    "\<And>h. visits a = Some h \<Longrightarrow> ring_array r' ! (h mod slots r) = ring_array r ! (h mod slots r)"
  shows "act_ok b' r' a"
proof -
  have sl: "slots r' = slots r" using assms(5) by (simp add: slots_def)
  show ?thesis
  proof (cases a)
    case (Enqs pc)
    then show ?thesis using assms(1,2,4-6) by (cases pc) auto
  next
    case (Deqs pc)
    show ?thesis
      using assms(1-3,5-7) Deqs by (cases pc) (auto simp: unread_def cyc_def idx_def sl split: if_splits)
  qed simp
qed

lemma ring_invD:
  assumes "ring_inv b r A"
  shows "order r \<le> 60" "length (ring_array r) = slots r" "unat (rhead r) \<le> b" "unat (rtail r) \<le> b"
    "\<And>j. j < slots r \<Longrightarrow> entry_fine b r j"
    "\<And>j k. j < slots r \<Longrightarrow> k < slots r \<Longrightarrow> idx r j = idx r k \<Longrightarrow> idx r j \<noteq> none r \<Longrightarrow> j = k"
    "\<And>i. act_ok b r (A i)" "\<And>i k h. visits (A i) = Some h \<Longrightarrow> visits (A k) = Some h \<Longrightarrow> i = k"
  using assms by (simp_all add: ring_inv_def)

lemma ring_invI:
  assumes "order r \<le> 60" "length (ring_array r) = slots r" "unat (rhead r) \<le> b" "unat (rtail r) \<le> b"
    "\<And>j. j < slots r \<Longrightarrow> entry_fine b r j"
    "\<And>j k. j < slots r \<Longrightarrow> k < slots r \<Longrightarrow> idx r j = idx r k \<Longrightarrow> idx r j \<noteq> none r \<Longrightarrow> j = k"
    "\<And>i. act_ok b r (A i)" "\<And>i k h. visits (A i) = Some h \<Longrightarrow> visits (A k) = Some h \<Longrightarrow> i = k"
  shows "ring_inv b r A"
  unfolding ring_inv_def by (intro conjI allI impI) (fact assms | (erule assms; assumption?))+

text \<open>A step that leaves the entries alone.\<close>

lemma ring_inv_frame:
  assumes inv: "ring_inv b r A" and b: "b \<le> b'"
    and r': "order r' = order r" "ring_array r' = ring_array r" "length (is_finalized r') = length (is_finalized r)" 
      "unat (rhead r) \<le> unat (rhead r')" "unat (rhead r') \<le> b'" "unat (rtail r) \<le> unat (rtail r')" "unat (rtail r') \<le> b'"
    and a: "act_ok b' r' a" "\<And>k h. k \<noteq> i \<Longrightarrow> visits a = Some h \<Longrightarrow> visits (A k) \<noteq> Some h"
  shows "ring_inv b' r' (A(i := a))" "indices r' = indices r" "entries r' = entries r"
proof -
  note d = ring_invD [OF inv]
  have same: "slots r' = slots r" "cyc r' = cyc r" "idx r' = idx r"
    using r'(1,2) by (auto simp: slots_def cyc_def idx_def fun_eq_iff)
  show "indices r' = indices r" by (simp add: indices_def same r'(1))
  show "entries r' = entries r" by (simp add: entries_def ticket_def same r'(1))
  have e: "entry_fine b' r' j" if "j < slots r" for j
  proof -
    have "int (unat (rhead r)) \<le> int (unat (rhead r'))" using r'(4) by (simp only: of_nat_le_iff)
    then show ?thesis using d(5) [OF that] b r'(1) by (auto simp: entry_fine_def same split: if_splits)
  qed
  have k: "act_ok b' r' ((A(i := a)) k)" for k
    using a(1) act_ok_local [OF d(7) b r'(4,6,1,3)] r'(2) by auto
  have v: "k = l" if "visits ((A(i := a)) k) = Some h" "visits ((A(i := a)) l) = Some h" for k l h
  proof (cases "k = i \<or> l = i")
    case True
    then show ?thesis using a(2) that by (auto split: if_splits)
  qed (use that d(8) [of k h l] in auto)
  show "ring_inv b' r' (A(i := a))"
  proof (rule ring_invI)
    show "order r' \<le> 60" "length (ring_array r') = slots r'" using d(1,2) r'(1,2) by (simp_all add: same)
    show "j = k" if "j < slots r'" "k < slots r'" "idx r' j = idx r' k" "idx r' j \<noteq> none r'" for j k
      by (rule d(6)) (use that in \<open>simp_all add: same r'(1)\<close>)
    show "entry_fine b' r' j" if "j < slots r'" for j using e that by (simp only: same)
    show "unat (rhead r') \<le> b'" "unat (rtail r') \<le> b'" by (fact r')+
    show "act_ok b' r' ((A(i := a)) k)" for k by (fact k)
    show "k = l" if "visits ((A(i := a)) k) = Some h" "visits ((A(i := a)) l) = Some h" for k l h
      using that by (rule v)
  qed
qed

lemma ring_inv_mono:
  assumes "ring_inv b r A" "b \<le> b'"
  shows "ring_inv b' r A"
proof -
  note d = ring_invD [OF assms(1)]
  have "ring_inv b' r (A(0 := A 0))"
    by (rule ring_inv_frame(1) [OF assms]) (use d(3,4) assms(2) act_ok_local [OF d(7) assms(2), of r 0] d(8) [of 0] in auto)
  then show ?thesis by simp
qed

text \<open>A step that changes an entry.\<close>

definition put_entry :: "scq_ring \<Rightarrow> nat \<Rightarrow> usize \<Rightarrow> scq_ring" where
  "put_entry r j w = r\<lparr>ring_array := (ring_array r)[j := w]\<rparr>"

lemma put_entry_simps [simp]:
  "order (put_entry r j w) = order r" "rhead (put_entry r j w) = rhead r" "rtail (put_entry r j w) = rtail r"
  "length (ring_array (put_entry r j w)) = length (ring_array r)" "slots (put_entry r j w) = slots r"
  "is_finalized (put_entry r j w) = is_finalized r"
  "j < length (ring_array r) \<Longrightarrow> cyc (put_entry r j w) k = (if k = j then e_cycle (Suc (order r)) w else cyc r k)"
  "j < length (ring_array r) \<Longrightarrow> idx (put_entry r j w) k = (if k = j then e_index (Suc (order r)) w else idx r k)"
  by (auto simp: put_entry_def slots_def cyc_def idx_def nth_list_update)

lemma ring_inv_entry:
  assumes inv: "ring_inv b r A" and j: "j < slots r" and a: "act_ok b (put_entry r j w) a" "visits a = None"
    and fine: "entry_fine b (put_entry r j w) j"
    and new: "e_index (Suc (order r)) w \<noteq> none r \<Longrightarrow> e_index (Suc (order r)) w \<noteq> idx r j \<Longrightarrow>
      e_index (Suc (order r)) w \<notin> indices r"
    and others: "\<And>k h. k \<noteq> i \<Longrightarrow> visits (A k) = Some h \<Longrightarrow> h mod slots r = j \<Longrightarrow> act_ok b (put_entry r j w) (A k)"
  shows "ring_inv b (put_entry r j w) (A(i := a))"
proof -
  let ?r = "put_entry r j w"
  note d = ring_invD [OF inv]
  have len: "j < length (ring_array r)" using d(2) j by simp
  have e: "entry_fine b ?r k" if "k < slots r" for k
    using d(5) [OF that] fine len by (cases "k = j") (auto simp: entry_fine_def split: if_splits)
  have inj: "k = l" if "k < slots r" "l < slots r" "idx ?r k = idx ?r l" "idx ?r k \<noteq> none r" for k l
  proof (cases "k = j \<or> l = j")
    case True
    have *: "e_index (Suc (order r)) w \<noteq> idx r l'" if "l' < slots r" "l' \<noteq> j" "e_index (Suc (order r)) w \<noteq> none r" for l'
    proof
      assume eq: "e_index (Suc (order r)) w = idx r l'"
      then have "idx r l' \<in> indices r" using that by (auto simp: indices_def)
      then have "idx r l' = idx r j" using new that(3) eq by metis
      then show False using d(6) [of l' j] that eq j by simp
    qed
    show ?thesis
    proof (rule ccontr)
      assume "k \<noteq> l"
      with True consider "k = j" "l \<noteq> j" | "l = j" "k \<noteq> j" by blast
      then show False using * [of l] * [of k] that len by cases auto
    qed
  next
    case False
    then show ?thesis using that len d(6) [of k l] by auto
  qed
  have k: "act_ok b ?r ((A(i := a)) k)" for k
  proof (cases "k = i")
    case False
    show ?thesis
    proof (cases "visits (A k) = None \<or> the (visits (A k)) mod slots r \<noteq> j")
      case True
      have "act_ok b ?r (A k)"
        by (rule act_ok_local [OF d(7)]) (use True in \<open>auto simp: put_entry_def\<close>)
      then show ?thesis using False by simp
    qed (use False others in auto)
  qed (simp add: a)
  have v: "k = l" if "visits ((A(i := a)) k) = Some h" "visits ((A(i := a)) l) = Some h" for k l h
    using that a(2) d(8) [of k h l] by (cases "k = i \<or> l = i") auto
  show "ring_inv b ?r (A(i := a))"
  proof (rule ring_invI)
    show "order ?r \<le> 60" "length (ring_array ?r) = slots ?r" "unat (rhead ?r) \<le> b" "unat (rtail ?r) \<le> b"
      using d(1-4) by simp_all
    show "j' = k'" if "j' < slots ?r" "k' < slots ?r" "idx ?r j' = idx ?r k'" "idx ?r j' \<noteq> none ?r" for j' k'
      by (rule inj) (use that in simp_all)
    show "entry_fine b ?r k" if "k < slots ?r" for k using e that by (simp only: put_entry_simps)
    show "act_ok b ?r ((A(i := a)) k)" for k by (fact k)
    show "k = l" if "visits ((A(i := a)) k) = Some h" "visits ((A(i := a)) l) = Some h" for k l h
      using that by (rule v)
  qed
qed

lemma indices_put:
  assumes inv: "ring_inv b r A" and j: "j < slots r"
  shows "indices (put_entry r j w) =
    (indices r - {idx r j}) \<union> (if e_index (Suc (order r)) w = none r then {} else {e_index (Suc (order r)) w})"
proof -
  note d = ring_invD [OF inv]
  have len: "j < length (ring_array r)" using d(2) j by simp
  show ?thesis
  proof (intro set_eqI iffI)
    fix x
    assume "x \<in> indices (put_entry r j w)"
    then obtain k where "k < slots r" "idx (put_entry r j w) k = x" "x \<noteq> none r" by (auto simp: indices_def)
    then show "x \<in> (indices r - {idx r j}) \<union> (if e_index (Suc (order r)) w = none r then {} else {e_index (Suc (order r)) w})"
      using len d(6) [of k j] j by (cases "k = j") (auto simp: indices_def)
  next
    fix x
    assume "x \<in> (indices r - {idx r j}) \<union> (if e_index (Suc (order r)) w = none r then {} else {e_index (Suc (order r)) w})"
    then consider k where "k < slots r" "k \<noteq> j" "x = idx r k" "x \<noteq> none r"
      | "x = e_index (Suc (order r)) w" "x \<noteq> none r"
      by (auto simp: indices_def split: if_splits)
    then show "x \<in> indices (put_entry r j w)"
    proof cases
      case (1 k)
      then show ?thesis using len by (auto simp: indices_def intro!: exI [of _ k])
    next
      case 2
      then show ?thesis using len j by (auto simp: indices_def intro!: exI [of _ j])
    qed
  qed
qed

lemma entries_put:
  fixes w :: usize
  assumes inv: "ring_inv b r A" and j: "j < slots r"
  defines "e \<equiv> (e_index (Suc (order r)) w, nat (e_cycle (Suc (order r)) w) * slots r + j)"
  shows "idx r j = none r \<Longrightarrow> fst e \<noteq> none r \<Longrightarrow> entries (put_entry r j w) = insert e (entries r)"
    "fst e = none r \<Longrightarrow> entries (put_entry r j w) = entries r - {(idx r j, ticket r j)}"
    "fst e = idx r j \<Longrightarrow> e_cycle (Suc (order r)) w = cyc r j \<Longrightarrow> entries (put_entry r j w) = entries r"
proof -
  note d = ring_invD [OF inv]
  let ?live = "{k. k < slots r \<and> idx r k \<noteq> none r}" and ?pair = "\<lambda>k. (idx r k, ticket r k)"
  have len: "j < length (ring_array r)" using d(2) j by simp
  let ?r = "put_entry r j w"
  have p: "(\<lambda>k. (idx ?r k, ticket ?r k)) = (\<lambda>k. if k = j then e else ?pair k)"
    using len by (auto simp: ticket_def e_def fun_eq_iff)
  have l: "{k. k < slots ?r \<and> idx ?r k \<noteq> none ?r} = (?live - {j}) \<union> (if fst e = none r then {} else {j})"
  proof (rule set_eqI)
    show "k \<in> {k. k < slots ?r \<and> idx ?r k \<noteq> none ?r} \<longleftrightarrow> k \<in> (?live - {j}) \<union> (if fst e = none r then {} else {j})" for k
      using len j by (cases "k = j") (simp_all add: e_def)
  qed
  have "(\<lambda>k. if k = j then e else ?pair k) ` (?live - {j}) = ?pair ` (?live - {j})" by (rule image_cong) auto
  then have put: "entries ?r = ?pair ` (?live - {j}) \<union> (if fst e = none r then {} else {e})"
    unfolding entries_def p l image_Un by simp
  show "entries (put_entry r j w) = insert e (entries r)" if "idx r j = none r" "fst e \<noteq> none r"
  proof -
    have "?live - {j} = ?live" using that(1) by auto
    then show ?thesis using put that(2) by (simp add: entries_def)
  qed
  show "entries (put_entry r j w) = entries r - {?pair j}" if "fst e = none r"
  proof -
    have "idx r k \<noteq> idx r j" if "k < slots r" "idx r k \<noteq> none r" "k \<noteq> j" for k
      using d(6) [OF that(1) j _ that(2)] that(3) by blast
    then have "?pair ` (?live - {j}) = ?pair ` ?live - {?pair j}" by (intro equalityI subsetI) auto
    then show ?thesis using put that by (simp add: entries_def)
  qed
  show "entries (put_entry r j w) = entries r" if "fst e = idx r j" "e_cycle (Suc (order r)) w = cyc r j"
  proof -
    have e: "e = ?pair j" using that by (simp add: e_def ticket_def)
    show ?thesis
    proof (cases "idx r j = none r")
      case True
      then have "?live - {j} = ?live" by auto
      then show ?thesis using put that(1) True by (simp add: entries_def)
    next
      case False
      then have eq: "insert j (?live - {j}) = ?live" using j by blast
      have "entries r = ?pair ` insert j (?live - {j})" unfolding eq entries_def ..
      then have "entries r = ?pair ` (?live - {j}) \<union> {e}" unfolding image_insert e by simp
      then show ?thesis using put that(1) False by simp
    qed
  qed
qed

text \<open>How a change of an entry looks to another thread that is to examine it.\<close>

lemma others_filled:
  assumes "act_ok b r a" "visits a = Some h" "h mod slots r = j" "j < length (ring_array r)"
    "idx r j = none r" "e_index (Suc (order r)) w \<noteq> none r"
  shows "act_ok b (put_entry r j w) a"
  using assms by (induction a rule: visits.induct) (auto simp: unread_def)

lemma others_marked:
  assumes "act_ok b r a" "visits a = Some h" "h mod slots r = j" "j < length (ring_array r)"
    "e_index (Suc (order r)) w = idx r j" "e_cycle (Suc (order r)) w = cyc r j"
  shows "act_ok b (put_entry r j w) a"
  using assms by (induction a rule: visits.induct) (auto simp: unread_def)

lemma others_emptied:
  assumes "act_ok b r a" "visits a = Some h" "h mod slots r = j" "j < length (ring_array r)"
    "h \<noteq> h0" "h0 mod slots r = j" "e_index (Suc (order r)) w = none r"
    "e_cycle (Suc (order r)) w = int (h0 div slots r)" "idx r j = none r \<or> cyc r j = int (h0 div slots r)"
  shows "act_ok b (put_entry r j w) a"
proof -
  have "h div slots r \<noteq> h0 div slots r" using assms(3,5,6) by (metis mult_div_mod_eq)
  then show ?thesis using assms by (induction a rule: visits.induct) (auto simp: unread_def)
qed

section \<open>The steps of \<open>enqueue\<close>\<close>

definition enq_outcome :: "scq_ring \<Rightarrow> ring_enq_pc \<Rightarrow> scq_ring \<Rightarrow> ring_enq_pc \<Rightarrow> bool" where
  "enq_outcome r pc r' pc' \<longleftrightarrow>
     entries r' = entries r \<and> carries (Suc (order r)) pc' = carries (Suc (order r)) pc \<and> (\<forall>e. pc' \<noteq> ERet (Err e)) \<or>
     entries r' = entries r \<and> carries (Suc (order r)) pc \<noteq> None \<and> pc' = ERet (Err QueueFinalized) \<and>
       length (is_finalized r) = 1 \<and> is_finalized r ! 0 \<or>
     (\<exists>x t. carries (Suc (order r)) pc = Some x \<and> enq_ticket pc = Some t \<and> t < unat (rtail r) \<and> pc' = EThresh \<and>
       entries r' = insert (x, t) (entries r))"

text \<open>The same without tickets.\<close>

lemma enq_outcome_indices:
  assumes "enq_outcome r pc r' pc'"
  shows "indices r' = indices r \<and> carries (Suc (order r)) pc' = carries (Suc (order r)) pc \<and> (\<forall>e. pc' \<noteq> ERet (Err e)) \<or>
     indices r' = indices r \<and> carries (Suc (order r)) pc \<noteq> None \<and> pc' = ERet (Err QueueFinalized) \<and>
       length (is_finalized r) = 1 \<and> is_finalized r ! 0 \<or>
     (\<exists>x. carries (Suc (order r)) pc = Some x \<and> pc' = EThresh \<and> indices r' = insert x (indices r))"
  using assms unfolding enq_outcome_def by (elim disjE exE conjE) (simp_all add: indices_entries)

lemma load_word:
  assumes "ring_inv b r A"
  shows "load_entry r (lfring_map t (ring_n r)) = Some (ring_array r ! (unat t mod slots r))"
    "store_entry r (lfring_map t (ring_n r)) w = put_entry r (unat t mod slots r) w"
    "unat t mod slots r < slots r" "unat t mod slots r < length (ring_array r)"
  using ring_invD(1,2) [OF assms] word_position(1) by (simp_all add: load_entry_def store_entry_def put_entry_def)

lemma put_same [simp]: "put_entry r j (ring_array r ! j) = r"
  by (simp add: put_entry_def)

lemma unat_succ: "unat (w :: usize) < 2 ^ 61 \<Longrightarrow> unat (w + 1) = Suc (unat w)"
proof -
  assume "unat w < 2 ^ 61"
  then have "unat (of_nat (Suc (unat w)) :: usize) = Suc (unat w)" by (subst unat_of_nat_64) simp
  then show ?thesis by (simp add: add.commute)
qed

lemma bottom_big: "x < 2 ^ k \<Longrightarrow> x \<noteq> bottom (Suc k)"
proof -
  assume "x < 2 ^ k"
  moreover have "(2 :: nat) ^ k \<le> bottom (Suc k)" by (simp add: bottom_def) 
  ultimately show ?thesis by simp
qed

text \<open>A step that changes nothing but the thread.\<close>

lemma enq_quiet_step:
  assumes "ring_inv b r A" "A i = Enqs pc" "enq_ok (Suc b) r pc'" "carries (Suc (order r)) pc' = carries (Suc (order r)) pc"
  shows "ring_inv (Suc b) r (A(i := Enqs pc'))"
proof (rule ring_inv_frame(1) [OF assms(1)])
  show "act_ok (Suc b) r (Enqs pc')" using ring_invD(7) [OF assms(1), of i] assms(2-4) by simp
qed (use ring_invD(3,4) [OF assms(1)] in auto)

lemma insert_entry:
  assumes inv: "ring_inv b r A" and b: "b \<le> 2 ^ 61" and i: "A i = Enqs (ECas e t w)"
    and x: "unat (e XOR (2 ^ Suc (order r) - 1)) \<notin> indices r" and w: "ring_array r ! (unat t mod slots r) = w"
  defines "v \<equiv> modup (push_bit 1 t) (ring_n r) XOR e" and "j \<equiv> unat t mod slots r"
  shows "ring_inv b (put_entry r j v) (A(i := Enqs EThresh))"
    "entries (put_entry r j v) = insert (unat (e XOR (2 ^ Suc (order r) - 1)), unat t) (entries r)"
proof -
  note d = ring_invD [OF inv]
  let ?x = "unat (e XOR (2 ^ Suc (order r) - 1))" and ?c = "int (unat t div slots r)"
  have ok: "unat t < b" "idx r j = none r" "?x < 2 ^ order r"
    using d(4) d(7) [of i] i w by (simp_all add: idx_def j_def)
  have m: "Suc (order r) \<le> 61" using d(1) by simp
  have x2: "?x < 2 ^ Suc (order r)" using ok(3) by simp
  then have xi: "int ?x < 2 ^ Suc (order r)" by (metis of_nat_less_iff of_nat_numeral of_nat_power)
  have c: "?c < 2 ^ (62 - Suc (order r))"
  proof -
    have "unat t < 2 ^ (62 - Suc (order r)) * slots r"
      using ok(1) b m unfolding slots_def power_add [symmetric] by simp
    then have "unat t div slots r < 2 ^ (62 - Suc (order r))" by (simp add: less_mult_imp_div_less)
    then show ?thesis by (metis of_nat_less_iff of_nat_numeral of_nat_power)
  qed
  have "e = word_of_int (int ?x) XOR (2 ^ Suc (order r) - 1)"
    by (simp del: power_Suc) (simp add: xor.assoc)
  then have v: "v = live (Suc (order r)) ?c (int ?x)"
    using live_words(4) [of "Suc (order r)" "int ?x" ?c] m xi
    unfolding v_def word_position(2) [OF d(1)] by simp
  have vv: "e_cycle (Suc (order r)) v = ?c" "e_index (Suc (order r)) v = ?x"
    unfolding v by (rule live_entry; use m c x2 in simp)+
  have jl: "j < slots r" "j < length (ring_array r)" using load_word(3,4) [OF inv] by (simp_all add: j_def)
  have none: "?x \<noteq> none r" using bottom_big ok(3) by simp
  have pos: "?c * int (slots r) + int j = int (unat t)"
    unfolding j_def by (metis div_mult_mod_eq of_nat_add of_nat_mult)
  have "nat ?c * slots r + j = unat t" unfolding j_def by simp
  then show "entries (put_entry r j v) = insert (?x, unat t) (entries r)"
    using entries_put(1) [OF inv jl(1) ok(2), of v] none vv by simp
  show "ring_inv b (put_entry r j v) (A(i := Enqs EThresh))"
  proof (rule ring_inv_entry [OF inv jl(1)])
    show "entry_fine b (put_entry r j v) j"
    proof -
      have "int (unat t) < int b" using ok(1) by (simp only: of_nat_less_iff)
      then show ?thesis using none ok(3) pos jl(2) vv by (simp add: entry_fine_def)
    qed
    show "act_ok b (put_entry r j v) (A k)" if "visits (A k) = Some h" "h mod slots r = j" for k h
      using that none vv(2) jl(2) ok(2) by (intro others_filled [OF d(7)]) simp_all
  qed (use x vv in simp_all)
qed

lemma claim_pc_ok:
  assumes "unat t < unat (rtail r)" "e_index (Suc (order r)) w = none r"
  shows "enq_ok b r (claim_pc r e t w)"
    "carries (Suc (order r)) (claim_pc r e t w) = Some (unat (e XOR (2 ^ Suc (order r) - 1)))"
  using assms by (simp_all add: claim_pc_def)

lemma claim_no_err: "claim_pc r e t w \<noteq> ERet x"
  by (simp add: claim_pc_def)

lemma enq_step:
  assumes inv: "ring_inv b r A" and b: "b < 2 ^ 61" and i: "A i = Enqs pc" "ring_enq_returned pc = None"
    and step: "ring_enqueue_step weak r pc = (r', pc')"
    and x: "\<And>x. carries (Suc (order r)) pc = Some x \<Longrightarrow> x \<notin> indices r"
  shows "ring_inv (Suc b) r' (A(i := Enqs pc')) \<and> enq_outcome r pc r' pc'"
proof -
  note d = ring_invD [OF inv]
  have ok: "enq_ok b r pc" using d(7) [of i] i(1) by simp
  have m: "Suc (order r) \<le> 61" using d(1) by simp
  have quiet: ?thesis if "r' = r" "enq_ok (Suc b) r pc'" "carries (Suc (order r)) pc' = carries (Suc (order r)) pc"
      "\<And>e. pc' \<noteq> ERet (Err e)"
    using enq_quiet_step [OF inv i(1) that(2,3)] that by (simp add: enq_outcome_def)
  show ?thesis
  proof (cases pc)
    case (EFetch e)
    have r': "r' = r\<lparr>rtail := rtail r + 1\<rparr>" "pc' = EEntry e (rtail r)" using step EFetch by auto
    have t: "unat (rtail r + 1) = Suc (unat (rtail r))" using d(4) b by (intro unat_succ) simp
    have "act_ok (Suc b) r' (Enqs pc')" using t d(7) [of i] i(1) EFetch r' by simp
    then show ?thesis
      using ring_inv_frame [OF inv, of "Suc b" r' "Enqs pc'" i] d(3,4) r' t EFetch by (simp add: enq_outcome_def)
  next
    case (EEntry e t)
    let ?w = "ring_array r ! (unat t mod slots r)"
    have "?w = modup ?w (ring_n r) \<or> ?w = modup ?w (ring_n r) XOR ring_n r \<Longrightarrow> e_index (Suc (order r)) ?w = none r"
      using accepted_bottom [OF m] by (simp only: ring_n_pow)
    then show ?thesis
      using step EEntry ok claim_pc_ok [where t = t and r = r and w = ?w and e = e] claim_no_err [of r e t]
      by (intro quiet) (auto simp: load_word(1) [OF inv] Let_def split: if_splits)
  next
    case (EHead e t w)
    then show ?thesis using step ok claim_pc_ok [where t = t and r = r and w = w and e = e] claim_no_err [of r e t] by (intro quiet) (auto split: if_splits)
  next
    case (EFinal e t w)
    show ?thesis
    proof (cases "is_finalized r ! 0")
      case True
      then have "r' = r" "pc' = ERet (Err QueueFinalized)" using step EFinal by auto
      then show ?thesis
        using True ok EFinal ring_inv_frame [OF inv, of "Suc b" r "Enqs pc'" i] d(3,4) by (simp add: enq_outcome_def)
    next
      case False
      then show ?thesis using step ok EFinal by (intro quiet) auto
    qed
  next
    case (ECas e t w)
    let ?w = "ring_array r ! (unat t mod slots r)"
    show ?thesis
    proof (cases "?w = w \<and> \<not> weak")
      case True
      let ?v = "modup (push_bit 1 t) (ring_n r) XOR e" and ?j = "unat t mod slots r"
      have "r' = put_entry r ?j ?v" "pc' = EThresh"
        using step ECas True by (auto simp: load_word [OF inv] compare_exchange_weak_def Let_def)
      moreover have xs: "unat (e XOR (2 ^ Suc (order r) - 1)) \<notin> indices r" using x ECas by simp
      have "ring_inv b (put_entry r ?j ?v) (A(i := Enqs EThresh))"
        by (rule insert_entry(1) [OF inv _ i(1) [unfolded ECas] xs]) (use b True in simp_all)
      then have "ring_inv (Suc b) (put_entry r ?j ?v) (A(i := Enqs EThresh))" by (rule ring_inv_mono) simp
      moreover have "entries (put_entry r ?j ?v) = insert (unat (e XOR (2 ^ Suc (order r) - 1)), unat t) (entries r)"
        by (rule insert_entry(2) [OF inv _ i(1) [unfolded ECas] xs]) (use b True in simp_all)
      ultimately show ?thesis using ECas ok by (simp add: enq_outcome_def)
    next
      case False
      then show ?thesis
        using step ok ECas
        by (intro quiet) (auto simp: load_word [OF inv] compare_exchange_weak_def Let_def split: if_splits)
    qed
  next
    case EThStore
    then have "r' = r\<lparr>threshold := lfring_threshold3 (ring_half r) (ring_n r)\<rparr>" "pc' = ERet (Ok ())" using step by auto
    then show ?thesis
      using ring_inv_frame [OF inv, of "Suc b" r' "Enqs pc'" i] d(3,4) EThStore by (simp add: enq_outcome_def)
  next
    case EThresh
    then show ?thesis using step by (intro quiet) (auto split: if_splits)
  next
    case (ERet res)
    then show ?thesis using i(2) by simp
  next
    case EPanic
    then show ?thesis using ok by simp
  qed
qed

section \<open>The steps of \<open>dequeue\<close>\<close>

definition deq_outcome :: "scq_ring \<Rightarrow> ring_deq_pc \<Rightarrow> scq_ring \<Rightarrow> ring_deq_pc \<Rightarrow> bool" where
  "deq_outcome r pc r' pc' \<longleftrightarrow>
     entries r' = entries r \<and> (\<forall>x. pc' \<noteq> DRet (Some x)) \<or>
     (\<exists>x h. visits (Deqs pc) = Some h \<and> h < unat (rhead r) \<and> pc' = DRet (Some x) \<and> (unat x, h) \<in> entries r \<and>
       entries r' = entries r - {(unat x, h)} \<and> indices r' = indices r - {unat x})"

lemma deq_outcome_indices:
  assumes "deq_outcome r pc r' pc'"
  shows "indices r' = indices r \<and> (\<forall>x. pc' \<noteq> DRet (Some x)) \<or>
     (\<exists>x. pc' = DRet (Some x) \<and> unat x \<in> indices r \<and> indices r' = indices r - {unat x})"
  using assms unfolding deq_outcome_def by (elim disjE exE conjE) (force simp: indices_entries)+

lemma deq_quiet_step:
  assumes inv: "ring_inv b r A" and i: "A i = Deqs pc" and pc': "deq_ok (Suc b) r' pc'"
    "visits (Deqs pc') = None \<or> visits (Deqs pc') = visits (Deqs pc)"
    and r': "order r' = order r" "ring_array r' = ring_array r" "length (is_finalized r') = length (is_finalized r)"
      "rhead r' = rhead r" "unat (rtail r) \<le> unat (rtail r')" "unat (rtail r') \<le> Suc b"
  shows "ring_inv (Suc b) r' (A(i := Deqs pc'))" "entries r' = entries r"
proof -
  note d = ring_invD [OF inv]
  have other: "visits (A k) \<noteq> Some h" if "k \<noteq> i" "visits (Deqs pc') = Some h" for k h
    using that pc'(2) i d(8) [of k h i] by auto
  show "ring_inv (Suc b) r' (A(i := Deqs pc'))" "entries r' = entries r"
    using ring_inv_frame [OF inv, of "Suc b" r' "Deqs pc'" i] d(3) r' pc'(1) other by simp_all
qed

lemma empty_entry:
  assumes inv: "ring_inv b r A" and i: "visits (A i) = Some h" and a: "act_ok b (put_entry r j w) a" "visits a = None"
    and j: "h mod slots r = j" and w: "e_index (Suc (order r)) w = none r" "e_cycle (Suc (order r)) w = int (h div slots r)"
    and old: "idx r j = none r \<or> cyc r j = int (h div slots r)"
  shows "ring_inv b (put_entry r j w) (A(i := a))" "indices (put_entry r j w) = indices r - {idx r j}"
    "entries (put_entry r j w) = entries r - {(idx r j, ticket r j)}"
proof -
  note d = ring_invD [OF inv]
  have jl: "j < slots r" "j < length (ring_array r)" using j d(2) by auto
  have h: "h < unat (rhead r)" by (rule visits_ok [OF d(7) i])
  have pos: "int (h div slots r) * int (slots r) + int j = int h"
    unfolding j [symmetric] by (metis div_mult_mod_eq of_nat_add of_nat_mult)
  show "ring_inv b (put_entry r j w) (A(i := a))"
  proof (rule ring_inv_entry [OF inv jl(1) a])
    have "int h < int b" "int h < int (unat (rhead r))" using h d(3) by (simp_all only: of_nat_less_iff)
    then show "entry_fine b (put_entry r j w) j" using w pos jl(2) by (simp add: entry_fine_def)
    show "act_ok b (put_entry r j w) (A k)" if "k \<noteq> i" "visits (A k) = Some g" "g mod slots r = j" for k g
      by (rule others_emptied [OF d(7) that(2,3) jl(2) _ j w old]) (use that d(8) [of k g i] i in auto)
  qed (use w in simp)
  show "indices (put_entry r j w) = indices r - {idx r j}"
    using indices_put [OF inv jl(1), of w] w(1) by simp
  show "entries (put_entry r j w) = entries r - {(idx r j, ticket r j)}"
    using entries_put(2) [OF inv jl(1), of w] w(1) by simp
qed

lemma mark_entry:
  assumes inv: "ring_inv b r A" and a: "act_ok b (put_entry r j w) a" "visits a = None" and jl: "j < slots r"
    and w: "e_index (Suc (order r)) w = idx r j" "e_cycle (Suc (order r)) w = cyc r j"
  shows "ring_inv b (put_entry r j w) (A(i := a))" "entries (put_entry r j w) = entries r"
proof -
  note d = ring_invD [OF inv]
  have len: "j < length (ring_array r)" using jl d(2) by simp
  show "ring_inv b (put_entry r j w) (A(i := a))"
  proof (rule ring_inv_entry [OF inv jl a])
    show "entry_fine b (put_entry r j w) j" using d(5) [OF jl] w len by (auto simp: entry_fine_def split: if_splits)
    show "act_ok b (put_entry r j w) (A k)" if "visits (A k) = Some g" "g mod slots r = j" for k g
      by (rule others_marked [OF d(7) that len w])
  qed (use w in simp)
  show "entries (put_entry r j w) = entries r" using entries_put(3) [OF inv jl, of w] w by simp
qed

lemma cycle_bound:
  assumes "ring_inv b r A" "b \<le> 2 ^ 61" "j < slots r"
  shows "- 1 \<le> cyc r j" "cyc r j < 2 ^ (62 - Suc (order r))"
proof -
  note d = ring_invD [OF assms(1)]
  have f: "- 1 \<le> cyc r j" "cyc r j * int (slots r) + int j < int b"
    using d(5) [OF assms(3)] by (simp_all add: entry_fine_def)
  show "- 1 \<le> cyc r j" by (fact f)
  have "int b \<le> 2 ^ 61" using assms(2) by (metis of_nat_le_iff of_nat_numeral of_nat_power)
  then have "cyc r j * int (slots r) < 2 ^ 62" using f(2) by simp
  also have "(2 :: int) ^ 62 = 2 ^ (62 - Suc (order r)) * int (slots r)"
    using d(1) by (simp add: slots_def power_add [symmetric] del: power_Suc)
  finally show "cyc r j < 2 ^ (62 - Suc (order r))" by (rule mult_right_less_imp_less) simp
qed

lemma position_bound: "unat h < b \<Longrightarrow> b \<le> 2 ^ 61 \<Longrightarrow> order r \<le> 60 \<Longrightarrow> int (unat h div slots r) < 2 ^ (62 - Suc (order r))"
proof -
  assume a: "unat h < b" "b \<le> 2 ^ 61" "order r \<le> 60"
  then have "unat h < 2 ^ (62 - Suc (order r)) * slots r" unfolding slots_def power_add [symmetric] by simp
  then have "unat h div slots r < 2 ^ (62 - Suc (order r))" by (simp add: less_mult_imp_div_less)
  then show ?thesis by (metis of_nat_less_iff of_nat_numeral of_nat_power)
qed

text \<open>What \<open>dequeue\<close> concludes from the entry that it has loaded.\<close>

lemma examined_entry:
  assumes inv: "ring_inv b r A" and b: "b \<le> 2 ^ 61" and h: "unread r (unat h)"
  defines "w \<equiv> ring_array r ! (unat h mod slots r)"
  shows "modup w (ring_n r) = modup (push_bit 1 h) (ring_n r) \<Longrightarrow> deq_ok b r (DOr h w)"
    "deq_ok b r (stale_entry (ring_n r) h k w)" "visits (Deqs (stale_entry (ring_n r) h k w)) \<in> {None, Some (unat h)}"
    "stale_entry (ring_n r) h k w \<noteq> DRet x"
proof -
  note d = ring_invD [OF inv]
  have m: "Suc (order r) \<le> 61" using d(1) by simp
  have lt: "unat h < unat (rhead r)" "unat h < b" using h d(3) by (auto simp: unread_def)
  have j: "unat h mod slots r < slots r" by simp
  have mw: "modup w (ring_n r) = vacant (Suc (order r)) (cyc r (unat h mod slots r))"
    using modup_entry [of "Suc (order r)" w] m by (simp add: w_def cyc_def ring_n_pow del: power_Suc)
  note mh = word_position(2) [OF d(1), of h]
  have c: "cyc r (unat h mod slots r) = int (unat h div slots r)"
    if "modup w (ring_n r) = modup (push_bit 1 h) (ring_n r)"
  proof -
    have "e_cycle (Suc (order r)) (vacant (Suc (order r)) (cyc r (unat h mod slots r))) = cyc r (unat h mod slots r)"
      by (rule vacant_entry(1) [OF m cycle_bound [OF inv b j]])
    moreover have "e_cycle (Suc (order r)) (vacant (Suc (order r)) (int (unat h div slots r))) = int (unat h div slots r)"
      by (rule vacant_entry(1) [OF m _ position_bound [OF lt(2) b d(1)]]) simp
    moreover have "vacant (Suc (order r)) (cyc r (unat h mod slots r)) = vacant (Suc (order r)) (int (unat h div slots r))"
      using that unfolding mw mh .
    ultimately show ?thesis by metis
  qed
  show "deq_ok b r (DOr h w)" if "modup w (ring_n r) = modup (push_bit 1 h) (ring_n r)"
    using c [OF that] h lt(1) by (simp add: unread_def idx_def w_def)
  have v: "e_cycle (Suc (order r)) (vacant (Suc (order r)) (int (unat h div slots r))) = int (unat h div slots r)"
    by (rule vacant_entry(1) [OF m _ position_bound [OF lt(2) b d(1)]]) simp
  have e: "w OR ring_n r \<noteq> modup w (ring_n r) \<longleftrightarrow> e_index (Suc (order r)) w \<noteq> none r"
    using empty_test [OF m] by (simp only: ring_n_pow)
  show "deq_ok b r (stale_entry (ring_n r) h k w)"
    using h lt(2) e marked_entry [OF m, of w] advanced_entry [OF m, of w "int (unat h div slots r)"] v
    unfolding stale_entry_def Let_def mh by (auto simp: ring_n_pow simp del: power_Suc)
  show "visits (Deqs (stale_entry (ring_n r) h k w)) \<in> {None, Some (unat h)}"
    "stale_entry (ring_n r) h k w \<noteq> DRet x"
    by (simp_all add: stale_entry_def Let_def)
qed

text \<open>The signed comparison of positions that are not far apart.\<close>

lemma before_or_at:
  assumes "unat (v :: usize) \<le> 2 ^ 61" "unat w \<le> 2 ^ 61" "lfring_signed_cmp v w \<le> 0"
  shows "unat v \<le> unat w"
proof -
  have diff: "v - w = word_of_int (int (unat v) - int (unat w))" by simp
  have "signed_take_bit 63 (int m - int n) = int m - int n" if "m \<le> 2 ^ 61" "n \<le> 2 ^ 61" for m n :: nat
    by (rule signed_take_bit_int_eq_self) (use that in simp_all)
  from this [OF assms(1,2)]
  have "sint (v - w) = int (unat v) - int (unat w)"
    unfolding diff by (simp only: sint_sbintrunc') simp
  then have "int (unat v) \<le> int (unat w)" using assms(3) by (simp only: lfring_signed_cmp_def) (simp add: sgn_if split: if_splits)
  then show ?thesis by (simp only: of_nat_le_iff)
qed

text \<open>The steps of \<open>dequeue\<close> that change the ring: it draws a ticket, takes the entry, or replaces a stale one.\<close>

lemma draw_step:
  assumes inv: "ring_inv b r A" and b: "b < 2 ^ 61"
  defines "r' \<equiv> r\<lparr>rhead := rhead r + 1\<rparr>"
  shows "ring_inv (Suc b) r' (A(i := Deqs (DEntry (rhead r) k)))" "entries r' = entries r"
proof -
  let ?h = "unat (rhead r)" and ?pc = "DEntry (rhead r) k"
  note d = ring_invD [OF inv]
  have h: "unat (rhead r + 1) = Suc ?h" using d(3) b by (intro unat_succ) simp
  have "entry_fine b r (?h mod slots r)" by (rule d(5)) simp
  moreover have "int (?h div slots r) * int (slots r) + int (?h mod slots r) = int ?h"
    by (metis div_mult_mod_eq of_nat_add of_nat_mult)
  ultimately have "unread r' ?h" using h by (auto simp: unread_def r'_def entry_fine_def cyc_def idx_def split: if_splits)
  moreover have "visits (A j) \<noteq> Some g" if "visits (Deqs ?pc) = Some g" for j g
    using that visits_ok [OF d(7), of j ?h] by auto
  ultimately show "ring_inv (Suc b) r' (A(i := Deqs ?pc))"
    by (intro ring_inv_frame(1) [OF inv]) (use d(3,4) h in \<open>auto simp: r'_def\<close>)
  show "entries r' = entries r" by (simp add: r'_def entries_def ticket_def cyc_def idx_def slots_def)
qed

lemma take_entry_step:
  assumes inv: "ring_inv b r A" and i: "A i = Deqs (DOr h w)"
  defines "r' \<equiv> put_entry r (unat h mod slots r) (ring_array r ! (unat h mod slots r) OR (ring_n r - 1))"
    and "pc' \<equiv> DRet (Some (w AND (ring_n r - 1)))"
  shows "ring_inv (Suc b) r' (A(i := Deqs pc')) \<and> deq_outcome r (DOr h w) r' pc'"
proof -
  let ?j = "unat h mod slots r" let ?w = "ring_array r ! ?j OR (ring_n r - 1)"
  note d = ring_invD [OF inv]
  have m: "Suc (order r) \<le> 61" using d(1) by simp
  have ok: "deq_ok b r (DOr h w)" using d(7) [of i] i by simp
  have h: "cyc r ?j = int (unat h div slots r)" "idx r ?j = e_index (Suc (order r)) w" "idx r ?j \<noteq> none r"
    using ok by simp_all
  have w: "e_index (Suc (order r)) ?w = none r" "e_cycle (Suc (order r)) ?w = int (unat h div slots r)"
    "unat (w AND (ring_n r - 1)) = idx r ?j"
    using consumed_entry(1,2) [OF m, of "ring_array r ! ?j"] consumed_entry(3) [OF m, of w] h(1,2)
    by (simp_all add: ring_n_pow cyc_def del: power_Suc)
  have v: "visits (A i) = Some (unat h)" "act_ok b (put_entry r ?j ?w) (Deqs pc')" "visits (Deqs pc') = None"
    using i by (simp_all add: pc'_def)
  have t: "ticket r ?j = unat h" using h(1) by (simp add: ticket_def)
  have "ring_inv b r' (A(i := Deqs pc'))" "indices r' = indices r - {idx r ?j}" "entries r' = entries r - {(idx r ?j, unat h)}"
    using empty_entry [OF inv v refl w(1,2)] h(1) t by (simp_all add: r'_def)
  moreover have "(idx r ?j, unat h) \<in> entries r" using h(3) t by (force simp: entries_def)
  ultimately show ?thesis
    using ring_inv_mono [of b r' _ "Suc b"] w(3) ok by (simp add: deq_outcome_def pc'_def)
qed

lemma replace_entry_step:
  assumes inv: "ring_inv b r A" and i: "A i = Deqs (DCas h k (ring_array r ! (unat h mod slots r)) w')"
  defines "r' \<equiv> put_entry r (unat h mod slots r) w'"
  shows "ring_inv (Suc b) r' (A(i := Deqs (DTail h)))" "entries r' = entries r"
proof -
  let ?j = "unat h mod slots r" and ?w = "ring_array r ! (unat h mod slots r)"
  note d = ring_invD [OF inv]
  have ok: "deq_ok b r (DCas h k ?w w')" using d(7) [of i] i by simp
  have h: "unat h < b" using ok d(3) by (simp add: unread_def)
  have v: "visits (A i) = Some (unat h)" "act_ok b (put_entry r ?j w') (Deqs (DTail h))" "visits (Deqs (DTail h)) = None"
    using i h by simp_all
  have "ring_inv b r' (A(i := Deqs (DTail h))) \<and> entries r' = entries r"
  proof (cases "idx r ?j = none r")
    case True
    have w': "e_index (Suc (order r)) w' = none r" "e_cycle (Suc (order r)) w' = int (unat h div slots r)"
      using ok True by (simp_all add: idx_def)
    have "(none r, t) \<notin> entries r" for t by (auto simp: entries_def)
    then show ?thesis using empty_entry [OF inv v refl w'] True by (simp add: r'_def)
  next
    case False
    then have w': "e_index (Suc (order r)) w' = idx r ?j" "e_cycle (Suc (order r)) w' = cyc r ?j"
      using ok by (simp_all add: idx_def cyc_def)
    then show ?thesis using mark_entry [OF inv v(2,3) _ w'] by (simp add: r'_def)
  qed
  then show "ring_inv (Suc b) r' (A(i := Deqs (DTail h)))" "entries r' = entries r"
    using ring_inv_mono [of b r' _ "Suc b"] by simp_all
qed

lemma deq_step:
  assumes inv: "ring_inv b r A" and b: "b < 2 ^ 61" and i: "A i = Deqs pc" "ring_deq_returned pc = None"
    and step: "ring_dequeue_step weak r pc = (r', pc')"
  shows "ring_inv (Suc b) r' (A(i := Deqs pc')) \<and> deq_outcome r pc r' pc'"
proof -
  note d = ring_invD [OF inv]
  have ok: "deq_ok b r pc" using d(7) [of i] i by simp
  have quiet: ?thesis if "deq_ok (Suc b) r' pc'" "visits (Deqs pc') = None \<or> visits (Deqs pc') = visits (Deqs pc)"
      "\<And>x. pc' \<noteq> DRet (Some x)" "order r' = order r" "ring_array r' = ring_array r"
      "length (is_finalized r') = length (is_finalized r)" "rhead r' = rhead r" "unat (rtail r) \<le> unat (rtail r')" "unat (rtail r') \<le> Suc b"
    using deq_quiet_step [OF inv i(1) that(1,2,4-9)] that(3) by (simp add: deq_outcome_def)
  have tail: "unat (rtail r) \<le> Suc b" using d(4) by simp
  show ?thesis
  proof (cases pc)
    case DThresh
    then show ?thesis using step tail by (intro quiet) (auto split: if_splits)
  next
    case DFetch
    then have "r' = r\<lparr>rhead := rhead r + 1\<rparr>" "pc' = DEntry (rhead r) 0" using step by auto
    then show ?thesis using draw_step [OF inv b] by (simp add: deq_outcome_def)
  next
    case (DEntry h k)
    have un: "unread r (unat h)" using ok DEntry by simp
    have mono: "deq_ok (Suc b) r pc''" if "deq_ok b r pc''" for pc'' using that by (cases pc'') auto
    have "r' = r" and pc': "pc' = (if modup (ring_array r ! (unat h mod slots r)) (ring_n r) = modup (push_bit 1 h) (ring_n r)
        then DOr h (ring_array r ! (unat h mod slots r)) else stale_entry (ring_n r) h k (ring_array r ! (unat h mod slots r)))"
      using step DEntry by (auto simp: load_word(1) [OF inv] Let_def)
    then show ?thesis
      using mono examined_entry(1) [OF inv _ un] examined_entry(2-4) [OF inv _ un, where k = k] b tail DEntry
      by (intro quiet) auto
  next
    case (DOr h w)
    then show ?thesis using step take_entry_step [OF inv, of i h w] i(1) by (auto simp: load_word [OF inv] Let_def)
  next
    case (DCas h k w w')
    show ?thesis
    proof (cases "ring_array r ! (unat h mod slots r) = w \<and> \<not> weak")
      case True
      then have "r' = put_entry r (unat h mod slots r) w'" "pc' = DTail h"
        using step DCas by (auto simp: load_word [OF inv] compare_exchange_weak_def Let_def)
      then show ?thesis using replace_entry_step [OF inv, of i h k w'] i(1) DCas True by (simp add: deq_outcome_def)
    next
      case False
      then have "r' = r" "pc' = DEntry h k"
        using step DCas by (auto simp: load_word [OF inv] compare_exchange_weak_def Let_def)
      then show ?thesis using ok DCas tail by (intro quiet) auto
    qed
  next
    case (DTail h)
    have "unat h + 1 \<le> 2 ^ 61" using ok DTail b by simp
    then show ?thesis
      using step tail ok DTail unat_succ [of h] b d(4) before_or_at [of "rtail r" "h + 1"] by (intro quiet) (auto split: if_splits)
  next
    case (DCatch t h)
    then show ?thesis
      using step tail ok by (intro quiet) (auto simp: compare_exchange_weak_def split: if_splits)
  next
    case DCatchHead
    then show ?thesis using step tail d(3) by (intro quiet) auto
  next
    case (DCatchTail h)
    then show ?thesis
      using step tail ok d(4) b before_or_at [of "rtail r" h] by (intro quiet) (auto split: if_splits)
  next
    case DSubRet
    then show ?thesis using step tail by (intro quiet) auto
  next
    case DSub
    then show ?thesis using step tail by (intro quiet) (auto split: if_splits)
  next
    case (DRet x)
    then show ?thesis using i by simp
  next
    case DPanic
    then show ?thesis using ok by simp
  qed
qed

section \<open>Counters and tickets\<close>

lemma enq_clocks:
  assumes inv: "ring_inv b r A" and b: "b < 2 ^ 61" and step: "ring_enqueue_step weak r pc = (r', pc')"
  shows "rhead r' = rhead r" "unat (rtail r) \<le> unat (rtail r')"
    "enq_ticket pc' = Some t \<Longrightarrow> enq_ticket pc = Some t \<or> t = unat (rtail r)"
proof -
  have t: "unat (rtail r + 1) = Suc (unat (rtail r))" using ring_invD(4) [OF inv] b by (intro unat_succ) simp
  show "rhead r' = rhead r" "unat (rtail r) \<le> unat (rtail r')"
    "enq_ticket pc' = Some t \<Longrightarrow> enq_ticket pc = Some t \<or> t = unat (rtail r)"
    using step t
    by (cases pc; auto simp: store_entry_def claim_pc_def Let_def split: if_splits option.splits prod.splits rust_result.splits)+
qed

lemma deq_clocks:
  assumes inv: "ring_inv b r A" and b: "b < 2 ^ 61" and i: "A i = Deqs pc" and step: "ring_dequeue_step weak r pc = (r', pc')"
  shows "unat (rhead r) \<le> unat (rhead r')" "unat (rtail r) \<le> unat (rtail r')"
    "visits (Deqs pc') = Some h \<Longrightarrow> visits (Deqs pc) = Some h \<or> h = unat (rhead r)"
proof -
  have h: "unat (rhead r + 1) = Suc (unat (rhead r))" using ring_invD(3) [OF inv] b by (intro unat_succ) simp
  have ok: "deq_ok b r pc" using ring_invD(7) [OF inv, of i] i by simp
  show "unat (rhead r) \<le> unat (rhead r')" "unat (rtail r) \<le> unat (rtail r')"
    "visits (Deqs pc') = Some h \<Longrightarrow> visits (Deqs pc) = Some h \<or> h = unat (rhead r)"
    using step h ok
    by (cases pc; auto simp: store_entry_def stale_entry_def compare_exchange_weak_def Let_def
        split: if_splits option.splits prod.splits rust_result.splits)+
qed

section \<open>New rings\<close>

lemma new_ring_inv:
  assumes r: "ring_ok r 0 xs" and xs: "distinct xs" "length xs \<le> 2 ^ 60"
  shows "ring_inv (2 ^ 60) r (\<lambda>_. Quiet)" "indices r = set xs" "rhead r = 0" "rtail r = of_nat (length xs)"
proof -
  note d = ring_okD [OF r]
  have m: "Suc (order r) \<le> 61" using d(1) by simp
  have x: "xs ! j < 2 ^ order r" if "j < length xs" for j using that d(4) by auto
  have big: "xs ! j < 2 ^ Suc (order r)" if "j < length xs" for j using x [OF that] by simp
  have e: "cyc r j = 0 \<and> idx r j = xs ! j" if "j < length xs" for j
  proof -
    have "j < slots r" using that d(3) by simp
    then have "ring_array r ! j = live (Suc (order r)) 0 (int (xs ! j))"
      using d(7) [of j] that by (simp add: entry_ok_def)
    then show ?thesis using live_entry [OF m _ _ big [OF that], of 0] by (simp add: cyc_def idx_def)
  qed
  have v: "cyc r j = - 1 \<and> idx r j = none r" if "length xs \<le> j" "j < slots r" for j
  proof -
    have "ring_array r ! j = vacant (Suc (order r)) (- 1)" using d(7) [of j] that by (simp add: entry_ok_def)
    moreover have "(- 1 :: int) < 2 ^ (62 - Suc (order r))" by (rule less_le_trans [of _ 0]) simp_all
    ultimately show ?thesis using vacant_entry [OF m, of "- 1"] by (simp only: cyc_def idx_def)
  qed
  have none: "xs ! j \<noteq> none r" if "j < length xs" for j using bottom_big x [OF that] by simp
  show "indices r = set xs"
  proof (intro set_eqI iffI)
    fix y
    assume "y \<in> indices r"
    then obtain j where j: "j < slots r" "y = idx r j" "idx r j \<noteq> none r" by (auto simp: indices_def)
    then have "j < length xs" using v [of j] by (cases "j < length xs") auto
    then show "y \<in> set xs" using e j(2) by simp
  next
    fix y
    assume "y \<in> set xs"
    then obtain j where "j < length xs" "y = xs ! j" by (auto simp: in_set_conv_nth)
    then show "y \<in> indices r" using e none d(3) by (auto simp: indices_def intro!: exI [of _ j])
  qed
  show "ring_inv (2 ^ 60) r (\<lambda>_. Quiet)"
  proof (rule ring_invI)
    show "entry_fine (2 ^ 60) r j" if j: "j < slots r" for j
    proof (cases "j < length xs")
      case True
      then have "int j < int (2 ^ 60)" using xs(2) by (simp only: of_nat_less_iff)
      then show ?thesis using e [OF True] none [OF True] x [OF True] by (simp add: entry_fine_def)
    next
      case False
      then show ?thesis using v [of j] j d(5) by (simp add: entry_fine_def)
    qed
    show "j = k" if "j < slots r" "k < slots r" "idx r j = idx r k" "idx r j \<noteq> none r" for j k
    proof -
      have "j < length xs" "k < length xs" using that v [of j] v [of k] by (cases "j < length xs"; cases "k < length xs"; simp)+
      then show ?thesis using that(3) e xs(1) by (simp add: nth_eq_iff_index_eq)
    qed
    show "unat (rtail r) \<le> 2 ^ 60" using d(6) xs(2) by (simp add: unat_of_nat_64)
  qed (use d(1,2,5) in simp_all)
  show "rhead r = 0" "rtail r = of_nat (length xs)" using d(5,6) by simp_all
qed

text \<open>The start of \<open>enqueue\<close>.\<close>

lemma start_enq:
  assumes "order r \<le> 60" "unat pos < 2 ^ order r"
  shows "ring_enqueue_start r pos = EFetch (pos XOR (ring_n r - 1))"
    "carries (Suc (order r)) (EFetch (pos XOR (ring_n r - 1))) = Some (unat pos)"
  using assms ring_sizes [OF assms(1)]
  by (simp_all add: ring_enqueue_start_def word_le_nat_alt ring_n_pow xor.assoc del: power_Suc)

lemma index_in_ring:
  assumes "ring_inv b r A" "x \<in> indices r"
  shows "x < 2 ^ order r"
proof -
  obtain j where "j < slots r" "x = idx r j" "idx r j \<noteq> none r" using assms(2) by (auto simp: indices_def)
  then show ?thesis using ring_invD(5) [OF assms(1), of j] by (simp add: entry_fine_def)
qed

text \<open>A thread that starts or ends an operation.\<close>

lemma ring_inv_act:
  assumes "ring_inv b r A" "b \<le> b'" "act_ok b' r a" "visits a = None"
  shows "ring_inv b' r (A(i := a))"
  by (rule ring_inv_frame(1) [OF assms(1,2)]) (use ring_invD(3,4) [OF assms(1)] assms(2-4) in auto)

lemma ring_inv_finalize:
  assumes "ring_inv b r A"
  shows "ring_inv b (finalize r) A" "indices (finalize r) = indices r" "order (finalize r) = order r"
    "entries (finalize r) = entries r"
proof -
  have "ring_inv b (finalize r) (A(0 := A 0))" "indices (finalize r) = indices r" "entries (finalize r) = entries r"
    by (rule ring_inv_frame [OF assms];
      use ring_invD(3,4) [OF assms] act_ok_local [OF ring_invD(7) [OF assms], of b "finalize r" 0]
        ring_invD(8) [OF assms, of 0] in \<open>auto simp: finalize_def\<close>)+
  then show "ring_inv b (finalize r) A" "indices (finalize r) = indices r" "entries (finalize r) = entries r" by simp_all
  show "order (finalize r) = order r" by (simp add: finalize_def)
qed

end
