(* ===== verification/Scq_Pool.thy ===== *)
theory Scq_Pool
  imports Scq_Conc Scq_Machine Linearize
begin

text \<open>
  The bounded queue under any number of threads, with sequentially consistent accesses: every slot of the
  backing array is in the ring of free indices, in the ring of allocated indices, or owned by one
  thread; only the owner accesses its payload; the slots of allocated indices are initialised.
\<close>

section \<open>Threads on the two rings\<close>

datatype 'a seg_act = SQuiet | SEnq "'a cycle_pc" | SDeq "'a take_pc"

fun free_act :: "'a seg_act \<Rightarrow> ring_act" where
  "free_act (SEnq (CFree sz v pc)) = Deqs pc"
| "free_act (SEnq (CGive v pc)) = Enqs pc"
| "free_act (SDeq (TGive v pc)) = Enqs pc"
| "free_act _ = Quiet"

fun alloc_act :: "'a seg_act \<Rightarrow> ring_act" where
  "alloc_act (SEnq (CAlloc sz pos pc)) = Enqs pc"
| "alloc_act (SDeq (TAlloc pc)) = Deqs pc"
| "alloc_act _ = Quiet"

text \<open>The slot that a thread owns.\<close>

fun owns :: "nat \<Rightarrow> 'a seg_act \<Rightarrow> nat option" where
  "owns m (SEnq (CWrite sz v pos)) = Some (unat pos)"
| "owns m (SEnq (CAlloc sz pos pc)) = carries m pc"
| "owns m (SEnq (CUnuse pos)) = Some (unat pos)"
| "owns m (SEnq (CTake pos)) = Some (unat pos)"
| "owns m (SEnq (CGive v pc)) = carries m pc"
| "owns m (SDeq (TUnuse pos)) = Some (unat pos)"
| "owns m (SDeq (TRead pos)) = Some (unat pos)"
| "owns m (SDeq (TGive v pc)) = carries m pc"
| "owns m _ = None"

definition ring_m :: "'a bounded_queue \<Rightarrow> nat" where
  "ring_m q = Suc (order (free_queue q))"

fun act_fine :: "'a bounded_queue \<Rightarrow> 'a seg_act \<Rightarrow> bool" where
  "act_fine q (SEnq (CFree sz v pc)) \<longleftrightarrow> ring_deq_returned pc = None"
| "act_fine q (SEnq (CAlloc sz pos pc)) \<longleftrightarrow> ring_enq_returned pc = None \<and>
     (\<forall>x. carries (ring_m q) pc = Some x \<longrightarrow> x = unat pos \<and> backing q ! x \<noteq> None)"
| "act_fine q (SEnq (CUnuse pos)) \<longleftrightarrow> backing q ! unat pos \<noteq> None"
| "act_fine q (SEnq (CTake pos)) \<longleftrightarrow> backing q ! unat pos \<noteq> None"
| "act_fine q (SEnq (CGive v pc)) \<longleftrightarrow> ring_enq_returned pc = None"
| "act_fine q (SEnq CPanic) \<longleftrightarrow> False"
| "act_fine q (SDeq (TAlloc pc)) \<longleftrightarrow> ring_deq_returned pc = None"
| "act_fine q (SDeq (TUnuse pos)) \<longleftrightarrow> backing q ! unat pos \<noteq> None"
| "act_fine q (SDeq (TRead pos)) \<longleftrightarrow> backing q ! unat pos \<noteq> None"
| "act_fine q (SDeq (TGive v pc)) \<longleftrightarrow> ring_enq_returned pc = None"
| "act_fine q (SDeq TPanic) \<longleftrightarrow> False"
| "act_fine q _ \<longleftrightarrow> True"

definition not_final :: "scq_ring \<Rightarrow> bool" where
  "not_final r \<longleftrightarrow> \<not> (length (is_finalized r) = 1 \<and> is_finalized r ! 0)"

definition pool_inv :: "nat \<Rightarrow> 'a bounded_queue \<Rightarrow> (nat \<Rightarrow> 'a seg_act) \<Rightarrow> bool" where
  "pool_inv b q C \<longleftrightarrow>
     ring_inv b (free_queue q) (\<lambda>i. free_act (C i)) \<and> ring_inv b (alloc_queue q) (\<lambda>i. alloc_act (C i)) \<and>
     order (alloc_queue q) = order (free_queue q) \<and> 2 ^ order (free_queue q) \<le> length (backing q) \<and>
     not_final (free_queue q) \<and> indices (free_queue q) \<inter> indices (alloc_queue q) = {} \<and>
     (\<forall>x < 2 ^ order (free_queue q). x \<in> indices (free_queue q) \<or> x \<in> indices (alloc_queue q) \<or>
        (\<exists>i. owns (ring_m q) (C i) = Some x)) \<and>
     (\<forall>i x. owns (ring_m q) (C i) = Some x \<longrightarrow> x < 2 ^ order (free_queue q) \<and>
        x \<notin> indices (free_queue q) \<and> x \<notin> indices (alloc_queue q)) \<and>
     (\<forall>i k x. owns (ring_m q) (C i) = Some x \<longrightarrow> owns (ring_m q) (C k) = Some x \<longrightarrow> i = k) \<and>
     (\<forall>x \<in> indices (alloc_queue q). backing q ! x \<noteq> None) \<and> (\<forall>i. act_fine q (C i))"

lemma pool_invD:
  assumes "pool_inv b q C"
  shows "ring_inv b (free_queue q) (\<lambda>i. free_act (C i))" "ring_inv b (alloc_queue q) (\<lambda>i. alloc_act (C i))"
    "order (alloc_queue q) = order (free_queue q)" "2 ^ order (free_queue q) \<le> length (backing q)"
    "not_final (free_queue q)" "indices (free_queue q) \<inter> indices (alloc_queue q) = {}"
    "\<And>x. x < 2 ^ order (free_queue q) \<Longrightarrow> x \<in> indices (free_queue q) \<or> x \<in> indices (alloc_queue q) \<or>
        (\<exists>i. owns (ring_m q) (C i) = Some x)"
    "\<And>i x. owns (ring_m q) (C i) = Some x \<Longrightarrow> x < 2 ^ order (free_queue q)"
    "\<And>i x. owns (ring_m q) (C i) = Some x \<Longrightarrow> x \<notin> indices (free_queue q)"
    "\<And>i x. owns (ring_m q) (C i) = Some x \<Longrightarrow> x \<notin> indices (alloc_queue q)"
    "\<And>i k x. owns (ring_m q) (C i) = Some x \<Longrightarrow> owns (ring_m q) (C k) = Some x \<Longrightarrow> i = k"
    "\<And>x. x \<in> indices (alloc_queue q) \<Longrightarrow> backing q ! x \<noteq> None" "\<And>i. act_fine q (C i)"
  using assms by (simp_all add: pool_inv_def)

lemma act_fine_cong:
  assumes "act_fine q a" "ring_m q' = ring_m q" "\<And>x. owns (ring_m q) a = Some x \<Longrightarrow> backing q' ! x = backing q ! x"
  shows "act_fine q' a"
  using assms by (induction q a rule: act_fine.induct) auto

lemma act_upd: "(\<lambda>k. f ((C(i := a)) k)) = (\<lambda>k. f (C k))(i := f a)"
  by auto

text \<open>A step of thread \<open>i\<close> moves slots between the rings and itself, and changes at most the payload
  of a slot that it owns.\<close>

lemma pool_update:
  assumes inv: "pool_inv b q C"
    and rings: "ring_inv b' (free_queue q') ((\<lambda>k. free_act (C k))(i := free_act a))"
      "ring_inv b' (alloc_queue q') ((\<lambda>k. alloc_act (C k))(i := alloc_act a))"
      "order (free_queue q') = order (free_queue q)" "order (alloc_queue q') = order (free_queue q)"
      "is_finalized (free_queue q') = is_finalized (free_queue q)"
    and moved: "indices (free_queue q') \<union> indices (alloc_queue q') \<union> set_option (owns (ring_m q) a) =
        indices (free_queue q) \<union> indices (alloc_queue q) \<union> set_option (owns (ring_m q) (C i))"
      "indices (free_queue q') \<inter> indices (alloc_queue q') = {}"
      "\<And>x. owns (ring_m q) a = Some x \<Longrightarrow> x \<notin> indices (free_queue q') \<and> x \<notin> indices (alloc_queue q')"
    and slots: "length (backing q') = length (backing q)"
      "\<And>x. owns (ring_m q) (C i) \<noteq> Some x \<Longrightarrow> backing q' ! x = backing q ! x"
      "\<And>x. x \<in> indices (alloc_queue q') \<Longrightarrow> x \<in> indices (alloc_queue q) \<or> backing q' ! x \<noteq> None"
    and fine: "act_fine q' a"
  shows "pool_inv b' q' (C(i := a))"
proof -
  note d = pool_invD [OF inv]
  let ?all = "indices (free_queue q) \<union> indices (alloc_queue q) \<union> set_option (owns (ring_m q) (C i))"
  have m: "ring_m q' = ring_m q" using rings(3) by (simp add: ring_m_def)
  have bound: "x < 2 ^ order (free_queue q)" if "x \<in> ?all" for x
    using that d(3,8) index_in_ring [OF d(1)] index_in_ring [OF d(2)] by auto
  have other: "y \<notin> ?all" if "owns (ring_m q) (C k) = Some y" "k \<noteq> i" for y k
    using d(9,10) [OF that(1)] d(11) [OF that(1), of i] that(2) by auto
  show ?thesis
    unfolding pool_inv_def m rings(3,4) act_upd [of free_act] act_upd [of alloc_act]
  proof (intro conjI allI impI ballI)
    show "x \<in> indices (free_queue q') \<or> x \<in> indices (alloc_queue q') \<or> (\<exists>k. owns (ring_m q) ((C(i := a)) k) = Some x)"
      if lt: "x < 2 ^ order (free_queue q)" for x
    proof -
      consider "x \<in> ?all" | k where "k \<noteq> i" "owns (ring_m q) (C k) = Some x" using d(7) [OF lt] by (metis UnCI elem_set)
      then show ?thesis
      proof cases
        case 1
        then have "x \<in> indices (free_queue q') \<union> indices (alloc_queue q') \<union> set_option (owns (ring_m q) a)"
          unfolding moved(1) .
        then show ?thesis by (auto intro!: exI [of _ i])
      qed auto
    qed
    fix k x
    assume k: "owns (ring_m q) ((C(i := a)) k) = Some x"
    show "x < 2 ^ order (free_queue q)"
    proof (cases "k = i")
      case True
      then have "x \<in> ?all" unfolding moved(1) [symmetric] using k by simp
      then show ?thesis by (rule bound)
    qed (use k d(8) in auto)
    have out: "x \<notin> ?all" if "k \<noteq> i" using k that other by auto
    then show "x \<notin> indices (free_queue q')" "x \<notin> indices (alloc_queue q')"
      using moved(3) [of x] k unfolding moved(1) [symmetric] by (cases "k = i"; auto)+
    fix l
    assume l: "owns (ring_m q) ((C(i := a)) l) = Some x"
    show "k = l"
    proof (cases "k = i \<or> l = i")
      case True
      have "y \<notin> set_option (owns (ring_m q) a)" if "owns (ring_m q) (C n) = Some y" "n \<noteq> i" for n y
        using other [OF that] unfolding moved(1) [symmetric] by blast
      then show ?thesis using True k l by (auto split: if_splits)
    qed (use k l d(11) in auto)
  next
    fix x
    assume x: "x \<in> indices (alloc_queue q')"
    show "backing q' ! x \<noteq> None"
    proof (cases "x \<in> indices (alloc_queue q)")
      case True
      then have "owns (ring_m q) (C i) \<noteq> Some x" using d(10) by blast
      then show ?thesis using slots(2) d(12) [OF True] by simp
    qed (use slots(3) [OF x] in auto)
  next
    fix k
    show "act_fine q' ((C(i := a)) k)"
    proof (cases "k = i")
      case False
      have "act_fine q' (C k)"
        by (rule act_fine_cong [OF d(13) m], rule slots(2)) (use d(11) False in blast)
      then show ?thesis using False by simp
    qed (simp add: fine)
  next
    show "not_final (free_queue q')" using d(5) rings(5) by (simp add: not_final_def)
    show "2 ^ order (free_queue q) \<le> length (backing q')" using d(4) slots(1) by simp
  qed (fact rings moved(2) refl)+
qed

section \<open>The steps\<close>

lemma ring_step_frame:
  "ring_dequeue_step weak r dpc = (r', dpc') \<Longrightarrow> order r' = order r \<and> is_finalized r' = is_finalized r"
  "ring_enqueue_step weak r epc = (r', epc') \<Longrightarrow> order r' = order r \<and> is_finalized r' = is_finalized r"
  by (cases dpc; auto simp: store_entry_def Let_def split: if_splits option.splits prod.splits rust_result.splits)
    (cases epc; auto simp: store_entry_def Let_def split: if_splits option.splits prod.splits rust_result.splits)

text \<open>A step that leaves the entries of both rings alone.\<close>

lemma pool_local:
  assumes inv: "pool_inv b q C" and b: "b \<le> b'"
    and q': "free_queue q' = free_queue q" "alloc_queue q' = alloc_queue q \<or> alloc_queue q' = finalize (alloc_queue q)"
      "length (backing q') = length (backing q)"
      "\<And>x. owns (ring_m q) (C i) \<noteq> Some x \<Longrightarrow> backing q' ! x = backing q ! x"
    and a: "owns (ring_m q) a = owns (ring_m q) (C i)" "act_ok b' (free_queue q) (free_act a)" "visits (free_act a) = None"
      "act_ok b' (alloc_queue q') (alloc_act a)" "visits (alloc_act a) = None" "act_fine q' a"
  shows "pool_inv b' q' (C(i := a))"
proof -
  note d = pool_invD [OF inv]
  have al: "ring_inv b (alloc_queue q') (\<lambda>k. alloc_act (C k))" "indices (alloc_queue q') = indices (alloc_queue q)"
    "order (alloc_queue q') = order (free_queue q)"
    using q'(2) by (rule disjE; simp only: d(2,3) ring_inv_finalize [OF d(2)])+
  show ?thesis
  proof (rule pool_update [OF inv])
    show "ring_inv b' (free_queue q') ((\<lambda>k. free_act (C k))(i := free_act a))"
      unfolding q'(1) by (rule ring_inv_act [OF d(1) b a(2,3)])
    show "ring_inv b' (alloc_queue q') ((\<lambda>k. alloc_act (C k))(i := alloc_act a))"
      by (rule ring_inv_act [OF al(1) b a(4,5)])
    show "x \<notin> indices (free_queue q') \<and> x \<notin> indices (alloc_queue q')" if "owns (ring_m q) a = Some x" for x
      using that d(9,10) unfolding a(1) q'(1) al(2) by blast
    show "x \<in> indices (alloc_queue q) \<or> backing q' ! x \<noteq> None" if "x \<in> indices (alloc_queue q')" for x
      using that unfolding al(2) by blast
  qed (use q'(1) in simp, fact al(3), use q'(1) in simp, simp only: a(1) q'(1) al(2), simp only: d(6) q'(1) al(2),
      fact q'(3), erule q'(4), fact a(6))
qed

text \<open>A step of \<open>dequeue\<close> on one of the rings.\<close>

lemma deq_pc_visits: "visits (Deqs (DRet x)) = None" by simp

lemma pool_deq_free:
  assumes inv: "pool_inv b q C" and b: "b < 2 ^ 61" and i: "C i = SEnq (CFree sz v pc)"
    and step: "ring_dequeue_step weak (free_queue q) pc = (fr, pc')"
  shows "pool_inv (Suc b) (q\<lparr>free_queue := fr\<rparr>) (C(i := SEnq (free_next sz v pc')))"
proof -
  note d = pool_invD [OF inv]
  have ret: "ring_deq_returned pc = None" using d(13) [of i] i by simp
  let ?q = "q\<lparr>free_queue := fr\<rparr>" and ?a = "SEnq (free_next sz v pc')"
  have st: "ring_inv (Suc b) fr ((\<lambda>k. free_act (C k))(i := Deqs pc'))" "deq_outcome (free_queue q) pc fr pc'"
    using deq_step [OF d(1) b _ ret step, of i] i by simp_all
  have frame: "order fr = order (free_queue q)" "is_finalized fr = is_finalized (free_queue q)"
    using ring_step_frame(1) [OF step] by simp_all
  have no_panic: "pc' \<noteq> DPanic" using ring_invD(7) [OF st(1), of i] by auto
  have al: "ring_inv (Suc b) (alloc_queue q) ((\<lambda>k. alloc_act (C k))(i := Quiet))"
    by (rule ring_inv_act [OF d(2)]) simp_all
  have fr: "ring_inv (Suc b) fr ((\<lambda>k. free_act (C k))(i := free_act ?a))"
    using st(1) ring_inv_act [OF st(1), of "Suc b" Quiet i] no_panic by (cases "(sz, v, pc')" rule: free_next.cases) auto
  have alq: "alloc_act ?a = Quiet" by (cases "(sz, v, pc')" rule: free_next.cases) auto
  show ?thesis
  proof (cases "\<exists>x. pc' = DRet (Some x)")
    case True
    then obtain x where x: "pc' = DRet (Some x)" "unat x \<in> indices (free_queue q)"
      "indices fr = indices (free_queue q) - {unat x}" using deq_outcome_indices [OF st(2)] by auto
    show ?thesis
      by (rule pool_update [OF inv]) (use x d(3,6) i fr al alq frame in \<open>auto simp: ring_m_def\<close>)
  next
    case False
    then have same: "indices fr = indices (free_queue q)" using deq_outcome_indices [OF st(2)] by auto
    have own: "owns (ring_m q) ?a = None" "act_fine ?q ?a"
      using False no_panic by (cases "(sz, v, pc')" rule: free_next.cases; auto)+
    show ?thesis
      by (rule pool_update [OF inv]) (use own same d(3,6) i fr al alq frame in auto)
  qed
qed

lemma pool_deq_alloc:
  fixes q :: "'a bounded_queue"
  assumes inv: "pool_inv b q C" and b: "b < 2 ^ 61" and i: "C i = SDeq (TAlloc pc)"
    and step: "ring_dequeue_step weak (alloc_queue q) pc = (al, pc')"
  shows "pool_inv (Suc b) (q\<lparr>alloc_queue := al\<rparr>) (C(i := SDeq (taken_next pc')))"
    "deq_outcome (alloc_queue q) pc al pc'" "pc' \<noteq> DPanic"
proof -
  note d = pool_invD [OF inv]
  have ret: "ring_deq_returned pc = None" using d(13) [of i] i by simp
  let ?q = "q\<lparr>alloc_queue := al\<rparr>" and ?a = "SDeq (taken_next pc') :: 'a seg_act"
  have st: "ring_inv (Suc b) al ((\<lambda>k. alloc_act (C k))(i := Deqs pc'))" and out: "deq_outcome (alloc_queue q) pc al pc'"
    using deq_step [OF d(2) b _ ret step, of i] i by simp_all
  show "deq_outcome (alloc_queue q) pc al pc'" by (fact out)
  have frame: "order al = order (free_queue q)" using ring_step_frame(1) [OF step] d(3) by simp
  show no_panic: "pc' \<noteq> DPanic" using ring_invD(7) [OF st(1), of i] by auto
  have fr: "ring_inv (Suc b) (free_queue q) ((\<lambda>k. free_act (C k))(i := Quiet))"
    by (rule ring_inv_act [OF d(1)]) simp_all
  have al: "ring_inv (Suc b) al ((\<lambda>k. alloc_act (C k))(i := alloc_act ?a))"
    using st(1) ring_inv_act [OF st(1), of "Suc b" Quiet i] no_panic by (cases pc' rule: taken_next.cases) auto
  have frq: "free_act ?a = Quiet" by (cases pc' rule: taken_next.cases) auto
  show "pool_inv (Suc b) ?q (C(i := ?a))"
  proof (cases "\<exists>x. pc' = DRet (Some x)")
    case True
    then obtain x where x: "pc' = DRet (Some x)" "unat x \<in> indices (alloc_queue q)"
      "indices al = indices (alloc_queue q) - {unat x}" using deq_outcome_indices [OF out] by auto
    have "backing q ! unat x \<noteq> None" by (rule d(12) [OF x(2)])
    then show ?thesis
      by (intro pool_update [OF inv]) (use x d(3,6) i fr al frq frame in \<open>auto simp: ring_m_def\<close>)
  next
    case False
    then have same: "indices al = indices (alloc_queue q)" using deq_outcome_indices [OF out] by auto
    have own: "owns (ring_m q) ?a = None" "act_fine ?q ?a"
      using False no_panic by (cases pc' rule: taken_next.cases; auto)+
    show ?thesis
      by (rule pool_update [OF inv]) (use own same d(3,6) i fr al frq frame in auto)
  qed
qed

text \<open>A step of \<open>enqueue\<close> on the ring of free indices does not fail.\<close>

lemma pool_enq_free_ok:
  assumes inv: "pool_inv b q C" and b: "b < 2 ^ 61"
    and i: "free_act (C i) = Enqs pc" "owns (ring_m q) (C i) = carries (ring_m q) pc" "ring_enq_returned pc = None"
    and step: "ring_enqueue_step weak (free_queue q) pc = (fr, pc')"
  shows "ring_inv (Suc b) fr ((\<lambda>k. free_act (C k))(i := Enqs pc'))" "enq_outcome (free_queue q) pc fr pc'"
    "pc' \<noteq> EPanic" "pc' \<noteq> ERet (Err e)"
proof -
  note d = pool_invD [OF inv]
  have out: "x \<notin> indices (free_queue q)" if "carries (Suc (order (free_queue q))) pc = Some x" for x
    using d(9) [of i] i(2) that by (simp add: ring_m_def)
  show st: "ring_inv (Suc b) fr ((\<lambda>k. free_act (C k))(i := Enqs pc'))" "enq_outcome (free_queue q) pc fr pc'"
    using enq_step [OF d(1) b _ i(3) step out] i(1) by simp_all
  show "pc' \<noteq> EPanic" using ring_invD(7) [OF st(1), of i] by auto
  show "pc' \<noteq> ERet (Err e)" using enq_outcome_indices [OF st(2)] d(5) by (auto simp: not_final_def)
qed

lemma pool_enq_free:
  assumes inv: "pool_inv b q C" and b: "b < 2 ^ 61"
    and i: "free_act (C i) = Enqs pc" "owns (ring_m q) (C i) = carries (ring_m q) pc" "ring_enq_returned pc = None"
    and step: "ring_enqueue_step weak (free_queue q) pc = (fr, pc')"
    and a: "owns (ring_m q) a = carries (ring_m q) pc'" "alloc_act a = Quiet"
      "free_act a = (if ring_enq_returned pc' = None then Enqs pc' else Quiet)" "act_fine (q\<lparr>free_queue := fr\<rparr>) a"
  shows "pool_inv (Suc b) (q\<lparr>free_queue := fr\<rparr>) (C(i := a))"
proof -
  note d = pool_invD [OF inv] and st = pool_enq_free_ok [OF inv b i step]
  have frame: "order fr = order (free_queue q)" "is_finalized fr = is_finalized (free_queue q)"
    using ring_step_frame(2) [OF step] by simp_all
  have "ring_inv (Suc b) fr ((\<lambda>k. free_act (C k))(i := free_act a))"
    using st(1) ring_inv_act [OF st(1), of "Suc b" Quiet i] a by auto
  moreover have "ring_inv (Suc b) (alloc_queue q) ((\<lambda>k. alloc_act (C k))(i := alloc_act a))"
    by (rule ring_inv_act [OF d(2)]) (use a in simp_all)
  moreover have "indices fr = indices (free_queue q) \<and> carries (ring_m q) pc' = carries (ring_m q) pc \<or>
      (\<exists>x. carries (ring_m q) pc = Some x \<and> carries (ring_m q) pc' = None \<and> indices fr = insert x (indices (free_queue q)))"
    using enq_outcome_indices [OF st(2)] st(4) by (auto simp: ring_m_def)
  moreover have "x \<notin> indices (free_queue q) \<and> x \<notin> indices (alloc_queue q)" if "carries (ring_m q) pc = Some x" for x
    using d(9,10) [of i] i(2) that by simp
  ultimately show ?thesis
    by (intro pool_update [OF inv]) (use a i(2) d(3,6) frame in auto)
qed

lemma pool_enq_alloc:
  fixes q :: "'a bounded_queue"
  assumes inv: "pool_inv b q C" and b: "b < 2 ^ 61" and i: "C i = SEnq (CAlloc sz pos pc)"
    and step: "ring_enqueue_step weak (alloc_queue q) pc = (al, pc')"
  shows "pool_inv (Suc b) (q\<lparr>alloc_queue := al\<rparr>) (C(i := SEnq (alloc_next fin cap sz pos pc')))"
    "enq_outcome (alloc_queue q) pc al pc'" "pc' \<noteq> EPanic"
proof -
  note d = pool_invD [OF inv]
  let ?q = "q\<lparr>alloc_queue := al\<rparr>" and ?a = "SEnq (alloc_next fin cap sz pos pc') :: 'a seg_act"
  have f: "ring_enq_returned pc = None" "carries (ring_m q) pc = Some x \<Longrightarrow> x = unat pos \<and> backing q ! x \<noteq> None" for x
    using d(13) [of i] i by auto
  have m: "Suc (order (alloc_queue q)) = ring_m q" using d(3) by (simp add: ring_m_def)
  have out: "x \<notin> indices (alloc_queue q)" "x \<notin> indices (free_queue q)" if "carries (ring_m q) pc = Some x" for x
    using d(9,10) [of i] i that by simp_all
  have st: "ring_inv (Suc b) al ((\<lambda>k. alloc_act (C k))(i := Enqs pc'))" and oc: "enq_outcome (alloc_queue q) pc al pc'"
    using enq_step [OF d(2) b _ f(1) step, where i = i] out(1) i m by simp_all
  show "enq_outcome (alloc_queue q) pc al pc'" by (fact oc)
  have frame: "order al = order (free_queue q)" using ring_step_frame(2) [OF step] d(3) by simp
  show no_panic: "pc' \<noteq> EPanic" using ring_invD(7) [OF st(1), of i] by auto
  have fr: "ring_inv (Suc b) (free_queue q) ((\<lambda>k. free_act (C k))(i := Quiet))"
    by (rule ring_inv_act [OF d(1)]) simp_all
  have a: "free_act ?a = Quiet" "alloc_act ?a = (if ring_enq_returned pc' = None then Enqs pc' else Quiet)"
    using no_panic by (cases "(fin, cap, sz, pos, pc')" rule: alloc_next.cases; simp)+
  have al: "ring_inv (Suc b) al ((\<lambda>k. alloc_act (C k))(i := alloc_act ?a))"
    using st(1) ring_inv_act [OF st(1), of "Suc b" Quiet i] a by auto
  consider "indices al = indices (alloc_queue q)" "carries (ring_m q) pc' = carries (ring_m q) pc" "\<forall>e. pc' \<noteq> ERet (Err e)"
    | x where "indices al = indices (alloc_queue q)" "carries (ring_m q) pc = Some x" "pc' = ERet (Err QueueFinalized)"
    | x where "carries (ring_m q) pc = Some x" "pc' = EThresh" "indices al = insert x (indices (alloc_queue q))"
    using enq_outcome_indices [OF oc] by (auto simp: m)
  then show "pool_inv (Suc b) ?q (C(i := ?a))"
  proof cases
    case 1
    have "owns (ring_m q) ?a = carries (ring_m q) pc" "act_fine ?q ?a"
      using 1(2,3) f no_panic by (cases "(fin, cap, sz, pos, pc')" rule: alloc_next.cases; auto simp: ring_m_def)+
    then show ?thesis
      by (intro pool_update [OF inv]) (use 1(1) out d(3,6) i fr al a frame in auto)
  next
    case (2 x)
    then have "owns (ring_m q) ?a = Some x" "act_fine ?q ?a" using f(2) by auto
    then show ?thesis
      by (intro pool_update [OF inv]) (use 2 out d(3,6) i fr al a frame in auto)
  next
    case (3 x)
    then have "owns (ring_m q) ?a = None" "act_fine ?q ?a" by auto
    then show ?thesis
      by (intro pool_update [OF inv]) (use 3 out f(2) d(3,6) i fr al a frame in auto)
  qed
qed

end
