(* ===== verification/Scq_Linear.thy ===== *)
theory Scq_Linear
  imports Scq_Pool Single_Size "HOL-Library.Multiset"
begin

text \<open>
  The bounded queue of \<open>lfqueue\<close> under any number of threads, with sequentially consistent accesses, against a
  pool of elements with tickets: the simulation, what \<open>const_queue!\<close> and \<open>AllocBoundedQueue::new\<close> create, the
  accounts of elements handed in and out, and executable schedules.
\<close>

section \<open>The specification\<close>

text \<open>A pool of at most \<open>N\<close> elements with tickets. An \<open>enqueue\<close> labels its element with a ticket drawn since its
  call, a \<open>dequeue\<close> takes an element whose ticket it has drawn since its call, from a clock of its own; or the
  operation is refused without effect. The state is the pool and the two clocks.\<close>

type_synonym 'a bag = "('a \<times> nat) multiset \<times> nat \<times> nat"

datatype 'a pool_stat = PIdle | PPending "'a fifo_cmd" nat | PDone "'a fifo_ret"

fun clock :: "'a fifo_cmd \<Rightarrow> 'a bag \<Rightarrow> nat" where
  "clock (Enq v) (P, T, H) = T"
| "clock Deq (P, T, H) = H"

inductive pool_move :: "nat \<Rightarrow> 'a bag \<Rightarrow> 'a pool_stat \<Rightarrow> 'a bag \<Rightarrow> 'a pool_stat \<Rightarrow> bool" for N where
  drift: "T \<le> T' \<Longrightarrow> H \<le> H' \<Longrightarrow> pool_move N (P, T, H) st (P, T', H') st"
| put: "size P < N \<Longrightarrow> lo \<le> t \<Longrightarrow> t < T \<Longrightarrow>
    pool_move N (P, T, H) (PPending (Enq v) lo) (add_mset (v, t) P, T, H) (PDone (REnq (Ok ())))"
| take_one: "lo \<le> h \<Longrightarrow> h < H \<Longrightarrow>
    pool_move N (add_mset (v, h) P, T, H) (PPending Deq lo) (P, T, H) (PDone (RDeq (Some v)))"
| refused: "T \<le> T' \<Longrightarrow> H \<le> H' \<Longrightarrow> pool_move N (P, T, H) (PPending c lo) (P, T', H') (PDone (refusal c))"

section \<open>What a thread has done\<close>

definition contents_of :: "'a bounded_queue \<Rightarrow> 'a multiset" where
  "contents_of q = image_mset (\<lambda>x. the (backing q ! x)) (mset_set (indices (alloc_queue q)))"

definition ticketed :: "'a bounded_queue \<Rightarrow> ('a \<times> nat) multiset" where
  "ticketed q = image_mset (\<lambda>(x, t). (the (backing q ! x), t)) (mset_set (entries (alloc_queue q)))"

abbreviation in_clock :: "'a bounded_queue \<Rightarrow> nat" where
  "in_clock q \<equiv> unat (rtail (alloc_queue q))"

abbreviation out_clock :: "'a bounded_queue \<Rightarrow> nat" where
  "out_clock q \<equiv> unat (rhead (alloc_queue q))"

abbreviation bag_of :: "'a bounded_queue \<Rightarrow> 'a bag" where
  "bag_of q \<equiv> (ticketed q, in_clock q, out_clock q)"

lemma entries_inj:
  assumes "ring_inv b r A"
  shows "inj_on fst (entries r)"
  using ring_invD(6) [OF assms] by (auto simp: inj_on_def entries_def)

lemma ticketed_contents:
  assumes "pool_inv b q C"
  shows "image_mset fst (ticketed q) = contents_of q"
proof -
  have "mset_set (indices (alloc_queue q)) = image_mset fst (mset_set (entries (alloc_queue q)))"
    unfolding indices_entries by (rule image_mset_mset_set [symmetric, OF entries_inj [OF pool_invD(2) [OF assms]]])
  then show ?thesis by (simp add: contents_of_def ticketed_def multiset.map_comp comp_def case_prod_unfold)
qed

definition waits :: "'a bounded_queue \<Rightarrow> 'a \<Rightarrow> 'a pool_stat \<Rightarrow> bool" where
  "waits q v st \<longleftrightarrow> (\<exists>lo. st = PPending (Enq v) lo \<and> lo \<le> in_clock q)"

fun seg_at :: "'a bounded_queue \<Rightarrow> 'a seg_act \<Rightarrow> 'a pool_stat \<Rightarrow> bool" where
  "seg_at q SQuiet st \<longleftrightarrow> st = PIdle"
| "seg_at q (SEnq (CUsed v)) st \<longleftrightarrow> waits q v st"
| "seg_at q (SEnq (CFull v)) st \<longleftrightarrow> waits q v st"
| "seg_at q (SEnq (CFree sz v pc)) st \<longleftrightarrow> waits q v st"
| "seg_at q (SEnq (CWrite sz v pos)) st \<longleftrightarrow> waits q v st"
| "seg_at q (SEnq (CAlloc sz pos pc)) st \<longleftrightarrow>
     (if carries (ring_m q) pc = None then st = PDone (REnq (Ok ()))
      else \<exists>v lo. st = PPending (Enq v) lo \<and> lo \<le> in_clock q \<and> (\<forall>t. enq_ticket pc = Some t \<longrightarrow> lo \<le> t) \<and>
        backing q ! unat pos = Some v)"
| "seg_at q (SEnq CFinal) st \<longleftrightarrow> st = PDone (REnq (Ok ()))"
| "seg_at q (SEnq (CUnuse pos)) st \<longleftrightarrow> (\<exists>v. waits q v st \<and> backing q ! unat pos = Some v)"
| "seg_at q (SEnq (CTake pos)) st \<longleftrightarrow> (\<exists>v. waits q v st \<and> backing q ! unat pos = Some v)"
| "seg_at q (SEnq (CGive v pc)) st \<longleftrightarrow> waits q v st"
| "seg_at q (SEnq (CRet (Ok u))) st \<longleftrightarrow> st = PDone (REnq (Ok ()))"
| "seg_at q (SEnq (CRet (Err (v, e)))) st \<longleftrightarrow> st = PDone (REnq (Err v))"
| "seg_at q (SEnq CPanic) st \<longleftrightarrow> False"
| "seg_at q (SDeq (TAlloc pc)) st \<longleftrightarrow>
     (\<exists>lo. st = PPending Deq lo \<and> lo \<le> out_clock q \<and> (\<forall>h. visits (Deqs pc) = Some h \<longrightarrow> lo \<le> h))"
| "seg_at q (SDeq (TUnuse pos)) st \<longleftrightarrow> (\<exists>v. st = PDone (RDeq (Some v)) \<and> backing q ! unat pos = Some v)"
| "seg_at q (SDeq (TRead pos)) st \<longleftrightarrow> (\<exists>v. st = PDone (RDeq (Some v)) \<and> backing q ! unat pos = Some v)"
| "seg_at q (SDeq (TGive v pc)) st \<longleftrightarrow> st = PDone (RDeq (Some v))"
| "seg_at q (SDeq (TRet r)) st \<longleftrightarrow> st = PDone (RDeq r)"
| "seg_at q (SDeq TPanic) st \<longleftrightarrow> False"

lemma waits_mono: "waits q v st \<Longrightarrow> in_clock q \<le> in_clock q' \<Longrightarrow> waits q' v st"
  by (auto simp: waits_def)

lemma waits_frame [simp]:
  "waits (q\<lparr>used := u\<rparr>) v st = waits q v st" "waits (q\<lparr>free_queue := fr\<rparr>) v st = waits q v st"
  by (simp_all add: waits_def)

lemma seg_at_cong:
  assumes "seg_at q a st" "act_fine q a" "ring_m q' = ring_m q" "in_clock q \<le> in_clock q'" "out_clock q \<le> out_clock q'"
    "\<And>x. owns (ring_m q) a = Some x \<Longrightarrow> backing q' ! x = backing q ! x"
  shows "seg_at q' a st"
  using assms by (induction q a st rule: seg_at.induct) (auto intro: waits_mono)

definition seg_sim :: "nat \<Rightarrow> 'a bounded_queue \<Rightarrow> 'a seg_act \<Rightarrow> 'a bounded_queue \<Rightarrow> 'a seg_act \<Rightarrow> bool" where
  "seg_sim N q a q' a' \<longleftrightarrow>
     (\<forall>st. seg_at q a st \<longrightarrow> (\<exists>st'. seg_at q' a' st' \<and> pool_move N (bag_of q) st (bag_of q') st'))"

lemma finite_indices [simp]: "finite (indices r)"
  by (simp add: indices_def)

text \<open>A step that leaves the entries of the ring of allocated indices and the payloads of their slots alone.\<close>

lemma seg_sim_quiet:
  assumes "entries (alloc_queue q') = entries (alloc_queue q)" "\<And>x. x \<in> indices (alloc_queue q) \<Longrightarrow> backing q' ! x = backing q ! x"
    "in_clock q \<le> in_clock q'" "out_clock q \<le> out_clock q'"
    "\<And>st. seg_at q a st \<Longrightarrow> seg_at q' a' st \<or> (\<exists>c lo. st = PPending c lo \<and> seg_at q' a' (PDone (refusal c)))"
  shows "seg_sim N q a q' a'"
proof -
  have c: "ticketed q' = ticketed q"
    unfolding ticketed_def assms(1) by (rule image_mset_cong) (use assms(2) in \<open>force simp: indices_entries\<close>)
  show ?thesis
    unfolding seg_sim_def c using assms(5) pool_move.refused [OF assms(3,4)] pool_move.drift [OF assms(3,4)] by blast
qed

lemma room:
  assumes "pool_inv b q C" "owns (ring_m q) (C i) = Some x"
  shows "size (ticketed q) < 2 ^ order (free_queue q)"
proof -
  note d = pool_invD [OF assms(1)]
  have "indices (alloc_queue q) \<subseteq> {..<2 ^ order (free_queue q)} - {x}"
    using index_in_ring [OF d(2)] d(3) d(10) [OF assms(2)] by auto
  then have "card (indices (alloc_queue q)) \<le> card ({..<2 ^ order (free_queue q)} - {x})" by (intro card_mono) auto
  also have "\<dots> < card {..<(2 :: nat) ^ order (free_queue q)}" using d(8) [OF assms(2)] by (intro psubset_card_mono) auto
  finally show ?thesis by (simp add: ticketed_def indices_entries card_image [OF entries_inj [OF d(2)]])
qed

section \<open>The steps\<close>

text \<open>A thread that owns a slot, and its start of an enqueue of this slot to either ring.\<close>

lemma owned_slot:
  assumes inv: "pool_inv b q C" and own: "owns (ring_m q) (C i) = Some (unat pos)"
  shows "unat pos < 2 ^ order (free_queue q)" "unat pos < length (backing q)"
    "ring_enqueue_start (free_queue q) pos = EFetch (pos XOR (ring_n (free_queue q) - 1))"
    "ring_enqueue_start (alloc_queue q) pos = EFetch (pos XOR (ring_n (free_queue q) - 1))"
    "carries (ring_m q) (EFetch (pos XOR (ring_n (free_queue q) - 1))) = Some (unat pos)"
proof -
  note d = pool_invD [OF inv]
  have o60: "order (free_queue q) \<le> 60" by (rule ring_invD(1) [OF d(1)])
  have n: "ring_n (alloc_queue q) = ring_n (free_queue q)" using d(3) by (simp add: ring_n_def ring_half_def)
  show "unat pos < 2 ^ order (free_queue q)" and "unat pos < length (backing q)" using d(8) [OF own] d(4) by simp_all
  then show "ring_enqueue_start (free_queue q) pos = EFetch (pos XOR (ring_n (free_queue q) - 1))"
    "ring_enqueue_start (alloc_queue q) pos = EFetch (pos XOR (ring_n (free_queue q) - 1))"
    "carries (ring_m q) (EFetch (pos XOR (ring_n (free_queue q) - 1))) = Some (unat pos)"
    using start_enq [OF o60] start_enq [of "alloc_queue q" pos] d(3) o60 n by (simp_all add: ring_m_def)
qed

text \<open>A step that puts an entry into the ring of allocated indices, and one that takes an entry out of it.\<close>

lemma seg_sim_put:
  assumes inv: "pool_inv b q C" and own: "owns (ring_m q) (C i) = Some x" and t: "t < in_clock q"
    and al: "entries al = insert (x, t) (entries (alloc_queue q))" "rtail al = rtail (alloc_queue q)" "rhead al = rhead (alloc_queue q)"
    and pending: "\<And>st. seg_at q a st \<Longrightarrow> \<exists>v lo. st = PPending (Enq v) lo \<and> lo \<le> t \<and> backing q ! x = Some v"
    and ends: "seg_at (q\<lparr>alloc_queue := al\<rparr>) a' (PDone (REnq (Ok ())))"
  shows "seg_sim (2 ^ order (free_queue q)) q a (q\<lparr>alloc_queue := al\<rparr>) a'"
  unfolding seg_sim_def
proof (intro allI impI)
  let ?q = "q\<lparr>alloc_queue := al\<rparr>"
  have "(x, t) \<notin> entries (alloc_queue q)" using pool_invD(10) [OF inv own] by (force simp: indices_entries)
  then have c: "ticketed ?q = add_mset (the (backing q ! x), t) (ticketed q)" by (simp add: ticketed_def al(1))
  fix st
  assume "seg_at q a st"
  then obtain v lo where v: "st = PPending (Enq v) lo" "lo \<le> t" "backing q ! x = Some v" using pending by blast
  have "pool_move (2 ^ order (free_queue q)) (bag_of q) st (bag_of ?q) (PDone (REnq (Ok ())))"
    unfolding c v using pool_move.put [OF room [OF inv own] v(2) t] al(2,3) by simp
  then show "\<exists>st'. seg_at ?q a' st' \<and> pool_move (2 ^ order (free_queue q)) (bag_of q) st (bag_of ?q) st'" using ends by blast
qed

lemma seg_sim_taken:
  assumes x: "(x, h) \<in> entries (alloc_queue q)" "backing q ! x = Some v" and h: "h < out_clock q"
    and al: "entries al = entries (alloc_queue q) - {(x, h)}" "rtail al = rtail (alloc_queue q)" "rhead al = rhead (alloc_queue q)"
    and pending: "\<And>st. seg_at q a st \<Longrightarrow> \<exists>lo. st = PPending Deq lo \<and> lo \<le> h"
    and ends: "seg_at (q\<lparr>alloc_queue := al\<rparr>) a' (PDone (RDeq (Some v)))"
  shows "seg_sim (2 ^ order (free_queue q)) q a (q\<lparr>alloc_queue := al\<rparr>) a'"
  unfolding seg_sim_def
proof (intro allI impI)
  let ?q = "q\<lparr>alloc_queue := al\<rparr>"
  have "mset_set (entries (alloc_queue q)) = add_mset (x, h) (mset_set (entries al))"
    unfolding al(1) using x(1) by (simp add: mset_set.remove)
  then have c: "ticketed q = add_mset (v, h) (ticketed ?q)" using x(2) by (simp add: ticketed_def)
  fix st
  assume "seg_at q a st"
  then obtain lo where lo: "st = PPending Deq lo" "lo \<le> h" using pending by blast
  have "pool_move (2 ^ order (free_queue q)) (bag_of q) st (bag_of ?q) (PDone (RDeq (Some v)))"
    unfolding c lo using pool_move.take_one [OF lo(2) h] al(2,3) by simp
  then show "\<exists>st'. seg_at ?q a' st' \<and> pool_move (2 ^ order (free_queue q)) (bag_of q) st (bag_of ?q) st'" using ends by blast
qed

text \<open>What is shown of a step: the invariant, and the corresponding move of the pool.\<close>

abbreviation moves_pool :: "nat \<Rightarrow> 'a bounded_queue \<Rightarrow> (nat \<Rightarrow> 'a seg_act) \<Rightarrow> nat \<Rightarrow> 'a seg_act \<Rightarrow>
    'a bounded_queue \<Rightarrow> 'a seg_act \<Rightarrow> bool" where
  "moves_pool b q C i a q' a' \<equiv> pool_inv (Suc b) q' (C(i := a')) \<and> seg_sim (2 ^ order (free_queue q)) q a q' a'"

lemma write_pool_step:
  assumes inv: "pool_inv b q C" and i: "C i = SEnq (CWrite sz v pos)"
    and step: "cycle_step fin weak q (CWrite sz v pos) = (q', pc')"
  shows "moves_pool b q C i (SEnq (CWrite sz v pos)) q' (SEnq pc')"
proof
  note d = pool_invD [OF inv]
  have own: "owns (ring_m q) (C i) = Some (unat pos)" using i by simp
  note o = owned_slot [OF inv own]
  have q': "q' = q\<lparr>backing := (backing q)[unat pos := Some v]\<rparr>" "pc' = CAlloc sz pos (EFetch (pos XOR (ring_n (free_queue q) - 1)))"
    using step o(2,4) by (simp_all add: write_slot_def)
  show "pool_inv (Suc b) q' (C(i := SEnq pc'))"
    by (rule pool_local [OF inv])
      (use own o d(3) in \<open>auto simp: q' ring_m_def nth_list_update split: if_splits\<close>)
  show "seg_sim (2 ^ order (free_queue q)) q (SEnq (CWrite sz v pos)) q' (SEnq pc')"
  proof (rule seg_sim_quiet)
    show "backing q' ! x = backing q ! x" if "x \<in> indices (alloc_queue q)" for x
    proof -
      have "x \<noteq> unat pos" using that d(10) [OF own] by auto
      then show ?thesis by (simp add: q')
    qed
  qed (use o in \<open>auto simp: q' ring_m_def waits_def\<close>)
qed

lemma insert_pool_step:
  assumes inv: "pool_inv b q C" and b: "b < 2 ^ 61" and i: "C i = SEnq (CAlloc sz pos rpc)"
    and r: "ring_enqueue_step weak (alloc_queue q) rpc = (al, rpc')"
  shows "moves_pool b q C i (SEnq (CAlloc sz pos rpc)) (q\<lparr>alloc_queue := al\<rparr>) (SEnq (alloc_next fin (bounded_capacity q) sz pos rpc'))"
    (is "_ \<and> seg_sim ?N q ?a ?q ?a'")
proof
  note d = pool_invD [OF inv]
  have m: "Suc (order (alloc_queue q)) = ring_m q" using d(3) by (simp add: ring_m_def)
  have fine: "act_fine q ?a" using d(13) [of i] i by simp
  note pe = pool_enq_alloc [OF inv b i r]
  show "pool_inv (Suc b) ?q (C(i := ?a'))" by (rule pe(1))
  have f: "ring_enq_returned rpc = None" using fine by simp
  have clocks: "rhead al = rhead (alloc_queue q)" "in_clock q \<le> unat (rtail al)"
    "enq_ticket rpc' = Some t \<Longrightarrow> enq_ticket rpc = Some t \<or> t = in_clock q" for t
    using enq_clocks [OF d(2) b r] by simp_all
  have "enq_outcome (alloc_queue q) rpc al rpc'" by (rule pe(2))
  then consider "entries al = entries (alloc_queue q)" "carries (ring_m q) rpc' = carries (ring_m q) rpc" "\<forall>e. rpc' \<noteq> ERet (Err e)"
    | x where "entries al = entries (alloc_queue q)" "carries (ring_m q) rpc = Some x" "rpc' = ERet (Err QueueFinalized)"
    | x t where "carries (ring_m q) rpc = Some x" "enq_ticket rpc = Some t" "t < in_clock q" "rpc' = EThresh"
      "entries al = insert (x, t) (entries (alloc_queue q))"
    unfolding enq_outcome_def m by blast
  then show "seg_sim ?N q ?a ?q ?a'"
  proof cases
    case 1
    have "seg_at ?q ?a' st" if "seg_at q ?a st" for st
      using 1(2,3) that pe(3) clocks
      by (cases "(fin, bounded_capacity q, sz, pos, rpc')" rule: alloc_next.cases) (force simp: ring_m_def split: if_splits)+
    then show ?thesis using 1(1) clocks by (intro seg_sim_quiet) auto
  next
    case (2 x)
    then show ?thesis using clocks by (intro seg_sim_quiet) (auto simp: waits_def)
  next
    case (3 x t)
    have x: "x = unat pos" and own: "owns (ring_m q) (C i) = Some x" using fine i 3(1) by simp_all
    have "rtail al = rtail (alloc_queue q)" "rhead al = rhead (alloc_queue q)"
      using r 3(4) by (cases rpc; auto simp: store_entry_def claim_pc_def Let_def split: if_splits option.splits prod.splits rust_result.splits)+
    then show ?thesis by (rule seg_sim_put [OF inv own 3(3,5)]) (use 3(1,2,4) x in auto)
  qed
qed

lemma remove_pool_step:
  assumes inv: "pool_inv b q C" and b: "b < 2 ^ 61" and i: "C i = SDeq (TAlloc rpc)"
    and r: "ring_dequeue_step weak (alloc_queue q) rpc = (al, rpc')"
  shows "moves_pool b q C i (SDeq (TAlloc rpc)) (q\<lparr>alloc_queue := al\<rparr>) (SDeq (taken_next rpc'))"
    (is "_ \<and> seg_sim ?N q ?a ?q ?a'")
proof
  note d = pool_invD [OF inv]
  note pd = pool_deq_alloc [OF inv b i r]
  show "pool_inv (Suc b) ?q (C(i := ?a'))" by (rule pd(1))
  note clocks = deq_clocks [OF d(2) b _ r, of i]
  show "seg_sim ?N q ?a ?q ?a'"
  proof (cases "\<exists>x. rpc' = DRet (Some x)")
    case True
    then obtain x h where x: "rpc' = DRet (Some x)" "visits (Deqs rpc) = Some h" "h < out_clock q"
      "(unat x, h) \<in> entries (alloc_queue q)" "entries al = entries (alloc_queue q) - {(unat x, h)}"
      using pd(2) by (auto simp: deq_outcome_def)
    have "unat x \<in> indices (alloc_queue q)" using x(4) by (force simp: indices_entries)
    then obtain v where v: "backing q ! unat x = Some v" using d(12) by blast
    have "rtail al = rtail (alloc_queue q)" "rhead al = rhead (alloc_queue q)"
      using r x(1,2) by (cases rpc; auto simp: store_entry_def stale_entry_def Let_def split: if_splits option.splits prod.splits rust_result.splits)+
    then show ?thesis by (rule seg_sim_taken [OF x(4) v x(3,5)]) (use x(1,2) v in auto)
  next
    case False
    then have same: "entries al = entries (alloc_queue q)" using pd(2) by (auto simp: deq_outcome_def)
    have "seg_at ?q ?a' st \<or> seg_at ?q ?a' (PDone (refusal Deq))" if "seg_at q ?a st" for st
      using False pd(3) that clocks i by (cases rpc' rule: taken_next.cases) force+
    then show ?thesis by (intro seg_sim_quiet) (use same clocks i in auto)
  qed
qed

text \<open>A thread that reads the payload of its slot and goes on to give the slot back.\<close>

lemma read_pool_step:
  assumes inv: "pool_inv b q C" and i: "C i = SEnq (CTake pos) \<or> C i = SDeq (TRead pos)"
  obtains v e where "read_slot q pos = Some v" "backing q ! unat pos = Some v"
    "ring_enqueue_start (free_queue q) pos = EFetch e" "pool_inv (Suc b) q (C(i := SEnq (CGive v (EFetch e))))"
    "pool_inv (Suc b) q (C(i := SDeq (TGive v (EFetch e))))"
proof -
  have own: "owns (ring_m q) (C i) = Some (unat pos)" using i by auto
  note o = owned_slot [OF inv own]
  obtain v where v: "backing q ! unat pos = Some v" using pool_invD(13) [OF inv, of i] i by auto
  then have "read_slot q pos = Some v" using o(2) by (simp add: read_slot_def)
  moreover have "pool_inv (Suc b) q (C(i := SEnq (CGive v (EFetch (pos XOR (ring_n (free_queue q) - 1))))))"
    "pool_inv (Suc b) q (C(i := SDeq (TGive v (EFetch (pos XOR (ring_n (free_queue q) - 1))))))"
    by (rule pool_local [OF inv]; use own o in \<open>auto simp: ring_m_def\<close>)+
  ultimately show thesis using that v o(3) by blast
qed

lemma cycle_pool_step:
  fixes q :: "'a bounded_queue"
  assumes inv: "pool_inv b q C" and b: "b < 2 ^ 61" and i: "C i = SEnq pc" "cycle_returned pc = None"
    and step: "cycle_step fin weak q pc = (q', pc')"
  shows "moves_pool b q C i (SEnq pc) q' (SEnq pc')"
proof -
  note d = pool_invD [OF inv]
  have fine: "act_fine q (SEnq pc)" using d(13) [of i] i by simp
  show ?thesis
  proof (cases pc)
    case (CUsed v)
    then show ?thesis
      using step i by (intro conjI pool_local [OF inv] seg_sim_quiet) (auto split: if_splits)
  next
    case (CFull v)
    then show ?thesis
      using step i by (intro conjI pool_local [OF inv] seg_sim_quiet) (auto simp: waits_def)
  next
    case (CFree sz v rpc)
    obtain fr rpc' where r: "ring_dequeue_step weak (free_queue q) rpc = (fr, rpc')" by fastforce
    then have q': "q' = q\<lparr>free_queue := fr\<rparr>" "pc' = free_next sz v rpc'" using step CFree by simp_all
    have inv': "pool_inv (Suc b) q' (C(i := SEnq pc'))"
      unfolding q' by (rule pool_deq_free [OF inv b _ r]) (use i CFree in simp)
    moreover have "seg_at q' (SEnq pc') st" if "waits q v st" for st
      using pool_invD(13) [OF inv', of i] that unfolding q'
      by (cases "(sz, v, rpc')" rule: free_next.cases) (auto simp: waits_def)
    ultimately show ?thesis using CFree q' by (auto intro!: seg_sim_quiet)
  next
    case (CWrite sz v pos)
    then show ?thesis using write_pool_step [OF inv _ step [unfolded CWrite]] i by simp
  next
    case (CAlloc sz pos rpc)
    obtain al rpc' where r: "ring_enqueue_step weak (alloc_queue q) rpc = (al, rpc')" by fastforce
    then show ?thesis using insert_pool_step [OF inv b _ r] step i CAlloc by auto
  next
    case CFinal
    have q': "q' = q\<lparr>alloc_queue := finalize (alloc_queue q)\<rparr>" "pc' = CRet (Ok ())" using step CFinal by simp_all
    have "pool_inv (Suc b) q' (C(i := SEnq pc'))" by (rule pool_local [OF inv]) (use i CFinal q' in simp_all)
    moreover have "seg_sim (2 ^ order (free_queue q)) q (SEnq pc) q' (SEnq pc')"
      by (rule seg_sim_quiet) (use CFinal q' ring_inv_finalize(4) [OF d(2)] in \<open>simp_all add: finalize_def\<close>)
    ultimately show ?thesis by simp
  next
    case (CUnuse pos)
    have q': "q' = q\<lparr>used := used q - 1\<rparr>" "pc' = CTake pos" using step CUnuse by simp_all
    have "pool_inv (Suc b) q' (C(i := SEnq pc'))" by (rule pool_local [OF inv]) (use i CUnuse q' fine in simp_all)
    moreover have "seg_sim (2 ^ order (free_queue q)) q (SEnq pc) q' (SEnq pc')"
      by (rule seg_sim_quiet) (use CUnuse q' in \<open>auto simp: waits_def\<close>)
    ultimately show ?thesis by simp
  next
    case (CTake pos)
    obtain v e where v: "read_slot q pos = Some v" "backing q ! unat pos = Some v" "ring_enqueue_start (free_queue q) pos = EFetch e"
      "pool_inv (Suc b) q (C(i := SEnq (CGive v (EFetch e))))"
      by (rule read_pool_step [OF inv, of i pos]) (use i CTake in auto)
    have q': "q' = q" "pc' = CGive v (EFetch e)" using step CTake v(1,3) by auto
    have "seg_sim (2 ^ order (free_queue q)) q (SEnq pc) q' (SEnq pc')"
      by (rule seg_sim_quiet) (use CTake v(2) q' in auto)
    then show ?thesis using v(4) q' by simp
  next
    case (CGive v rpc)
    obtain fr rpc' where r: "ring_enqueue_step weak (free_queue q) rpc = (fr, rpc')" by fastforce
    then have q': "q' = q\<lparr>free_queue := fr\<rparr>" "pc' = give_next v rpc'" using step CGive by simp_all
    have ci: "free_act (C i) = Enqs rpc" "owns (ring_m q) (C i) = carries (ring_m q) rpc" "ring_enq_returned rpc = None"
      using i CGive fine by simp_all
    note ok = pool_enq_free_ok(3,4) [OF inv b ci r]
    have inv': "pool_inv (Suc b) q' (C(i := SEnq pc'))"
      unfolding q'
      by (rule pool_enq_free [OF inv b ci r]) (use ok in \<open>cases "(v, rpc')" rule: give_next.cases; auto\<close>)+
    have "seg_at q' (SEnq pc') st \<or> seg_at q' (SEnq pc') (PDone (refusal (Enq v)))" if "waits q v st" for st
      using ok that unfolding q' by (cases "(v, rpc')" rule: give_next.cases) (auto simp: waits_def)
    then have "seg_sim (2 ^ order (free_queue q)) q (SEnq pc) q' (SEnq pc')"
      by (intro seg_sim_quiet) (use CGive q'(1) in \<open>auto simp: waits_def\<close>)
    with inv' show ?thesis by simp
  qed (use i fine in simp_all)
qed

lemma take_pool_step:
  fixes q :: "'a bounded_queue"
  assumes inv: "pool_inv b q C" and b: "b < 2 ^ 61" and i: "C i = SDeq pc" "take_returned pc = None"
    and step: "take_step weak q pc = (q', pc')"
  shows "moves_pool b q C i (SDeq pc) q' (SDeq pc')"
proof -
  note d = pool_invD [OF inv]
  have fine: "act_fine q (SDeq pc)" using d(13) [of i] i by simp
  show ?thesis
  proof (cases pc)
    case (TAlloc rpc)
    obtain al rpc' where r: "ring_dequeue_step weak (alloc_queue q) rpc = (al, rpc')" by fastforce
    then show ?thesis using remove_pool_step [OF inv b _ r] step i TAlloc by auto
  next
    case (TUnuse pos)
    have q': "q' = q\<lparr>used := used q - 1\<rparr>" "pc' = TRead pos" using step TUnuse by simp_all
    have "pool_inv (Suc b) q' (C(i := SDeq pc'))" by (rule pool_local [OF inv]) (use i TUnuse q' fine in simp_all)
    moreover have "seg_sim (2 ^ order (free_queue q)) q (SDeq pc) q' (SDeq pc')"
      by (rule seg_sim_quiet) (use TUnuse q' in simp_all)
    ultimately show ?thesis by simp
  next
    case (TRead pos)
    obtain v e where v: "read_slot q pos = Some v" "backing q ! unat pos = Some v" "ring_enqueue_start (free_queue q) pos = EFetch e"
      "pool_inv (Suc b) q (C(i := SDeq (TGive v (EFetch e))))"
      by (rule read_pool_step [OF inv, of i pos]) (use i TRead in auto)
    have q': "q' = q" "pc' = TGive v (EFetch e)" using step TRead v(1,3) by auto
    have "seg_sim (2 ^ order (free_queue q)) q (SDeq pc) q' (SDeq pc')"
      by (rule seg_sim_quiet) (use TRead v(2) q' in auto)
    then show ?thesis using v(4) q' by simp
  next
    case (TGive v rpc)
    obtain fr rpc' where r: "ring_enqueue_step weak (free_queue q) rpc = (fr, rpc')" by fastforce
    then have q': "q' = q\<lparr>free_queue := fr\<rparr>" "pc' = given_next v rpc'" using step TGive by simp_all
    have ci: "free_act (C i) = Enqs rpc" "owns (ring_m q) (C i) = carries (ring_m q) rpc" "ring_enq_returned rpc = None"
      using i TGive fine by simp_all
    note ok = pool_enq_free_ok(3,4) [OF inv b ci r]
    have inv': "pool_inv (Suc b) q' (C(i := SDeq pc'))"
      unfolding q'
      by (rule pool_enq_free [OF inv b ci r]) (use ok in \<open>cases "(v, rpc')" rule: given_next.cases; auto\<close>)+
    have "seg_at q' (SDeq pc') (PDone (RDeq (Some v)))"
      using ok unfolding q' by (cases "(v, rpc')" rule: given_next.cases) auto
    then have "seg_sim (2 ^ order (free_queue q)) q (SDeq pc) q' (SDeq pc')"
      by (intro seg_sim_quiet) (use TGive q'(1) in auto)
    with inv' show ?thesis by simp
  qed (use i fine in simp_all)
qed

text \<open>What a step does not change.\<close>

lemma cycle_step_frame:
  assumes "cycle_step fin weak q pc = (q', pc')"
  shows "order (free_queue q') = order (free_queue q)"
    "owns (ring_m q) (SEnq pc) \<noteq> Some x \<Longrightarrow> backing q' ! x = backing q ! x"
  using assms
  by (cases pc; auto simp: write_slot_def dest!: ring_step_frame split: prod.splits option.splits if_splits)+

lemma take_step_frame:
  assumes "take_step weak q pc = (q', pc')"
  shows "order (free_queue q') = order (free_queue q)" "backing q' = backing q"
  using assms by (cases pc; auto dest!: ring_step_frame split: prod.splits)+

text \<open>Both machines as one.\<close>

fun seg_step :: "bool \<Rightarrow> bool \<Rightarrow> 'a bounded_queue \<Rightarrow> 'a seg_act \<Rightarrow> 'a bounded_queue \<times> 'a seg_act" where
  "seg_step fin weak q SQuiet = (q, SQuiet)"
| "seg_step fin weak q (SEnq pc) = map_prod id SEnq (cycle_step fin weak q pc)"
| "seg_step fin weak q (SDeq pc) = map_prod id SDeq (take_step weak q pc)"

fun seg_running :: "'a seg_act \<Rightarrow> bool" where
  "seg_running (SEnq pc) \<longleftrightarrow> cycle_returned pc = None"
| "seg_running (SDeq pc) \<longleftrightarrow> take_returned pc = None"
| "seg_running SQuiet \<longleftrightarrow> False"

lemma seg_pool_step:
  assumes "pool_inv b q C" "b < 2 ^ 61" "C i = a" "seg_running a" "seg_step fin weak q a = (q', a')"
  shows "pool_inv (Suc b) q' (C(i := a'))" "seg_sim (2 ^ order (free_queue q)) q a q' a'"
    "order (free_queue q') = order (free_queue q)"
    "owns (ring_m q) a \<noteq> Some x \<Longrightarrow> backing q' ! x = backing q ! x"
proof -
  have "pool_inv (Suc b) q' (C(i := a')) \<and> seg_sim (2 ^ order (free_queue q)) q a q' a' \<and>
      order (free_queue q') = order (free_queue q) \<and> (owns (ring_m q) a \<noteq> Some x \<longrightarrow> backing q' ! x = backing q ! x)"
  proof (cases a)
    case (SEnq pc)
    obtain pc' where st: "cycle_step fin weak q pc = (q', pc')" "a' = SEnq pc'"
      using assms(5) SEnq by (cases "cycle_step fin weak q pc") auto
    then show ?thesis
      using cycle_pool_step [OF assms(1,2) _ _ st(1), of i] cycle_step_frame [OF st(1)] assms(3,4) SEnq by auto
  next
    case (SDeq pc)
    obtain pc' where st: "take_step weak q pc = (q', pc')" "a' = SDeq pc'"
      using assms(5) SDeq by (cases "take_step weak q pc") auto
    then show ?thesis
      using take_pool_step [OF assms(1,2) _ _ st(1), of i] take_step_frame [OF st(1)] assms(3,4) SDeq by auto
  qed (use assms(4) in simp)
  then show "pool_inv (Suc b) q' (C(i := a'))" "seg_sim (2 ^ order (free_queue q)) q a q' a'"
    "order (free_queue q') = order (free_queue q)"
    "owns (ring_m q) a \<noteq> Some x \<Longrightarrow> backing q' ! x = backing q ! x" by simp_all
qed

text \<open>What the step of one thread leaves to the others.\<close>

lemma seg_at_other:
  assumes inv: "pool_inv b q C" and step: "b < 2 ^ 61" "C i = a" "seg_running a" "seg_step fin weak q a = (q', a')"
    and clocks: "in_clock q \<le> in_clock q'" "out_clock q \<le> out_clock q'" and j: "j \<noteq> i" "seg_at q (C j) st"
  shows "seg_at q' (C j) st"
proof (rule seg_at_cong [OF j(2) pool_invD(13) [OF inv] _ clocks])
  note st = seg_pool_step [OF inv step]
  show "ring_m q' = ring_m q" using st(3) by (simp add: ring_m_def)
  show "backing q' ! x = backing q ! x" if "owns (ring_m q) (C j) = Some x" for x
    by (rule st(4)) (use that j(1) pool_invD(11) [OF inv, of j x i] step(2) in blast)
qed

section \<open>Where a slot is\<close>

datatype place = FreeRing | AllocRing | HeldBy nat

fun dwells :: "'a bounded_queue \<Rightarrow> (nat \<Rightarrow> 'a seg_act) \<Rightarrow> place \<Rightarrow> nat \<Rightarrow> bool" where
  "dwells q C FreeRing x \<longleftrightarrow> x \<in> indices (free_queue q)"
| "dwells q C AllocRing x \<longleftrightarrow> x \<in> indices (alloc_queue q)"
| "dwells q C (HeldBy i) x \<longleftrightarrow> owns (ring_m q) (C i) = Some x"

lemma pool_dwells:
  assumes "pool_inv b q C" "x < 2 ^ order (free_queue q)"
  shows "\<exists>!p. dwells q C p x"
proof -
  note d = pool_invD [OF assms(1)]
  have "\<exists>p. dwells q C p x" using d(7) [OF assms(2)] dwells.simps by blast
  moreover have "p = p'" if "dwells q C p x" "dwells q C p' x" for p p'
    using that d(6) d(9-11) by (cases p; cases p'; auto)
  ultimately show ?thesis by blast
qed

section \<open>The system\<close>

record 'a bq_sys =
  bq_mem :: "'a bounded_queue"
  bq_threads :: "nat \<Rightarrow> 'a seg_act"

fun bq_start :: "'a fifo_cmd \<Rightarrow> 'a seg_act" where
  "bq_start (Enq v) = SEnq (CUsed v)"
| "bq_start Deq = SDeq take_start"

text \<open>\<open>enqueue\<close> drops the reason of a refusal.\<close>

fun bq_returned :: "'a seg_act \<Rightarrow> 'a fifo_ret option" where
  "bq_returned (SEnq (CRet (Ok u))) = Some (REnq (Ok ()))"
| "bq_returned (SEnq (CRet (Err (v, e)))) = Some (REnq (Err v))"
| "bq_returned (SDeq (TRet r)) = Some (RDeq r)"
| "bq_returned _ = None"

inductive bq_sys_step :: "'a bq_sys \<Rightarrow> 'a fifo_label \<Rightarrow> 'a bq_sys \<Rightarrow> bool" where
  q_call: "bq_threads s i = SQuiet \<Longrightarrow>
    bq_sys_step s (Call i c) (s\<lparr>bq_threads := (bq_threads s)(i := bq_start c)\<rparr>)"
| q_internal: "bq_threads s i \<noteq> SQuiet \<Longrightarrow> bq_returned (bq_threads s i) = None \<Longrightarrow>
    seg_step False weak (bq_mem s) (bq_threads s i) = (q', th') \<Longrightarrow>
    bq_sys_step s Tau (s\<lparr>bq_mem := q', bq_threads := (bq_threads s)(i := th')\<rparr>)"
| q_return: "bq_returned (bq_threads s i) = Some r \<Longrightarrow>
    bq_sys_step s (Return i r) (s\<lparr>bq_threads := (bq_threads s)(i := SQuiet)\<rparr>)"

definition bq_init :: "'a bounded_queue \<Rightarrow> 'a bq_sys" where
  "bq_init q = \<lparr>bq_mem = q, bq_threads = (\<lambda>_. SQuiet)\<rparr>"

record 'a pool_spec =
  pool :: "'a bag"
  pstats :: "nat \<Rightarrow> 'a pool_stat"

inductive pool_step :: "nat \<Rightarrow> 'a pool_spec \<Rightarrow> 'a fifo_label \<Rightarrow> 'a pool_spec \<Rightarrow> bool" for N where
  p_call: "pstats a i = PIdle \<Longrightarrow>
    pool_step N a (Call i c) (a\<lparr>pstats := (pstats a)(i := PPending c (clock c (pool a)))\<rparr>)"
| p_move: "pool_move N (pool a) (pstats a i) P st \<Longrightarrow>
    pool_step N a Tau (a\<lparr>pool := P, pstats := (pstats a)(i := st)\<rparr>)"
| p_return: "pstats a i = PDone r \<Longrightarrow> pool_step N a (Return i r) (a\<lparr>pstats := (pstats a)(i := PIdle)\<rparr>)"

definition pool_init :: "'a pool_spec" where
  "pool_init = \<lparr>pool = ({#}, 0, 0), pstats = (\<lambda>_. PIdle)\<rparr>"

section \<open>The simulation\<close>

definition bq_related :: "nat \<Rightarrow> nat \<Rightarrow> 'a bq_sys \<Rightarrow> 'a pool_spec \<Rightarrow> bool" where
  "bq_related k n s a \<longleftrightarrow> pool_inv (2 ^ 60 + n) (bq_mem s) (bq_threads s) \<and> order (free_queue (bq_mem s)) = k \<and>
     pool a = bag_of (bq_mem s) \<and> (\<forall>i. seg_at (bq_mem s) (bq_threads s i) (pstats a i))"

lemma pool_inv_mono:
  assumes "pool_inv b q C" "b \<le> b'"
  shows "pool_inv b' q C"
  using assms ring_inv_mono [OF _ assms(2)] unfolding pool_inv_def by blast

text \<open>A thread that starts or ends an operation.\<close>

lemma pool_inv_thread:
  assumes "pool_inv b q C" "owns (ring_m q) a = owns (ring_m q) (C i)" "act_fine q a"
    "act_ok b (free_queue q) (free_act a)" "visits (free_act a) = None"
    "act_ok b (alloc_queue q) (alloc_act a)" "visits (alloc_act a) = None"
  shows "pool_inv b q (C(i := a))"
  by (rule pool_local [OF assms(1) order_refl]) (use assms in simp_all)

lemma bq_returned_status:
  assumes "seg_at q a st" "bq_returned a = Some r"
  shows "st = PDone r" "owns m a = None"
  using assms by (induction a rule: bq_returned.induct) auto

lemma bq_step_simulated:
  assumes rel: "bq_related k n s a" and n: "n < 2 ^ 60" and step: "bq_sys_step s l s'"
  shows "\<exists>a'. bq_related k (Suc n) s' a' \<and> (pool_step (2 ^ k) a l a' \<or> l = Tau \<and> a' = a)"
proof -
  let ?q = "bq_mem s" and ?C = "bq_threads s"
  have inv: "pool_inv (2 ^ 60 + n) ?q ?C" and k: "order (free_queue ?q) = k" and pl: "pool a = bag_of ?q"
    and at: "seg_at ?q (?C i) (pstats a i)" for i
    using rel by (auto simp: bq_related_def)
  have b: "2 ^ 60 + n < 2 ^ 61" using n by simp
  note fine = pool_invD(13) [OF inv]
  from step show ?thesis
  proof cases
    case (q_call i c)
    have "pool_inv (2 ^ 60 + n) ?q (?C(i := bq_start c))"
      using q_call(3) by (intro pool_inv_thread [OF inv]) (cases c; simp)+
    moreover have "seg_at ?q (bq_start c) (PPending c (clock c (pool a)))" by (cases c) (simp_all add: pl waits_def)
    moreover have "pstats a i = PIdle" using at [of i] q_call(3) by simp
    ultimately show ?thesis
      using q_call(1,2) k pl at p_call [of a i "2 ^ k" c] pool_inv_mono [of "2 ^ 60 + n" ?q _ "2 ^ 60 + Suc n"]
      by (intro exI [of _ "a\<lparr>pstats := (pstats a)(i := PPending c (clock c (pool a)))\<rparr>"]) (auto simp: bq_related_def)
  next
    case (q_internal i weak q' th')
    have running: "seg_running (?C i)"
      using q_internal(3,4) by (cases "?C i" rule: bq_returned.cases) auto
    note st = seg_pool_step [OF inv b refl running q_internal(5)]
    obtain st' where st': "seg_at q' th' st'" "pool_move (2 ^ k) (bag_of ?q) (pstats a i) (bag_of q') st'"
      using at [of i] st(2) k unfolding seg_sim_def by blast
    from st'(2) have clocks: "in_clock ?q \<le> in_clock q'" "out_clock ?q \<le> out_clock q'" by (cases; simp)+
    have others: "seg_at q' (?C j) (pstats a j)" if "j \<noteq> i" for j
      by (rule seg_at_other [OF inv b refl running q_internal(5) clocks that at])
    have main: "pool_inv (2 ^ 60 + Suc n) q' (?C(i := th'))" "order (free_queue q') = k" using st(1,3) k by simp_all
    let ?a = "a\<lparr>pool := bag_of q', pstats := (pstats a)(i := st')\<rparr>"
    have "bq_related k (Suc n) s' ?a" using main st'(1) others q_internal(2) by (simp add: bq_related_def)
    moreover have "pool_step (2 ^ k) a Tau ?a" using st'(2) p_move [of "2 ^ k" a i] pl by simp
    ultimately show ?thesis using q_internal(1) by blast
  next
    case (q_return i r)
    have r: "pstats a i = PDone r" "owns (ring_m ?q) (?C i) = None"
      using bq_returned_status [OF at q_return(3)] by simp_all
    have "pool_inv (2 ^ 60 + n) ?q (?C(i := SQuiet))" using r(2) by (intro pool_inv_thread [OF inv]) simp_all
    then show ?thesis
      using q_return(1,2) k pl at p_return [OF r(1), of "2 ^ k"] pool_inv_mono [of "2 ^ 60 + n" ?q _ "2 ^ 60 + Suc n"]
      by (intro exI [of _ "a\<lparr>pstats := (pstats a)(i := PIdle)\<rparr>"]) (auto simp: bq_related_def)
  qed
qed

section \<open>New queues\<close>

text \<open>The queues that \<open>const_queue!\<close> and \<open>AllocBoundedQueue::new\<close> create, with \<open>2 ^ k\<close> slots.\<close>

definition bounded_created :: "nat \<Rightarrow> 'a bounded_queue \<Rightarrow> bool" where
  "bounded_created k q \<longleftrightarrow> k \<le> 60 \<and> const_queue (2 ^ k) = Some q \<or>
     (\<exists>sz. 0 < sz \<and> sz < 2 ^ 61 \<and> k = ilog2 sz \<and> alloc_bounded_new 0 sz = Some q)"

lemma new_pool_inv:
  assumes r: "ring_ok al 0 []" "order al = k" "ring_ok fr 0 [0..<2 ^ k]" "order fr = k" "not_final fr" and len: "2 ^ k \<le> len"
  defines "q \<equiv> \<lparr>backing = replicate len None, free_queue = fr, alloc_queue = al, used = 0\<rparr>"
  shows "pool_inv (2 ^ 60) q (\<lambda>_. SQuiet)" "bag_of q = ({#}, 0, 0)" "order (free_queue q) = k"
proof -
  have k: "k \<le> 60" using ring_okD(1) [OF r(1)] r(2) by simp
  have big: "(2 :: nat) ^ k \<le> 2 ^ 60" using k by (intro power_increasing) auto
  note al = new_ring_inv [OF r(1)] and fr = new_ring_inv [OF r(3)]
  have i: "indices al = {}" "indices fr = {..<2 ^ k}" using al(2) fr(2) big by auto
  show "pool_inv (2 ^ 60) q (\<lambda>_. SQuiet)"
    using al(1) fr(1) r(2,4,5) len big i by (simp add: pool_inv_def q_def)
  show "bag_of q = ({#}, 0, 0)" "order (free_queue q) = k" using i(1) r(4) al(3,4) by (simp_all add: ticketed_def indices_entries q_def)
qed

lemma alloc_created:
  assumes "0 < sz" "sz < 2 ^ 61" "alloc_bounded_new mode sz = Some q"
  shows "pool_inv (2 ^ 60) q (\<lambda>_. SQuiet)" "bag_of q = ({#}, 0, 0)" "order (free_queue q) = ilog2 sz"
proof -
  let ?k = "ilog2 sz"
  note b = ilog2_bounds [OF assms(1)]
  have "(2 :: nat) ^ ?k < 2 ^ 61" using b assms(2) by (blast intro: le_less_trans)
  then have "?k < 61" by (rule power_less_imp_less_exp [rotated]) simp
  then have k: "?k \<le> 60" by simp
  have r: "ring_ok (new_alloc_ring_empty mode ?k) 0 []" "order (new_alloc_ring_empty mode ?k) = ?k"
    "ring_ok (new_alloc_ring_full mode ?k) 0 [0..<2 ^ ?k]" "order (new_alloc_ring_full mode ?k) = ?k"
    "not_final (new_alloc_ring_full mode ?k)"
    using new_rings [OF k, of mode] alloc_rings [of mode ?k] by (auto simp: not_final_def)
  have "q = \<lparr>backing = replicate (2 * sz) None, free_queue = new_alloc_ring_full mode ?k,
      alloc_queue = new_alloc_ring_empty mode ?k, used = 0\<rparr>"
    using assms by (auto simp: alloc_bounded_new_def determine_order_def checked_ilog2_def split: if_splits)
  then show "pool_inv (2 ^ 60) q (\<lambda>_. SQuiet)" "bag_of q = ({#}, 0, 0)" "order (free_queue q) = ?k"
    using new_pool_inv [OF r, of "2 * sz"] b by simp_all
qed

lemma created_inv:
  assumes "bounded_created k q"
  shows "pool_inv (2 ^ 60) q (\<lambda>_. SQuiet)" "bag_of q = ({#}, 0, 0)" "order (free_queue q) = k"
proof -
  have "pool_inv (2 ^ 60) q (\<lambda>_. SQuiet) \<and> bag_of q = ({#}, 0, 0) \<and> order (free_queue q) = k"
    using assms unfolding bounded_created_def
  proof (elim disjE conjE exE)
    assume k: "k \<le> 60" and q: "const_queue (2 ^ k) = Some q"
    obtain al fr where r: "new_const_ring_empty 0 (2 ^ Suc k) = Some al" "ring_ok al 0 []" "order al = k"
      "new_const_ring_full 0 (2 ^ Suc k) = Some fr" "ring_ok fr 0 [0..<2 ^ k]" "order fr = k" "not_final fr"
      using new_rings [OF k, of 0] by (auto simp: not_final_def)
    have "(2 :: nat) ^ k mod 2 = 0 \<or> (2 :: nat) ^ k = 1" by (cases k) auto
    moreover have "(2 :: nat) ^ k * 2 = 2 ^ Suc k" "(2 :: nat) ^ Suc k mod 2 = 0" by simp_all
    ultimately have "q = \<lparr>backing = replicate (2 ^ Suc k) None, free_queue = fr, alloc_queue = al, used = 0\<rparr>"
      using q r(1,4) by (simp add: const_queue_def bounded_new_const_def del: power_Suc)
    then show ?thesis using new_pool_inv [OF r(2,3,5,6,7), of "2 ^ Suc k"] by simp
  next
    fix sz :: nat
    assume "0 < sz" "sz < 2 ^ 61" "k = ilog2 sz" "alloc_bounded_new 0 sz = Some q"
    then show ?thesis using alloc_created [of sz 0 q] by simp
  qed
  then show "pool_inv (2 ^ 60) q (\<lambda>_. SQuiet)" "bag_of q = ({#}, 0, 0)" "order (free_queue q) = k" by simp_all
qed

interpretation bs: bounded_simulation bq_sys_step "pool_step (2 ^ k)" "bq_related k"
    "\<lambda>s. \<exists>q. bounded_created k q \<and> s = bq_init q" pool_init "2 ^ 60" for k
proof
  show "bq_related k 0 s pool_init" if "\<exists>q. bounded_created k q \<and> s = bq_init q" for s :: "'a bq_sys"
    using that created_inv by (force simp: bq_related_def bq_init_def pool_init_def)
qed (rule bq_step_simulated)

section \<open>Accounts\<close>

fun given_in :: "'a fifo_label \<Rightarrow> 'a multiset" where
  "given_in (Call i (Enq v)) = {#v#}"
| "given_in _ = {#}"

fun given_out :: "'a fifo_label \<Rightarrow> 'a multiset" where
  "given_out (Return i (REnq (Err v))) = {#v#}"
| "given_out (Return i (RDeq (Some v))) = {#v#}"
| "given_out _ = {#}"

fun in_hand :: "'a pool_stat \<Rightarrow> 'a multiset" where
  "in_hand (PPending (Enq v) lo) = {#v#}"
| "in_hand (PDone (REnq (Err v))) = {#v#}"
| "in_hand (PDone (RDeq (Some v))) = {#v#}"
| "in_hand _ = {#}"

definition stored_in :: "'a pool_spec \<Rightarrow> 'a multiset" where
  "stored_in a = image_mset fst (fst (pool a))"

lemma in_hand_done: "in_hand (PDone r) = given_out (Return i r)"
  by (cases "Return i r :: 'a fifo_label" rule: given_out.cases) simp_all

interpretation pb: balance_sheet "pool_step N" pool_init given_in given_out stored_in pstats PIdle in_hand for N
proof
  fix a a' :: "'a pool_spec" and l
  assume "pool_step N a l a'"
  then show "\<exists>i x. given_in l + stored_in a + in_hand (pstats a i) = given_out l + stored_in a' + in_hand x \<and>
      pstats a' = (pstats a)(i := x)"
  proof cases
    case (p_call i c)
    then show ?thesis by (intro exI [of _ i] exI [of _ "PPending c (clock c (pool a))"]) (cases c; simp add: stored_in_def)
  next
    case (p_move i P st)
    from p_move(3) show ?thesis
      using p_move(1,2)
    proof cases
      case (refused T T' H H' P' c lo)
      then show ?thesis using p_move(1,2) by (intro exI [of _ i] exI [of _ st]) (cases c; simp add: stored_in_def)
    qed (auto intro!: exI [of _ i] exI [of _ st] simp: stored_in_def)
  next
    case (p_return i r)
    then show ?thesis by (intro exI [of _ i] exI [of _ PIdle]) (auto simp: in_hand_done stored_in_def)
  qed
qed (simp_all add: pool_init_def stored_in_def)

section \<open>Schedules\<close>

fun bq_sched :: "'a bq_sys \<Rightarrow> ('a fifo_cmd, bool) move \<Rightarrow> ('a fifo_label \<times> 'a bq_sys) option" where
  "bq_sched s (MCall i c) =
     (case bq_threads s i of
        SQuiet \<Rightarrow> Some (Call i c, s\<lparr>bq_threads := (bq_threads s)(i := bq_start c)\<rparr>)
      | _ \<Rightarrow> None)"
| "bq_sched s (MStep i weak) =
     (case bq_threads s i of
        SQuiet \<Rightarrow> None
      | th \<Rightarrow> (case bq_returned th of
          Some r \<Rightarrow> None
        | None \<Rightarrow> (case seg_step False weak (bq_mem s) th of
            (q', th') \<Rightarrow> Some (Tau, s\<lparr>bq_mem := q', bq_threads := (bq_threads s)(i := th')\<rparr>))))"
| "bq_sched s (MReturn i) =
     (case bq_returned (bq_threads s i) of
        Some r \<Rightarrow> Some (Return i r, s\<lparr>bq_threads := (bq_threads s)(i := SQuiet)\<rparr>)
      | None \<Rightarrow> None)"

lemma bq_sched_sound: "bq_sched s m = Some (l, s') \<Longrightarrow> bq_sys_step s l s'"
  by (cases m) (auto split: seg_act.splits option.splits prod.splits intro: bq_sys_step.intros)

definition steps_of :: "nat \<Rightarrow> nat \<Rightarrow> ('a fifo_cmd, bool) move list" where
  "steps_of i n = replicate n (MStep i False)"

definition bq_run_with :: "nat \<Rightarrow> (nat fifo_cmd, bool) move list \<Rightarrow>
    (nat fifo_label list \<Rightarrow> nat bq_sys \<Rightarrow> bool) \<Rightarrow> bool" where
  "bq_run_with sz ms P = (case const_queue sz of
     None \<Rightarrow> False
   | Some q \<Rightarrow> (case sched_run bq_sched (bq_init q) ms of None \<Rightarrow> False | Some (ls, s) \<Rightarrow> P ls s))"

lemma bq_run_withE:
  assumes "bq_run_with sz ms P" "sz = 2 ^ k" "k \<le> 60"
  obtains q ls s where "bounded_created k q" "sched_run bq_sched (bq_init q) ms = Some (ls, s)"
    "exec bq_sys_step (bq_init q) ls s" "P ls s"
proof -
  obtain q ls s where r: "const_queue sz = Some q" "sched_run bq_sched (bq_init q) ms = Some (ls, s)" "P ls s"
    using assms(1) by (auto simp: bq_run_with_def split: option.splits)
  moreover have "bounded_created k q" using r(1) assms(2,3) by (simp add: bounded_created_def)
  ultimately show thesis using that sched_run_exec [where f = bq_sched and step = bq_sys_step] bq_sched_sound by blast
qed

text \<open>On a queue of capacity two: thread 0 has stored 7 but not returned, thread 1 has stored 8, thread 2 has taken
  the index of 7 and not yet read it; thread 1 is refused with 9; then all return.\<close>

definition overlap_moves :: "(nat fifo_cmd, bool) move list" where
  "overlap_moves = [MCall 0 (Enq 7)] @ steps_of 0 9 @ [MCall 1 (Enq 8)] @ steps_of 1 11 @ [MReturn 1, MCall 2 Deq] @
     steps_of 2 5 @ [MCall 1 (Enq 9)] @ steps_of 1 19"

definition overlap_end :: "(nat fifo_cmd, bool) move list" where
  "overlap_end = [MReturn 1] @ steps_of 2 6 @ [MReturn 2] @ steps_of 0 1 @ [MReturn 0]"

definition overlap_history :: "nat fifo_label list" where
  "overlap_history = [Call 0 (Enq 7), Call 1 (Enq 8), Return 1 (REnq (Ok ())), Call 2 Deq, Call 1 (Enq 9),
     Return 1 (REnq (Err 9)), Return 2 (RDeq (Some 7)), Return 0 (REnq (Ok ()))]"

lemma overlap_middle: "bq_run_with 2 overlap_moves (\<lambda>ls s. bq_threads s 2 = SDeq (TRead 0) \<and>
    bq_threads s 1 = SEnq (CRet (Err (9, ErrQueueFull))) \<and> length ls < 100)"
  by code_simp

lemma overlap_result: "bq_run_with 2 (overlap_moves @ overlap_end) (\<lambda>ls s. history ls = overlap_history \<and>
    map (bq_threads s) [0, 1, 2] = [SQuiet, SQuiet, SQuiet] \<and> length ls < 100)"
  by code_simp

lemma bq_sched_other: "bq_sched s m = Some (l, s') \<Longrightarrow> i \<noteq> mover m \<Longrightarrow> bq_threads s' i = bq_threads s i"
  by (cases m) (auto split: seg_act.splits option.splits prod.splits)

lemma bq_run_other:
  "sched_run bq_sched s ms = Some (ls, s') \<Longrightarrow> i \<notin> mover ` set ms \<Longrightarrow> bq_threads s' i = bq_threads s i"
  by (rule sched_run_frame [where view = "\<lambda>s. bq_threads s i", OF bq_sched_other])

lemma overlap_done:
  obtains q ls s where "bounded_created 1 q" "exec bq_sys_step (bq_init q) ls s" "length ls \<le> 2 ^ 60"
    "history ls = overlap_history" "\<forall>i. bq_threads s i = SQuiet"
proof -
  obtain q ls s where r: "bounded_created 1 q" "sched_run bq_sched (bq_init q) (overlap_moves @ overlap_end) = Some (ls, s)"
    "exec bq_sys_step (bq_init q) ls s" "history ls = overlap_history \<and>
       bq_threads s 0 = SQuiet \<and> bq_threads s (Suc 0) = SQuiet \<and> bq_threads s 2 = SQuiet \<and> length ls < 100"
    by (rule bq_run_withE [OF overlap_result, of 1]) auto
  have "bq_threads s i = SQuiet" for i
  proof (cases "i \<in> {0, 1, 2}")
    case False
    then have "i \<notin> mover ` set (overlap_moves @ overlap_end)" by (auto simp: overlap_moves_def overlap_end_def steps_of_def)
    from bq_run_other [OF r(2) this] show ?thesis by (simp add: bq_init_def)
  qed (use r(4) in auto)
  then show thesis using that [of q ls s] r by simp
qed

section \<open>Properties\<close>

text \<open>C19: Under any interleaving, every history of the bounded queue is one of a pool of at most \<open>2 ^ k\<close> elements
  whose operations take effect in one step or are refused without effect: every dequeued element is one that was
  enqueued, no element is delivered twice, no more than the capacity are stored, and a \<open>dequeue\<close> takes only an
  element whose ticket it has drawn, from clocks that never run backwards.\<close>

theorem bounded_pool_linear:
  assumes "bounded_created k q" "exec bq_sys_step (bq_init q) ls s" "length ls \<le> 2 ^ 60"
  shows "\<exists>ls' a. exec (pool_step (2 ^ k)) pool_init ls' a \<and> history ls' = history ls"
  using bs.histories_included [OF assms(2) _ assms(3)] assms(1) by blast

theorem bounded_pool_linear_witness:
  "\<exists>ls a. exec (pool_step 2) pool_init ls a \<and> history ls = overlap_history"
proof -
  obtain q ls s where r: "bounded_created 1 q" "exec bq_sys_step (bq_init q) ls s" "length ls \<le> 2 ^ 60"
    "history ls = overlap_history" by (rule overlap_done)
  from bounded_pool_linear [OF r(1-3)] r(4) show ?thesis by simp
qed

lemma reachable_pool_inv:
  assumes "bounded_created k q" "exec bq_sys_step (bq_init q) ls s" "length ls \<le> 2 ^ 60"
  obtains ls' a where "exec (pool_step (2 ^ k)) pool_init ls' a" "history ls' = history ls"
    "bq_related k (length ls) s a"
  using bs.exec_related [OF assms(2) _ assms(3)] assms(1) by blast

text \<open>C21: Exclusive access under any interleaving. Every slot below the capacity is in the ring of
  free indices, in the ring of allocated indices or owned by a thread, and in one of these only; no two threads own
  the same slot; the slots of allocated indices are initialised; no thread meets an uninitialised slot, an index
  out of range or a refusal of a ring that cannot be full.\<close>

theorem bounded_threads_safe:
  assumes "bounded_created k q0" "exec bq_sys_step (bq_init q0) ls s" "length ls \<le> 2 ^ 60"
  defines "q \<equiv> bq_mem s"
  shows "(\<forall>x < 2 ^ k. \<exists>!p. dwells q (bq_threads s) p x) \<and>
    (\<forall>x \<in> indices (alloc_queue q). x < 2 ^ k \<and> backing q ! x \<noteq> None) \<and>
    (\<forall>i. bq_threads s i \<noteq> SEnq CPanic \<and> bq_threads s i \<noteq> SDeq TPanic)"
proof -
  obtain ls' and a :: "'a pool_spec" where r: "bq_related k (length ls) s a"
    by (rule reachable_pool_inv [OF assms(1-3)])
  have inv: "pool_inv (2 ^ 60 + length ls) q (bq_threads s)" and k: "order (free_queue q) = k"
    using r by (simp_all add: bq_related_def q_def)
  note d = pool_invD [OF inv]
  have "bq_threads s i \<noteq> SEnq CPanic \<and> bq_threads s i \<noteq> SDeq TPanic" for i using d(13) [of i] by auto
  moreover have "x < 2 ^ k" if "x \<in> indices (alloc_queue q)" for x using index_in_ring [OF d(2) that] d(3) k by simp
  ultimately show ?thesis using pool_dwells [OF inv] d(12) k by blast
qed

theorem bounded_threads_safe_witness:
  "\<exists>q ls s. bounded_created 1 (q :: nat bounded_queue) \<and> exec bq_sys_step (bq_init q) ls s \<and> bq_threads s 2 = SDeq (TRead 0) \<and>
     0 \<notin> indices (free_queue (bq_mem s)) \<and> 0 \<notin> indices (alloc_queue (bq_mem s))"
proof -
  obtain q ls and s :: "nat bq_sys" where r: "bounded_created 1 q" "exec bq_sys_step (bq_init q) ls s" "bq_threads s 2 = SDeq (TRead 0) \<and>
      bq_threads s (Suc 0) = SEnq (CRet (Err (9, ErrQueueFull))) \<and> length ls < 100"
    by (rule bq_run_withE [OF overlap_middle, of 1]) auto
  from bounded_threads_safe [OF r(1,2)] r(3) have "\<exists>!p. dwells (bq_mem s) (bq_threads s) p 0" by simp
  moreover have "dwells (bq_mem s) (bq_threads s) (HeldBy 2) 0" using r(3) by simp
  ultimately have "\<not> dwells (bq_mem s) (bq_threads s) FreeRing 0" "\<not> dwells (bq_mem s) (bq_threads s) AllocRing 0" by blast+
  then have "0 \<notin> indices (free_queue (bq_mem s))" "0 \<notin> indices (alloc_queue (bq_mem s))" by simp_all
  with r show ?thesis by blast
qed

text \<open>C22: Nothing is lost. When no operation is under way, the elements passed to the operations of a run are those that
  came back and those stored in the slots of allocated indices.\<close>

theorem bounded_conserves:
  assumes "bounded_created k q" "exec bq_sys_step (bq_init q) ls s" "length ls \<le> 2 ^ 60"
    and quiet: "\<And>i. bq_threads s i = SQuiet"
  shows "sum_list (map given_in ls) = sum_list (map given_out ls) + contents_of (bq_mem s)"
proof -
  obtain ls' and a :: "'a pool_spec" where r: "exec (pool_step (2 ^ k)) pool_init ls' a" "history ls' = history ls"
    "bq_related k (length ls) s a" by (rule reachable_pool_inv [OF assms(1-3)])
  have idle: "pstats a i = PIdle" for i
    using r(3) quiet [of i] by (auto simp: bq_related_def dest: spec [of _ i])
  have books: "sum_list (map f ls') = sum_list (map f ls)" if "f Tau = {#}" for f :: "'a fifo_label \<Rightarrow> 'a multiset"
    using sum_list_map_history [of f ls, OF that] sum_list_map_history [of f ls', OF that] r(2) by simp
  obtain m where m: "\<And>n. n \<ge> m \<Longrightarrow> sum_list (map given_in ls') = sum_list (map given_out ls') + stored_in a + (\<Sum>j<n. in_hand (pstats a j))"
    using pb.balance [OF r(1)] by auto
  have "stored_in a = contents_of (bq_mem s)"
    using r(3) ticketed_contents by (auto simp: bq_related_def stored_in_def)
  with m [of m] show ?thesis using idle by (simp add: books)
qed

theorem bounded_conserves_witness:
  "\<exists>q ls s. bounded_created 1 q \<and> exec bq_sys_step (bq_init q) ls s \<and> history ls = overlap_history \<and>
     contents_of (bq_mem s) = {#8#}"
proof -
  obtain q ls and s :: "nat bq_sys" where r: "bounded_created 1 q" "exec bq_sys_step (bq_init q) ls s" "length ls \<le> 2 ^ 60"
    "history ls = overlap_history" "\<forall>i. bq_threads s i = SQuiet" by (rule overlap_done)
  have books: "sum_list (map f ls) = sum_list (map f overlap_history)" if "f Tau = {#}" for f :: "nat fifo_label \<Rightarrow> nat multiset"
    using sum_list_map_history [of f ls, OF that] r(4) by simp
  from bounded_conserves [OF r(1-3)] r(5) have "contents_of (bq_mem s) = {#8#}"
    by (simp add: books overlap_history_def)
  with r show ?thesis by blast
qed

end
