(* ===== verification/Scq_Order.thy ===== *)
theory Scq_Order
  imports Scq_Linear "HOL-Library.Sublist"
begin

text \<open>
  First-in first-out order of the bounded queue of \<open>lfqueue\<close> under any number of threads: each consumer gets the
  elements of each producer in the order in which that producer enqueued them. The order is proved of the
  pool with tickets, with the tickets of all elements accepted and delivered so far as ghosts: each
  producer draws rising tickets, and so does each consumer.
\<close>

section \<open>What a thread enqueues and dequeues\<close>

fun offers :: "nat \<Rightarrow> 'a fifo_label \<Rightarrow> 'a list" where
  "offers i (Call k (Enq v)) = (if k = i then [v] else [])"
| "offers i _ = []"

fun obtains_by :: "nat \<Rightarrow> 'a fifo_label \<Rightarrow> 'a list" where
  "obtains_by j (Return k (RDeq (Some v))) = (if k = j then [v] else [])"
| "obtains_by j _ = []"

definition enqueued_by :: "nat \<Rightarrow> 'a fifo_label list \<Rightarrow> 'a list" where
  "enqueued_by i ls = concat (map (offers i) ls)"

definition dequeued_by :: "nat \<Rightarrow> 'a fifo_label list \<Rightarrow> 'a list" where
  "dequeued_by j ls = concat (map (obtains_by j) ls)"

lemma by_history [simp]: "enqueued_by i (history ls) = enqueued_by i ls" "dequeued_by j (history ls) = dequeued_by j ls"
  by (induction ls) (auto simp: enqueued_by_def dequeued_by_def)

lemma by_snoc [simp]:
  "enqueued_by i [] = []" "enqueued_by i (ls @ [l]) = enqueued_by i ls @ offers i l"
  "dequeued_by j [] = []" "dequeued_by j (ls @ [l]) = dequeued_by j ls @ obtains_by j l"
  by (simp_all add: enqueued_by_def dequeued_by_def)

text \<open>The element that an operation under way may still insert, and the one that it will return.\<close>

fun to_put :: "'a pool_stat \<Rightarrow> 'a list" where
  "to_put (PPending (Enq v) lo) = [v]"
| "to_put _ = []"

fun to_get :: "'a pool_stat \<Rightarrow> 'a list" where
  "to_get (PDone (RDeq (Some v))) = [v]"
| "to_get _ = []"

lemma to_get_done: "to_get (PDone r) = obtains_by j (Return j r)" "k \<noteq> j \<Longrightarrow> obtains_by k (Return j r) = []"
proof -
  have "to_get (PDone r) = obtains_by j (Return j r) \<and> (k \<noteq> j \<longrightarrow> obtains_by k (Return j r) = [])"
  proof (cases r)
    case (RDeq x)
    then show ?thesis by (cases x) auto
  qed simp
  then show "to_get (PDone r) = obtains_by j (Return j r)" "k \<noteq> j \<Longrightarrow> obtains_by k (Return j r) = []" by simp_all
qed

section \<open>Rising tickets\<close>

abbreviation rising :: "('a \<times> nat) list \<Rightarrow> bool" where
  "rising \<equiv> sorted_wrt (\<lambda>x y. snd x < snd y)"

lemma rising_subseq:
  assumes "rising xs" "rising ys" "set xs \<subseteq> set ys"
  shows "subseq xs ys"
  using assms
proof (induction ys arbitrary: xs)
  case (Cons y ys)
  show ?case
  proof (cases xs)
    case (Cons x xs')
    show ?thesis
    proof (cases "x = y")
      case True
      have "y \<notin> set xs'" using Cons.prems(1) Cons True by auto
      then have "subseq xs' ys" using Cons.prems Cons True by (intro Cons.IH) auto
      then show ?thesis using Cons True by simp
    next
      case False
      then have "snd y < snd x" using Cons.prems(2,3) Cons by auto
      then have "y \<notin> set xs" using Cons.prems(1) Cons False by auto
      then have "subseq xs ys" using Cons.prems by (intro Cons.IH) auto
      then show ?thesis by (rule list_emb_Cons)
    qed
  qed simp
qed simp

definition below :: "nat \<Rightarrow> ('a \<times> nat) list \<Rightarrow> bool" where
  "below n xs \<longleftrightarrow> (\<forall>x \<in> set xs. snd x < n)"

lemma below_mono: "below m xs \<Longrightarrow> m \<le> n \<Longrightarrow> below n xs"
  by (auto simp: below_def)

lemma rising_snoc: "rising xs \<Longrightarrow> below lo xs \<Longrightarrow> lo \<le> t \<Longrightarrow> rising (xs @ [(v, t)])"
  by (auto simp: below_def sorted_wrt_append)

text \<open>The tickets drawn by an operation under way come after those that its thread has used before.\<close>

fun draws_after :: "'a pool_stat \<Rightarrow> ('a \<times> nat) list \<Rightarrow> ('a \<times> nat) list \<Rightarrow> bool" where
  "draws_after (PPending (Enq v) lo) S R \<longleftrightarrow> below lo S"
| "draws_after (PPending Deq lo) S R \<longleftrightarrow> below lo R"
| "draws_after _ S R \<longleftrightarrow> True"

definition logged :: "('a \<Rightarrow> nat) \<Rightarrow> (nat \<Rightarrow> ('a \<times> nat) list) \<Rightarrow> 'a \<times> nat \<Rightarrow> bool" where
  "logged from S x \<longleftrightarrow> x \<in> set (S (from (fst x)))"

lemma accepted_before: "subseq (map fst xs @ ys) zs \<Longrightarrow> subseq (map fst xs) zs"
  by (rule subseq_order.trans [OF prefix_imp_subseq]) auto

lemma subseq_set: "subseq xs ys \<Longrightarrow> set xs \<subseteq> set ys"
  by (auto dest: list_emb_set)

section \<open>Order in the pool\<close>

text \<open>\<open>S i\<close> are the elements of thread \<open>i\<close> accepted so far, \<open>R j\<close> those delivered to thread \<open>j\<close>, with their tickets.\<close>

definition ticket_order :: "('a \<Rightarrow> nat) \<Rightarrow> 'a fifo_label list \<Rightarrow> 'a pool_spec \<Rightarrow>
    (nat \<Rightarrow> ('a \<times> nat) list) \<Rightarrow> (nat \<Rightarrow> ('a \<times> nat) list) \<Rightarrow> bool" where
  "ticket_order from ls a S R \<longleftrightarrow>
     (\<forall>i. rising (S i) \<and> below (fst (snd (pool a))) (S i) \<and> rising (R i) \<and> below (snd (snd (pool a))) (R i) \<and>
        draws_after (pstats a i) (S i) (R i) \<and>
        subseq (map fst (S i) @ to_put (pstats a i)) (enqueued_by i ls) \<and>
        map fst (R i) = dequeued_by i ls @ to_get (pstats a i) \<and> (\<forall>x \<in> set (R i). logged from S x)) \<and>
     (\<forall>x \<in># fst (pool a). logged from S x)"

lemma ticket_orderI:
  assumes "\<And>i. rising (S i)" "\<And>i. below (fst (snd (pool a))) (S i)" "\<And>i. rising (R i)"
    "\<And>i. below (snd (snd (pool a))) (R i)" "\<And>i. draws_after (pstats a i) (S i) (R i)"
    "\<And>i. subseq (map fst (S i) @ to_put (pstats a i)) (enqueued_by i ls)"
    "\<And>i. map fst (R i) = dequeued_by i ls @ to_get (pstats a i)" "\<And>i x. x \<in> set (R i) \<Longrightarrow> logged from S x"
    "\<And>x. x \<in># fst (pool a) \<Longrightarrow> logged from S x"
  shows "ticket_order from ls a S R"
  using assms by (simp add: ticket_order_def)

lemma ticket_orderD:
  assumes "ticket_order from ls a S R"
  shows "rising (S i)" "below (fst (snd (pool a))) (S i)" "rising (R i)" "below (snd (snd (pool a))) (R i)"
    "draws_after (pstats a i) (S i) (R i)" "subseq (map fst (S i) @ to_put (pstats a i)) (enqueued_by i ls)"
    "map fst (R i) = dequeued_by i ls @ to_get (pstats a i)" "x \<in> set (R i) \<Longrightarrow> logged from S x"
    "x \<in># fst (pool a) \<Longrightarrow> logged from S x"
  using assms by (simp_all add: ticket_order_def)

lemma ticket_order_step:
  assumes ord: "ticket_order from ls a S R" and step: "pool_step N a l a'"
    and tags: "\<And>i v. v \<in> set (enqueued_by i ls) \<Longrightarrow> from v = i"
  shows "\<exists>S' R'. ticket_order from (ls @ [l]) a' S' R'"
proof -
  note d = ticket_orderD [OF ord]
  from step show ?thesis
  proof cases
    case (p_call i c)
    have "draws_after (PPending c (clock c (pool a))) (S i) (R i)"
      using d(2,4) [of i] by (cases c; cases "pool a") auto
    moreover have "subseq (map fst (S i) @ to_put (PPending c (clock c (pool a)))) (enqueued_by i ls @ offers i l)"
      using d(6) [of i] p_call(1,3) by (cases c) auto
    moreover have "offers k l = []" if "k \<noteq> i" for k using that p_call(1) by (cases c) auto
    ultimately have "ticket_order from (ls @ [l]) a' S R"
      using p_call d by (intro ticket_orderI) (auto split: if_splits)
    then show ?thesis by blast
  next
    case (p_return i r)
    have "draws_after PIdle (S i) (R i)" by simp
    moreover have "to_get (PDone r) = obtains_by i l" using p_return(1) to_get_done(1) by simp
    moreover have "obtains_by k l = []" if "k \<noteq> i" for k using that p_return(1) to_get_done(2) by simp
    moreover have "subseq (map fst (S i)) (enqueued_by i ls)" using d(6) [of i] p_return(3) by simp
    ultimately have "ticket_order from (ls @ [l]) a' S R"
      using p_return d by (intro ticket_orderI) (auto split: if_splits)
    then show ?thesis by blast
  next
    case (p_move i P st)
    from p_move(3) show ?thesis
    proof cases
      case (drift T T' H H' Q)
      then have "ticket_order from (ls @ [l]) a' S R"
        using p_move(1,2) d below_mono [OF d(2)] below_mono [OF d(4)] by (intro ticket_orderI) auto
      then show ?thesis by blast
    next
      case (refused T T' H H' Q c lo)
      have "to_get (PDone (refusal c)) = []" by (cases c) auto
      moreover have "subseq (map fst (S i)) (enqueued_by i ls)" using d(6) [of i] by (rule accepted_before)
      ultimately have "ticket_order from (ls @ [l]) a' S R"
        using p_move(1,2) refused d below_mono [OF d(2)] below_mono [OF d(4)] by (intro ticket_orderI) auto
      then show ?thesis by blast
    next
      case (put Q lo t T H v)
      have sub: "subseq (map fst (S i) @ [v]) (enqueued_by i ls)" using d(6) [of i] put(2) by simp
      then have "v \<in> set (enqueued_by i ls)" by (auto dest: subseq_set)
      then have own: "from v = i" by (rule tags)
      let ?S = "S(i := S i @ [(v, t)])"
      have keep: "logged from ?S x" if "logged from S x" for x using that by (auto simp: logged_def)
      have new: "logged from ?S (v, t)" using own by (simp add: logged_def)
      have "below lo (S i)" using d(5) [of i] put(2) by simp
      then have up: "rising (S i @ [(v, t)])" using d(1) [of i] put(6) by (intro rising_snoc)
      have top: "below T (S i @ [(v, t)])" using d(2) [of i] put(1,7) by (auto simp: below_def)
      have "ticket_order from (ls @ [l]) a' ?S R"
        using p_move(1,2) put d sub up top keep new by (intro ticket_orderI) auto
      then show ?thesis by blast
    next
      case (take_one lo h H v Q T)
      let ?R = "R(i := R i @ [(v, h)])"
      have "below lo (R i)" using d(5) [of i] take_one(2) by simp
      then have up: "rising (R i @ [(v, h)])" using d(3) [of i] take_one(5) by (intro rising_snoc)
      have top: "below H (R i @ [(v, h)])" using d(4) [of i] take_one(1,6) by (auto simp: below_def)
      have log: "logged from S (v, h)" using d(9) [of "(v, h)"] take_one(1) by simp
      have sub: "subseq (map fst (S i)) (enqueued_by i ls)" using d(6) [of i] by (rule accepted_before)
      have got: "map fst (R i) = dequeued_by i ls" using d(7) [of i] take_one(2) by simp
      have logR: "logged from S x" if "x \<in> set (?R k)" for k x
        using that d(8) [of x k] log by (cases "k = i") auto
      have "ticket_order from (ls @ [l]) a' S ?R"
        using p_move(1,2) take_one d(1-7,9) logR up top sub got by (intro ticket_orderI) auto
      then show ?thesis by blast
    qed
  qed
qed

lemma pool_order:
  assumes "exec (pool_step N) pool_init ls a" "\<And>i v. v \<in> set (enqueued_by i ls) \<Longrightarrow> from v = i"
  shows "\<exists>S R. ticket_order from ls a S R"
  using assms
proof induction
  case exec_nil
  show ?case
    by (intro exI [of _ "\<lambda>_. []"] ticket_orderI) (simp_all add: pool_init_def below_def)
next
  case (exec_snoc ls a l a')
  have tags: "from v = i" if "v \<in> set (enqueued_by i ls)" for i v using exec_snoc.prems [of v i] that by simp
  obtain S R where "ticket_order from ls a S R" using exec_snoc.IH [OF tags] by blast
  then show ?case by (rule ticket_order_step [OF _ exec_snoc.hyps(2) tags])
qed

lemma pool_producer_order:
  assumes "exec (pool_step N) pool_init ls a" "\<And>i v. v \<in> set (enqueued_by i ls) \<Longrightarrow> from v = i"
  shows "subseq (filter (\<lambda>v. from v = i) (dequeued_by j ls)) (enqueued_by i ls)"
proof -
  obtain S R where ord: "ticket_order from ls a S R" using pool_order [OF assms(1), of "from"] assms(2) by blast
  note d = ticket_orderD [OF ord]
  let ?xs = "filter (\<lambda>x. from (fst x) = i) (R j)"
  have "subseq ?xs (S i)"
  proof (rule rising_subseq)
    show "rising ?xs" using d(3) [of j] by (rule sorted_wrt_filter)
    show "set ?xs \<subseteq> set (S i)" using d(8) by (auto simp: logged_def)
  qed (fact d(1))
  then have "subseq (map fst ?xs) (map fst (S i))" by (rule subseq_map)
  moreover have "map fst ?xs = filter (\<lambda>v. from v = i) (map fst (R j))" by (simp add: filter_map comp_def)
  moreover have "subseq (filter (\<lambda>v. from v = i) (dequeued_by j ls)) (filter (\<lambda>v. from v = i) (map fst (R j)))"
    unfolding d(7) filter_append by (rule prefix_imp_subseq) simp
  ultimately show ?thesis using accepted_before [OF d(6) [of i]] by (metis subseq_order.trans)
qed

section \<open>Properties\<close>

text \<open>C20: First-in first-out order under any interleaving: each thread gets the elements of each other thread in the
  order in which that thread passed them to \<open>enqueue\<close>, none of them twice.\<close>

theorem bounded_producer_order:
  assumes "bounded_created k q" "exec bq_sys_step (bq_init q) ls s" "length ls \<le> 2 ^ 60"
    "\<And>i v. v \<in> set (enqueued_by i ls) \<Longrightarrow> from v = i"
  shows "subseq (filter (\<lambda>v. from v = i) (dequeued_by j ls)) (enqueued_by i ls)"
proof -
  obtain ls' and a :: "'a pool_spec" where a: "exec (pool_step (2 ^ k)) pool_init ls' a" "history ls' = history ls"
    by (rule reachable_pool_inv [OF assms(1-3)])
  then have "enqueued_by i ls' = enqueued_by i ls" "dequeued_by i ls' = dequeued_by i ls" for i by (metis by_history)+
  then show ?thesis using pool_producer_order [OF a(1), of "from" i j] assms(4) by simp
qed

text \<open>On a queue of capacity two: thread 0 enqueues 2 and, while thread 1 dequeues, 4; thread 2 enqueues 3;
  thread 1 dequeues once more. Even elements are thread 0's.\<close>

definition order_moves :: "(nat fifo_cmd, bool) move list" where
  "order_moves = [MCall 0 (Enq 2)] @ steps_of 0 11 @ [MReturn 0, MCall 0 (Enq 4)] @ steps_of 0 6 @ [MCall 1 Deq] @
     steps_of 1 3 @ steps_of 0 2 @ steps_of 1 7 @ [MReturn 1, MCall 2 (Enq 3)] @ steps_of 0 2 @ [MReturn 0] @
     steps_of 2 10 @ [MReturn 2, MCall 1 Deq] @ steps_of 1 10 @ [MReturn 1]"

definition order_history :: "nat fifo_label list" where
  "order_history = [Call 0 (Enq 2), Return 0 (REnq (Ok ())), Call 0 (Enq 4), Call 1 Deq, Return 1 (RDeq (Some 2)),
     Call 2 (Enq 3), Return 0 (REnq (Ok ())), Return 2 (REnq (Ok ())), Call 1 Deq, Return 1 (RDeq (Some 4))]"

lemma order_result: "bq_run_with 2 order_moves (\<lambda>ls s. history ls = order_history \<and> length ls < 100)"
  by code_simp

theorem bounded_producer_order_witness:
  "\<exists>q ls s. bounded_created 1 q \<and> exec bq_sys_step (bq_init q) ls s \<and> history ls = order_history \<and>
     dequeued_by 1 ls = [2, 4] \<and> enqueued_by 0 ls = [2, 4] \<and> enqueued_by 2 ls = [3] \<and>
     subseq (filter (\<lambda>v. (if even v then 0 else 2) = (0 :: nat)) (dequeued_by 1 ls)) (enqueued_by 0 ls)"
proof -
  obtain q ls s where r: "bounded_created 1 q" "exec bq_sys_step (bq_init q) ls s"
    "history ls = order_history \<and> length ls < 100" by (rule bq_run_withE [OF order_result, of 1]) auto
  have by_thread: "enqueued_by k ls = enqueued_by k order_history" "dequeued_by k ls = dequeued_by k order_history" for k
    using by_history [of k ls] r(3) by simp_all
  then have "(if even v then 0 else 2) = k" if "v \<in> set (enqueued_by k ls)" for k v
    using that by (auto simp: enqueued_by_def order_history_def split: if_splits)
  moreover have "length ls \<le> 2 ^ 60" using r(3) by simp
  ultimately have "subseq (filter (\<lambda>v. (if even v then 0 else 2) = (0 :: nat)) (dequeued_by 1 ls)) (enqueued_by 0 ls)"
    using bounded_producer_order [OF r(1,2), of "\<lambda>v. if even v then 0 else 2" 0 1] by blast
  moreover have "dequeued_by 1 ls = [2, 4]" "enqueued_by 0 ls = [2, 4]" "enqueued_by 2 ls = [3]"
    unfolding by_thread by (simp_all add: enqueued_by_def dequeued_by_def order_history_def)
  ultimately show ?thesis using r by blast
qed

end
