(* ===== verification/Scq_Segment.thy ===== *)
theory Scq_Segment
  imports Scq_Machine
begin

text \<open>
  A bounded queue as a segment of the unbounded queue: what \<open>enqueue_cycle\<close> and \<open>dequeue\<close>, run alone, do to
  it, also when its ring of allocated indices has been finalised or has skipped a position.
\<close>

section \<open>Segments\<close>

definition seg_ok :: "'a bounded_queue \<Rightarrow> nat list \<Rightarrow> nat list \<Rightarrow> bool" where
  "seg_ok q as fs \<longleftrightarrow>
     (\<exists>h. ring_good (alloc_queue q) h as) \<and> (\<exists>h. ring_ok (free_queue q) h fs) \<and>
     order (alloc_queue q) = order (free_queue q) \<and>
     distinct (as @ fs) \<and> set (as @ fs) = {..<2 ^ order (free_queue q)} \<and>
     2 ^ order (free_queue q) \<le> length (backing q) \<and> used q = of_nat (length as) \<and>
     (\<forall>i \<in> set as. backing q ! i \<noteq> None) \<and> \<not> finalized (free_queue q)"

definition seg_contents :: "'a bounded_queue \<Rightarrow> nat list \<Rightarrow> 'a list" where
  "seg_contents q as = map (\<lambda>i. the (backing q ! i)) as"

lemma bq_ok_seg: "bq_ok q as fs \<Longrightarrow> seg_ok q as fs"
  by (auto simp: bq_ok_def seg_ok_def intro: ring_ok_good)

lemma seg_okD:
  assumes "seg_ok q as fs"
  obtains ha hf where "ring_good (alloc_queue q) ha as" "ring_ok (free_queue q) hf fs"
  using assms by (auto simp: seg_ok_def)

lemma seg_facts:
  assumes "seg_ok q as fs"
  shows "order (free_queue q) \<le> 60" "order (alloc_queue q) = order (free_queue q)"
    "length as + length fs = 2 ^ order (free_queue q)" "unat (bounded_capacity q) = 2 ^ order (free_queue q)"
    "length as < slots (alloc_queue q)" "length fs < slots (free_queue q)" "unat (used q) = length as"
    "\<And>i. i \<in> set as \<union> set fs \<Longrightarrow> i < 2 ^ order (free_queue q) \<and> i < length (backing q) \<and> unat (of_nat i :: usize) = i"
proof -
  obtain ha hf where r: "ring_good (alloc_queue q) ha as" "ring_ok (free_queue q) hf fs" by (rule seg_okD [OF assms])
  show o: "order (free_queue q) \<le> 60" using ring_okD(1) [OF r(2)] .
  show eq: "order (alloc_queue q) = order (free_queue q)" using assms by (simp add: seg_ok_def)
  have "card (set (as @ fs)) = length (as @ fs)" using assms by (intro distinct_card) (simp add: seg_ok_def)
  then show len: "length as + length fs = 2 ^ order (free_queue q)" using assms by (simp add: seg_ok_def)
  show "unat (bounded_capacity q) = 2 ^ order (free_queue q)" using o by (simp add: bounded_capacity_def ring_sizes)
  have pos: "(0 :: nat) < 2 ^ order (free_queue q)" by simp
  show "length as < slots (alloc_queue q)" "length fs < slots (free_queue q)"
    using len pos unfolding slots_def eq power_Suc by linarith+
  have "(2 :: nat) ^ order (free_queue q) \<le> 2 ^ 60" using o by (intro power_increasing) auto
  then show "unat (used q) = length as" using assms len by (simp add: seg_ok_def)
  show "i < 2 ^ order (free_queue q) \<and> i < length (backing q) \<and> unat (of_nat i :: usize) = i"
    if "i \<in> set as \<union> set fs" for i
  proof -
    have "i \<in> {..<2 ^ order (free_queue q)}" using that assms unfolding seg_ok_def set_append by blast
    then show ?thesis using index_unat [OF o, of i] assms by (auto simp: seg_ok_def)
  qed
qed

lemma ring_ok_finalize [simp]: "ring_ok (finalize r) h xs = ring_ok r h xs" "order (finalize r) = order r"
  by (auto simp: finalize_def ring_ok_def entry_ok_def slots_def top_threshold_def ring_half_def ring_n_def)

lemma seg_okI:
  assumes "seg_ok q as fs" "ring_good (alloc_queue q') h as'" "ring_ok (free_queue q') h' fs'"
    "order (alloc_queue q') = order (alloc_queue q)" "order (free_queue q') = order (free_queue q)"
    "distinct (as' @ fs')" "set (as' @ fs') = set (as @ fs)" "length (backing q') = length (backing q)"
    "used q' = of_nat (length as')" "\<And>i. i \<in> set as' \<Longrightarrow> backing q' ! i \<noteq> None"
    "is_finalized (free_queue q') = is_finalized (free_queue q)"
  shows "seg_ok q' as' fs'"
  using assms unfolding seg_ok_def finalized_def by metis

section \<open>Enqueue\<close>

text \<open>What both kinds of \<open>enqueue\<close> to the ring of allocated indices have in common: a free index is taken.\<close>

lemma cycle_claim:
  assumes "seg_ok q as (i # fs)"
    and "\<And>fr h. ring_ok fr h fs \<Longrightarrow> order fr = order (free_queue q) \<Longrightarrow> is_finalized fr = is_finalized (free_queue q) \<Longrightarrow>
      solo_within (cycle_step fin) cycle_returned n Q
        (q\<lparr>used := used q + 1, free_queue := fr, backing := (backing q)[i := Some v]\<rparr>)
        (alloc_next fin (bounded_capacity q) (used q) (of_nat i) (ring_enqueue_start (alloc_queue q) (of_nat i)))"
  shows "solo_within (cycle_step fin) cycle_returned (Suc (18 + Suc n)) Q q (CUsed v)"
proof -
  note f = seg_facts [OF assms(1)]
  obtain hf where r: "ring_ok (free_queue q) hf (i # fs)" by (rule seg_okD [OF assms(1)])
  let ?q = "q\<lparr>used := used q + 1\<rparr>"
  have "(free_queue ?q)\<lparr>rtail := rtail (free_queue ?q)\<rparr> = free_queue q" by simp
  then have "ring_ok ((free_queue ?q)\<lparr>rtail := rtail (free_queue ?q)\<rparr>) hf (i # fs)" using r by metis
  note free = ring_dequeue_within [OF this]
  have guard: "\<not> bounded_capacity q \<le> used q" using f(3,4,7) by (simp add: word_le_nat_alt)
  have i: "i < length (backing q)" "unat (of_nat i :: usize) = i" using f(8) [of i] by auto
  have "solo_within (cycle_step fin) cycle_returned (18 + Suc n) Q ?q (free_next (used q) v DThresh)"
  proof (rule free_within [OF free])
    fix fr and res :: "usize option"
    assume fr: "res = Some (of_nat i) \<and> ring_ok (fr\<lparr>rtail := rtail (free_queue ?q)\<rparr>) (Suc hf) fs \<and>
      rtail fr = rtail (free_queue ?q) \<and> order fr = order (free_queue ?q) \<and> is_finalized fr = is_finalized (free_queue ?q)"
    then have "ring_ok fr (Suc hf) fs" using ring_reset [of fr] by metis
    from assms(2) [OF this] fr i
    have "solo_within (cycle_step fin) cycle_returned (Suc n) Q (?q\<lparr>free_queue := fr\<rparr>) (CWrite (used q) v (of_nat i))"
      by (intro within_step) (auto simp: write_slot_def bounded_capacity_def ring_capacity_def)
    then show "solo_within (cycle_step fin) cycle_returned (Suc n) Q (?q\<lparr>free_queue := fr\<rparr>)
        (free_next (used q) v (DRet res))"
      using fr by simp
  qed
  then show ?thesis using guard by (intro within_step) auto
qed

lemma cycle_room:
  assumes "seg_ok q as fs" "ring_ok (alloc_queue q) h as" "\<not> finalized (alloc_queue q)"
    "length as < 2 ^ order (free_queue q)"
  shows "solo_within (cycle_step fin) cycle_returned 27
    (\<lambda>q' r. r = Ok () \<and> (\<exists>as' fs'. seg_ok q' as' fs' \<and> ring_ok (alloc_queue q') h as' \<and>
      seg_contents q' as' = seg_contents q as @ [v])) q (CUsed v)"
proof -
  note f = seg_facts [OF assms(1)]
  obtain i fs' where fs: "fs = i # fs'" using f(3) assms(4) by (cases fs) auto
  have i: "i < 2 ^ order (alloc_queue q)" "i \<notin> set as" "i \<notin> set fs'" "i < length (backing q)"
    using assms(1) f(2) f(8) [of i] by (auto simp: seg_ok_def fs)
  let ?Q = "\<lambda>q' r. r = Ok () \<and> (\<exists>as' fs'. seg_ok q' as' fs' \<and> ring_ok (alloc_queue q') h as' \<and>
      seg_contents q' as' = seg_contents q as @ [v])"
  have "solo_within (cycle_step fin) cycle_returned (6 + 1) ?Q
      (q\<lparr>used := used q + 1, free_queue := fr, backing := (backing q)[i := Some v]\<rparr>)
      (alloc_next fin (bounded_capacity q) (used q) (of_nat i) (ring_enqueue_start (alloc_queue q) (of_nat i)))"
    if fr: "ring_ok fr hf fs'" "order fr = order (free_queue q)" "is_finalized fr = is_finalized (free_queue q)"
    for fr hf
  proof (rule alloc_within)
    let ?q = "q\<lparr>used := used q + 1, free_queue := fr, backing := (backing q)[i := Some v]\<rparr>"
    show "solo_within ring_enqueue_step ring_enq_returned 6
      (\<lambda>r' res. res = Ok () \<and> ring_ok r' h (as @ [i]) \<and> order r' = order (alloc_queue q) \<and>
        is_finalized r' = is_finalized (alloc_queue q))
      (alloc_queue ?q) (ring_enqueue_start (alloc_queue q) (of_nat i))"
      using ring_enqueue_within [OF assms(2) f(5) i(1) assms(3)] by simp
    show "bounded_capacity q = bounded_capacity ?q"
      using fr(2) by (simp add: bounded_capacity_def ring_capacity_def)
    fix al and res :: "(unit, scq_error) rust_result"
    assume al: "res = Ok () \<and> ring_ok al h (as @ [i]) \<and> order al = order (alloc_queue q) \<and>
        is_finalized al = is_finalized (alloc_queue q)"
    have good: "?Q (?q\<lparr>alloc_queue := al'\<rparr>) (Ok ())" if "ring_ok al' h (as @ [i])" "order al' = order al" for al'
    proof -
      have "seg_ok (?q\<lparr>alloc_queue := al'\<rparr>) (as @ [i]) fs'"
        using assms(1) that al fr i ring_ok_good [OF that(1)]
        by (intro seg_okI [OF assms(1), where h = h and h' = hf]) (auto simp: seg_ok_def fs nth_list_update)
      moreover have "seg_contents (?q\<lparr>alloc_queue := al'\<rparr>) (as @ [i]) = seg_contents q as @ [v]"
        using i by (auto simp: seg_contents_def nth_list_update)
      ultimately show ?thesis using that(1) by auto
    qed
    show "solo_within (cycle_step fin) cycle_returned 1 ?Q (?q\<lparr>alloc_queue := al\<rparr>)
        (alloc_next fin (bounded_capacity q) (used q) (of_nat i) (ERet res))"
    proof (cases "fin \<and> used q + 1 \<ge> bounded_capacity q")
      case True
      have "solo_within (cycle_step fin) cycle_returned (Suc 0) ?Q (?q\<lparr>alloc_queue := al\<rparr>) CFinal"
        using good [of "finalize al"] al
        by (intro within_step [OF _ _ within_return [where r = "Ok ()"]]) auto
      then show ?thesis using True al by simp
    next
      case False
      then show ?thesis using good [of al] al by (intro within_return [where r = "Ok ()"]) auto
    qed
  qed
  from within_mono [OF cycle_claim [OF assms(1) [unfolded fs] this]] show ?thesis by simp
qed

lemma cycle_full:
  assumes "seg_ok q as fs" "length as = 2 ^ order (free_queue q)"
  shows "solo_within (cycle_step fin) cycle_returned 2 (\<lambda>q' r. q' = q \<and> r = Err (v, ErrQueueFull)) q (CUsed v)"
proof -
  have "bounded_capacity q \<le> used q" using seg_facts(4,7) [OF assms(1)] assms(2) by (simp add: word_le_nat_alt)
  moreover have "solo_within (cycle_step fin) cycle_returned (Suc 0) (\<lambda>q' r. q' = q \<and> r = Err (v, ErrQueueFull))
      (q\<lparr>used := used q + 1\<rparr>) (CFull v)"
    by (rule within_step [where pc' = "CRet (Err (v, ErrQueueFull))", rotated 2]) (auto intro: within_return)
  ultimately have "solo_within (cycle_step fin) cycle_returned (Suc (Suc 0))
      (\<lambda>q' r. q' = q \<and> r = Err (v, ErrQueueFull)) q (CUsed v)"
    by (rule_tac within_step [where pc' = "CFull v", rotated 2]) auto
  then show ?thesis by (simp add: numeral_2_eq_2)
qed

lemma cycle_finalized:
  assumes "seg_ok q as fs" "ring_ok (alloc_queue q) h as" "finalized (alloc_queue q)"
    "length as < 2 ^ order (free_queue q)"
  shows "solo_within (cycle_step fin) cycle_returned 31
    (\<lambda>q' r. r = Err (v, ErrQueueFinalized) \<and> (\<exists>fs'. seg_ok q' as fs' \<and> seg_contents q' as = seg_contents q as)) q (CUsed v)"
proof -
  note f = seg_facts [OF assms(1)]
  obtain i fs' where fs: "fs = i # fs'" using f(3) assms(4) by (cases fs) auto
  have i: "i < 2 ^ order (alloc_queue q)" "i \<notin> set as" "i \<notin> set fs'" "i < length (backing q)"
    "unat (of_nat i :: usize) = i"
    using assms(1) f(2) f(8) [of i] by (auto simp: seg_ok_def fs)
  let ?Q = "\<lambda>q' r. r = Err (v, ErrQueueFinalized) \<and>
    (\<exists>fs'. seg_ok q' as fs' \<and> seg_contents q' as = seg_contents q as)"
  have "solo_within (cycle_step fin) cycle_returned (3 + Suc (Suc (6 + 0))) ?Q
      (q\<lparr>used := used q + 1, free_queue := fr, backing := (backing q)[i := Some v]\<rparr>)
      (alloc_next fin (bounded_capacity q) (used q) (of_nat i) (ring_enqueue_start (alloc_queue q) (of_nat i)))"
    if fr: "ring_ok fr hf fs'" "order fr = order (free_queue q)" "is_finalized fr = is_finalized (free_queue q)"
    for fr hf
  proof (rule alloc_within)
    let ?q = "q\<lparr>used := used q + 1, free_queue := fr, backing := (backing q)[i := Some v]\<rparr>"
    let ?al = "(alloc_queue q)\<lparr>rtail := rtail (alloc_queue q) + 1\<rparr>"
    show "solo_within ring_enqueue_step ring_enq_returned 3
        (\<lambda>r' res. res = Err QueueFinalized \<and> r' = ?al) (alloc_queue ?q) (ring_enqueue_start (alloc_queue q) (of_nat i))"
      using ring_enqueue_finalized [OF assms(2) f(5) i(1) assms(3)] by simp
    show "bounded_capacity q = bounded_capacity ?q"
      using fr(2) by (simp add: bounded_capacity_def ring_capacity_def)
    fix al and res :: "(unit, scq_error) rust_result"
    assume al: "res = Err QueueFinalized \<and> al = ?al"
    let ?q2 = "?q\<lparr>alloc_queue := al, used := used q\<rparr>"
    have len: "length fs' < slots fr" "i < 2 ^ order fr" "\<not> finalized fr"
      using f(2,6) i(1) fr assms(1) by (simp_all add: fs slots_def seg_ok_def finalized_def)
    have "solo_within (cycle_step fin) cycle_returned (6 + 0) ?Q ?q2 (give_next v (ring_enqueue_start fr (of_nat i)))"
    proof (rule give_within)
      show "solo_within ring_enqueue_step ring_enq_returned 6
        (\<lambda>r' res. res = Ok () \<and> ring_ok r' hf (fs' @ [i]) \<and> order r' = order fr \<and> is_finalized r' = is_finalized fr)
        (free_queue ?q2) (ring_enqueue_start fr (of_nat i))"
        using ring_enqueue_within [OF fr(1) len] by simp
      fix fr' and res' :: "(unit, scq_error) rust_result"
      assume fr': "res' = Ok () \<and> ring_ok fr' hf (fs' @ [i]) \<and> order fr' = order fr \<and> is_finalized fr' = is_finalized fr"
      have "al\<lparr>rtail := of_nat (h + length as)\<rparr> = alloc_queue q"
        using al ring_okD(6) [OF assms(2)] ring_reset [of "alloc_queue q"] by simp
      then have "ring_ok (al\<lparr>rtail := of_nat (h + length as)\<rparr>) h as" using assms(2) by metis
      then have "ring_good al h as" using al ring_okD(6) [OF assms(2)] by (simp add: ring_good_def)
      then have "seg_ok (?q2\<lparr>free_queue := fr'\<rparr>) as (fs' @ [i])"
        using assms(1) fr fr' al i
        by (intro seg_okI [OF assms(1), where h = h and h' = hf]) (auto simp: seg_ok_def fs nth_list_update)
      moreover have "seg_contents (?q2\<lparr>free_queue := fr'\<rparr>) as = seg_contents q as"
        using i by (auto simp: seg_contents_def nth_list_update)
      ultimately show "solo_within (cycle_step fin) cycle_returned 0 ?Q (?q2\<lparr>free_queue := fr'\<rparr>)
          (give_next v (ERet res'))"
        using fr' by (intro within_return [where r = "Err (v, ErrQueueFinalized)"]) auto
    qed
    then have "solo_within (cycle_step fin) cycle_returned (Suc (6 + 0)) ?Q ?q2 (CTake (of_nat i))"
      using i by (intro within_step [where s' = ?q2]) (auto simp: read_slot_def)
    then have "solo_within (cycle_step fin) cycle_returned (Suc (Suc (6 + 0))) ?Q (?q\<lparr>alloc_queue := al\<rparr>) (CUnuse (of_nat i))"
      by (rule within_step [rotated 2]) simp_all
    then show "solo_within (cycle_step fin) cycle_returned (Suc (Suc (6 + 0))) ?Q (?q\<lparr>alloc_queue := al\<rparr>)
        (alloc_next fin (bounded_capacity q) (used q) (of_nat i) (ERet res))"
      using al by simp
  qed
  from within_mono [OF cycle_claim [OF assms(1) [unfolded fs] this]] show ?thesis by simp
qed

section \<open>Dequeue\<close>

text \<open>A segment that has not skipped a position.\<close>

definition seg_tight :: "'a bounded_queue \<Rightarrow> nat list \<Rightarrow> bool" where
  "seg_tight q as \<longleftrightarrow> (\<exists>h. ring_ok (alloc_queue q) h as)"

lemma seg_tight_iff:
  assumes "seg_ok q as fs"
  shows "seg_tight q as \<longleftrightarrow> rtail (alloc_queue q) = rhead (alloc_queue q) + of_nat (length as)"
proof
  assume t: "rtail (alloc_queue q) = rhead (alloc_queue q) + of_nat (length as)"
  obtain h where h: "ring_good (alloc_queue q) h as" by (rule seg_okD [OF assms])
  then have "rhead (alloc_queue q) = of_nat h" using ring_okD(5) by (fastforce simp: ring_good_def)
  then have "(alloc_queue q)\<lparr>rtail := of_nat (h + length as)\<rparr> = alloc_queue q" using t by (intro ring_reset) simp
  then show "seg_tight q as" using h unfolding ring_good_def seg_tight_def by metis
next
  assume "seg_tight q as"
  then obtain h where "ring_ok (alloc_queue q) h as" by (auto simp: seg_tight_def)
  from ring_okD(5,6) [OF this] show "rtail (alloc_queue q) = rhead (alloc_queue q) + of_nat (length as)" by simp
qed

lemma take_some:
  assumes "seg_ok q (i # as) fs"
  shows "solo_within take_step take_returned 26
    (\<lambda>q' r. r = Some (the (backing q ! i)) \<and> (\<exists>fs'. seg_ok q' as fs' \<and> seg_contents q' as = seg_contents q as \<and>
      (seg_tight q (i # as) \<longrightarrow> seg_tight q' as))) q take_start"
proof -
  note f = seg_facts [OF assms]
  obtain ha hf where r: "ring_good (alloc_queue q) ha (i # as)" "ring_ok (free_queue q) hf fs" by (rule seg_okD [OF assms])
  have i: "i < 2 ^ order (free_queue q)" "i < length (backing q)" "unat (of_nat i :: usize) = i" "backing q ! i \<noteq> None"
    using f(8) [of i] assms by (auto simp: seg_ok_def)
  have nf: "\<not> finalized (free_queue q)" using assms by (simp add: seg_ok_def)
  let ?w = "of_nat (ha + length (i # as)) :: usize" and ?v = "the (backing q ! i)"
  let ?Q = "\<lambda>q' r. r = Some ?v \<and> (\<exists>fs'. seg_ok q' as fs' \<and> seg_contents q' as = seg_contents q as \<and>
      (seg_tight q (i # as) \<longrightarrow> seg_tight q' as))"
  have al: "ring_ok ((alloc_queue q)\<lparr>rtail := ?w\<rparr>) ha (i # as)" using r(1) unfolding ring_good_def by blast
  have "solo_within take_step take_returned (18 + Suc (Suc (6 + 0))) ?Q q (taken_next DThresh)"
  proof (rule taken_within [OF ring_dequeue_within [OF al]])
    fix al and res :: "usize option"
    assume al': "res = Some (of_nat i) \<and> ring_ok (al\<lparr>rtail := ?w\<rparr>) (Suc ha) as \<and> rtail al = rtail (alloc_queue q) \<and>
      order al = order (alloc_queue q) \<and> is_finalized al = is_finalized (alloc_queue q)"
    let ?q = "q\<lparr>alloc_queue := al, used := used q - 1\<rparr>"
    have good: "ring_good al (Suc ha) as" using al' r(1) by (simp add: ring_good_def)
    have "solo_within take_step take_returned (6 + 0) ?Q ?q
        (given_next ?v (ring_enqueue_start (free_queue ?q) (of_nat i)))"
    proof (rule given_within)
      show "solo_within ring_enqueue_step ring_enq_returned 6
        (\<lambda>r' res. res = Ok () \<and> ring_ok r' hf (fs @ [i]) \<and> order r' = order (free_queue q) \<and>
          is_finalized r' = is_finalized (free_queue q))
        (free_queue ?q) (ring_enqueue_start (free_queue ?q) (of_nat i))"
        using ring_enqueue_within [OF r(2) f(6) i(1) nf] by simp
      fix fr and res' :: "(unit, scq_error) rust_result"
      assume fr: "res' = Ok () \<and> ring_ok fr hf (fs @ [i]) \<and> order fr = order (free_queue q) \<and>
          is_finalized fr = is_finalized (free_queue q)"
      have ok: "seg_ok (?q\<lparr>free_queue := fr\<rparr>) as (fs @ [i])"
        using assms good fr al'
        by (intro seg_okI [OF assms, where h = "Suc ha" and h' = hf]) (auto simp: seg_ok_def)
      moreover have "rhead al = rhead (alloc_queue q) + 1"
        using ring_okD(5) [OF al] al' ring_okD(5) [of "al\<lparr>rtail := ?w\<rparr>" "Suc ha" as] by simp
      then have "seg_tight q (i # as) \<longrightarrow> seg_tight (?q\<lparr>free_queue := fr\<rparr>) as"
        using al' by (simp add: seg_tight_iff [OF assms] seg_tight_iff [OF ok])
      ultimately show "solo_within take_step take_returned 0 ?Q (?q\<lparr>free_queue := fr\<rparr>) (given_next ?v (ERet res'))"
        using fr by (intro within_return [where r = "Some ?v"]) (auto simp: seg_contents_def)
    qed
    then have "solo_within take_step take_returned (Suc (6 + 0)) ?Q ?q (TRead (of_nat i))"
      using i by (intro within_step [where s' = ?q]) (auto simp: read_slot_def)
    then have "solo_within take_step take_returned (Suc (Suc (6 + 0))) ?Q (q\<lparr>alloc_queue := al\<rparr>) (TUnuse (of_nat i))"
      by (rule within_step [rotated 2]) simp_all
    then show "solo_within take_step take_returned (Suc (Suc (6 + 0))) ?Q (q\<lparr>alloc_queue := al\<rparr>) (taken_next (DRet res))"
      using al' by simp
  qed
  then show ?thesis by simp
qed

lemma take_none:
  assumes "seg_ok q [] fs"
  shows "solo_within take_step take_returned 18
    (\<lambda>q' r. r = None \<and> seg_ok q' [] fs \<and> (seg_tight q [] \<longrightarrow> seg_tight q' [])) q take_start"
proof -
  obtain ha hf where r: "ring_good (alloc_queue q) ha []" "ring_ok (free_queue q) hf fs" by (rule seg_okD [OF assms])
  let ?Q = "\<lambda>q' r. r = None \<and> seg_ok q' [] fs \<and> (seg_tight q [] \<longrightarrow> seg_tight q' [])"
  have "ring_ok ((alloc_queue q)\<lparr>rtail := of_nat ha\<rparr>) ha []"
    "rtail (alloc_queue q) = of_nat ha \<or> rtail (alloc_queue q) = of_nat ha + 1"
    using r(1) by (auto simp: ring_good_def)
  note miss = ring_dequeue_miss [OF this]
  have "solo_within take_step take_returned (18 + 0) ?Q q (taken_next DThresh)"
  proof (rule taken_within [OF miss])
    fix al and res :: "usize option"
    assume al: "res = None \<and> (al = alloc_queue q \<or> ring_ok al (Suc ha) []) \<and>
      order al = order (alloc_queue q) \<and> is_finalized al = is_finalized (alloc_queue q)"
    then obtain h where h: "ring_good al h []" using r(1) ring_ok_good by blast
    have "seg_ok (q\<lparr>alloc_queue := al\<rparr>) [] fs"
      using assms r(2) al by (intro seg_okI [OF assms, where h = h and h' = hf]) (auto simp: seg_ok_def h)
    moreover have "seg_tight q [] \<longrightarrow> seg_tight (q\<lparr>alloc_queue := al\<rparr>) []"
      using al by (auto simp: seg_tight_def)
    ultimately show "solo_within take_step take_returned 0 ?Q (q\<lparr>alloc_queue := al\<rparr>) (taken_next (DRet res))"
      using al by (intro within_return [where r = None]) auto
  qed
  then show ?thesis by simp
qed

end
