(* ===== verification/Lscq.thy ===== *)
theory Lscq
  imports Scq_Segment
begin

text \<open>
  The unbounded queues of \<^verbatim>\<open>src/third-party/lfqueue/src/lfstd.rs\<close>: \<open>UnboundedQueueInternal\<close>, a linked list of
  finalisable bounded queues, with \<open>UnboundedQueue\<close> and \<open>CountedUnboundedQueue\<close> around it. A node's address
  is its position in the list of all nodes allocated so far. Of the hazard pointers of the crate
  \<open>haphazard\<close> the code needs that a loaded pointer can be dereferenced; so nodes are kept for
  ever, and \<open>retired\<close> records those that were handed to the domain for reclamation. A new node that is not linked yet is
  private to its thread and part of the program counter.
\<close>

section \<open>Data\<close>

record 'a lscq_node =
  node_value :: "'a bounded_queue"
  node_next :: "nat option"

record 'a lscq =
  nodes :: "'a lscq_node list"
  lhead :: nat
  ltail :: nat
  internal_order :: nat
  retired :: "nat list"

definition node_new :: "nat \<Rightarrow> 'a lscq_node option" where
  "node_new sz = map_option (\<lambda>q. \<lparr>node_value = q, node_next = None\<rparr>) (alloc_bounded_new 1 sz)"

definition lscq_new :: "nat \<Rightarrow> 'a lscq option" where
  "lscq_new sz = map_option (\<lambda>nd. \<lparr>nodes = [nd], lhead = 0, ltail = 0, internal_order = sz, retired = []\<rparr>) (node_new sz)"

definition get_node :: "'a lscq \<Rightarrow> nat \<Rightarrow> 'a lscq_node option" where
  "get_node L n = (if n < length (nodes L) then Some (nodes L ! n) else None)"

definition put_node :: "'a lscq \<Rightarrow> nat \<Rightarrow> 'a lscq_node \<Rightarrow> 'a lscq" where
  "put_node L n nd = L\<lparr>nodes := (nodes L)[n := nd]\<rparr>"

section \<open>Enqueue\<close>

datatype 'a lscq_enq_pc =
    LTail 'a                          \<comment> \<open>before the load of \<open>tail\<close>\<close>
  | LNext 'a nat                      \<comment> \<open>before the load of \<open>next\<close>\<close>
  | LHelp 'a nat nat                  \<comment> \<open>before the exchange of a \<open>tail\<close> that lags behind\<close>
  | LCycle nat "'a cycle_pc"          \<comment> \<open>in \<open>enqueue_cycle::<true>\<close> of the last node\<close>
  | LFill nat "'a lscq_node" "'a cycle_pc"  \<comment> \<open>in \<open>enqueue\<close> of the new node\<close>
  | LLink nat "'a lscq_node"          \<comment> \<open>before the exchange of \<open>next\<close>\<close>
  | LSwing nat nat                    \<comment> \<open>before the exchange of \<open>tail\<close>\<close>
  | LEmpty "'a lscq_node" "'a take_pc"  \<comment> \<open>in \<open>dequeue\<close> of the node that was not linked\<close>
  | LRet
  | LPanic

definition new_next :: "nat \<Rightarrow> nat \<Rightarrow> 'a \<Rightarrow> 'a lscq_enq_pc" where
  "new_next sz cq v = (case node_new sz of None \<Rightarrow> LPanic | Some nd \<Rightarrow> LFill cq nd (CUsed v))"

fun cycle_next :: "nat \<Rightarrow> nat \<Rightarrow> 'a cycle_pc \<Rightarrow> 'a lscq_enq_pc" where
  "cycle_next sz cq (CRet (Ok u)) = LRet"
| "cycle_next sz cq (CRet (Err (v, e))) = new_next sz cq v"
| "cycle_next sz cq CPanic = LPanic"
| "cycle_next sz cq pc = LCycle cq pc"

fun fill_next :: "nat \<Rightarrow> 'a lscq_node \<Rightarrow> 'a cycle_pc \<Rightarrow> 'a lscq_enq_pc" where
  "fill_next cq nd (CRet (Ok u)) = LLink cq nd"
| "fill_next cq nd (CRet (Err x)) = LPanic"
| "fill_next cq nd CPanic = LPanic"
| "fill_next cq nd pc = LFill cq nd pc"

fun empty_next :: "'a lscq_node \<Rightarrow> 'a take_pc \<Rightarrow> 'a lscq_enq_pc" where
  "empty_next nd (TRet (Some v)) = LTail v"
| "empty_next nd (TRet None) = LPanic"
| "empty_next nd TPanic = LPanic"
| "empty_next nd pc = LEmpty nd pc"

definition link_node :: "'a lscq \<Rightarrow> nat \<Rightarrow> 'a lscq_node \<Rightarrow> 'a lscq_node \<Rightarrow> 'a lscq" where
  "link_node L cq old nd = L\<lparr>nodes := (nodes L)[cq := old\<lparr>node_next := Some (length (nodes L))\<rparr>] @ [nd]\<rparr>"

fun lscq_enq_step :: "bool \<Rightarrow> 'a lscq \<Rightarrow> 'a lscq_enq_pc \<Rightarrow> 'a lscq \<times> 'a lscq_enq_pc" where
  "lscq_enq_step weak L (LTail v) = (L, LNext v (ltail L))"
| "lscq_enq_step weak L (LNext v cq) =
     (L, case get_node L cq of
           None \<Rightarrow> LPanic
         | Some nd \<Rightarrow> (case node_next nd of Some nx \<Rightarrow> LHelp v cq nx | None \<Rightarrow> LCycle cq (CUsed v)))"
| "lscq_enq_step weak L (LHelp v cq nx) =
     (case compare_exchange (ltail L) cq nx of (t, _) \<Rightarrow> (L\<lparr>ltail := t\<rparr>, LTail v))"
| "lscq_enq_step weak L (LCycle cq pc) =
     (case get_node L cq of
        None \<Rightarrow> (L, LPanic)
      | Some nd \<Rightarrow>
          (case cycle_step True weak (node_value nd) pc of
             (q, pc') \<Rightarrow> (put_node L cq (nd\<lparr>node_value := q\<rparr>), cycle_next (internal_order L) cq pc')))"
| "lscq_enq_step weak L (LFill cq nd pc) =
     (case cycle_step False weak (node_value nd) pc of (q, pc') \<Rightarrow> (L, fill_next cq (nd\<lparr>node_value := q\<rparr>) pc'))"
| "lscq_enq_step weak L (LLink cq nd) =
     (case get_node L cq of
        None \<Rightarrow> (L, LPanic)
      | Some old \<Rightarrow>
          (case compare_exchange (node_next old) None (Some (length (nodes L))) of
             (_, Ok _) \<Rightarrow> (link_node L cq old nd, LSwing cq (length (nodes L)))
           | (_, Err _) \<Rightarrow> (L, LEmpty nd take_start)))"
| "lscq_enq_step weak L (LSwing cq nx) =
     (case compare_exchange (ltail L) cq nx of (t, _) \<Rightarrow> (L\<lparr>ltail := t\<rparr>, LRet))"
| "lscq_enq_step weak L (LEmpty nd pc) =
     (case take_step weak (node_value nd) pc of (q, pc') \<Rightarrow> (L, empty_next (nd\<lparr>node_value := q\<rparr>) pc'))"
| "lscq_enq_step weak L pc = (L, pc)"

fun lscq_enq_returned :: "'a lscq_enq_pc \<Rightarrow> unit option" where
  "lscq_enq_returned LRet = Some ()"
| "lscq_enq_returned _ = None"

section \<open>Dequeue\<close>

datatype 'a lscq_deq_pc =
    QHead                             \<comment> \<open>before the load of \<open>head\<close>\<close>
  | QFirst nat "'a take_pc"           \<comment> \<open>in the first \<open>dequeue\<close> of the node\<close>
  | QNext nat                         \<comment> \<open>before the load of \<open>next\<close>\<close>
  | QThresh nat nat                   \<comment> \<open>before the store of the threshold\<close>
  | QSecond nat nat "'a take_pc"      \<comment> \<open>in the second \<open>dequeue\<close> of the node\<close>
  | QSwing nat nat                    \<comment> \<open>before the exchange of \<open>head\<close>\<close>
  | QRetire nat                       \<comment> \<open>before \<open>retire_in\<close>\<close>
  | QRet "'a option"
  | QPanic

fun first_next :: "nat \<Rightarrow> 'a take_pc \<Rightarrow> 'a lscq_deq_pc" where
  "first_next cq (TRet (Some v)) = QRet (Some v)"
| "first_next cq (TRet None) = QNext cq"
| "first_next cq TPanic = QPanic"
| "first_next cq pc = QFirst cq pc"

fun second_next :: "nat \<Rightarrow> nat \<Rightarrow> 'a take_pc \<Rightarrow> 'a lscq_deq_pc" where
  "second_next cq nx (TRet (Some v)) = QRet (Some v)"
| "second_next cq nx (TRet None) = QSwing cq nx"
| "second_next cq nx TPanic = QPanic"
| "second_next cq nx pc = QSecond cq nx pc"

definition reset_threshold :: "'a bounded_queue \<Rightarrow> 'a bounded_queue" where
  "reset_threshold q =
     q\<lparr>alloc_queue := (alloc_queue q)\<lparr>threshold := 3 * push_bit (order (free_queue q) + 1) 1 - 1\<rparr>\<rparr>"

fun lscq_deq_step :: "bool \<Rightarrow> 'a lscq \<Rightarrow> 'a lscq_deq_pc \<Rightarrow> 'a lscq \<times> 'a lscq_deq_pc" where
  "lscq_deq_step weak L QHead = (L, QFirst (lhead L) take_start)"
| "lscq_deq_step weak L (QFirst cq pc) =
     (case get_node L cq of
        None \<Rightarrow> (L, QPanic)
      | Some nd \<Rightarrow>
          (case take_step weak (node_value nd) pc of
             (q, pc') \<Rightarrow> (put_node L cq (nd\<lparr>node_value := q\<rparr>), first_next cq pc')))"
| "lscq_deq_step weak L (QNext cq) =
     (L, case get_node L cq of
           None \<Rightarrow> QPanic
         | Some nd \<Rightarrow> (case node_next nd of None \<Rightarrow> QRet None | Some nx \<Rightarrow> QThresh cq nx))"
| "lscq_deq_step weak L (QThresh cq nx) =
     (case get_node L cq of
        None \<Rightarrow> (L, QPanic)
      | Some nd \<Rightarrow> (put_node L cq (nd\<lparr>node_value := reset_threshold (node_value nd)\<rparr>), QSecond cq nx take_start))"
| "lscq_deq_step weak L (QSecond cq nx pc) =
     (case get_node L cq of
        None \<Rightarrow> (L, QPanic)
      | Some nd \<Rightarrow>
          (case take_step weak (node_value nd) pc of
             (q, pc') \<Rightarrow> (put_node L cq (nd\<lparr>node_value := q\<rparr>), second_next cq nx pc')))"
| "lscq_deq_step weak L (QSwing cq nx) =
     (case compare_exchange (lhead L) cq nx of
        (h, Ok _) \<Rightarrow> (L\<lparr>lhead := h\<rparr>, QRetire cq)
      | (h, Err _) \<Rightarrow> (L\<lparr>lhead := h\<rparr>, QHead))"
| "lscq_deq_step weak L (QRetire cq) = (L\<lparr>retired := cq # retired L\<rparr>, QHead)"
| "lscq_deq_step weak L pc = (L, pc)"

fun lscq_deq_returned :: "'a lscq_deq_pc \<Rightarrow> 'a option option" where
  "lscq_deq_returned (QRet r) = Some r"
| "lscq_deq_returned _ = None"

section \<open>Drop\<close>

text \<open>The nodes from the head on are freed, each with the elements of its queue.\<close>

partial_function (option) drop_nodes :: "(nat \<Rightarrow> nat \<Rightarrow> bool list) \<Rightarrow> 'a lscq \<Rightarrow> nat option \<Rightarrow> 'a list option" where
  "drop_nodes ws L next =
     (case next of
        None \<Rightarrow> Some []
      | Some n \<Rightarrow>
          (case get_node L n of
             None \<Rightarrow> None
           | Some nd \<Rightarrow>
               (case bounded_drop (ws 0) (node_value nd) of
                  None \<Rightarrow> None
                | Some (_, vs) \<Rightarrow> Option.bind (drop_nodes (\<lambda>i. ws (Suc i)) L (node_next nd)) (\<lambda>us. Some (vs @ us)))))"

definition lscq_drop :: "(nat \<Rightarrow> nat \<Rightarrow> bool list) \<Rightarrow> 'a lscq \<Rightarrow> 'a list option" where
  "lscq_drop ws L = drop_nodes ws L (Some (lhead L))"

section \<open>The queues used by one thread\<close>

definition lscq_enqueue :: "bool list \<Rightarrow> 'a lscq \<Rightarrow> 'a \<Rightarrow> 'a lscq option" where
  "lscq_enqueue ws L v =
     map_option fst (run_solo lscq_enq_step lscq_enq_returned (ws @ replicate 65 False) L (LTail v))"

definition lscq_dequeue :: "bool list \<Rightarrow> 'a lscq \<Rightarrow> ('a lscq \<times> 'a option) option" where
  "lscq_dequeue ws L = run_solo lscq_deq_step lscq_deq_returned (ws @ replicate 70 False) L QHead"

record 'a unbounded =
  uq_internal :: "'a lscq"
  uq_size :: nat

definition with_segment_size :: "nat \<Rightarrow> 'a unbounded option" where
  "with_segment_size sz = map_option (\<lambda>L. \<lparr>uq_internal = L, uq_size = sz\<rparr>) (lscq_new sz)"

definition unbounded_new :: "'a unbounded option" where
  "unbounded_new = with_segment_size 32"

definition base_segment_capacity :: "'a unbounded \<Rightarrow> nat" where
  "base_segment_capacity u = uq_size u"

definition unbounded_enqueue :: "bool list \<Rightarrow> 'a unbounded \<Rightarrow> 'a \<Rightarrow> 'a unbounded option" where
  "unbounded_enqueue ws u v = map_option (\<lambda>L. u\<lparr>uq_internal := L\<rparr>) (lscq_enqueue ws (uq_internal u) v)"

definition unbounded_dequeue :: "bool list \<Rightarrow> 'a unbounded \<Rightarrow> ('a unbounded \<times> 'a option) option" where
  "unbounded_dequeue ws u = map_option (\<lambda>(L, r). (u\<lparr>uq_internal := L\<rparr>, r)) (lscq_dequeue ws (uq_internal u))"

record 'a counted =
  cq_queue :: "'a unbounded"
  cq_length :: usize

definition counted_with_segment_size :: "nat \<Rightarrow> 'a counted option" where
  "counted_with_segment_size sz = map_option (\<lambda>u. \<lparr>cq_queue = u, cq_length = 0\<rparr>) (with_segment_size sz)"

definition counted_new :: "'a counted option" where
  "counted_new = counted_with_segment_size 32"

definition counted_len :: "'a counted \<Rightarrow> usize" where
  "counted_len c = cq_length c"

definition counted_is_empty :: "'a counted \<Rightarrow> bool" where
  "counted_is_empty c \<longleftrightarrow> counted_len c = 0"

definition counted_enqueue :: "bool list \<Rightarrow> 'a counted \<Rightarrow> 'a \<Rightarrow> 'a counted option" where
  "counted_enqueue ws c v =
     (let c1 = c\<lparr>cq_length := cq_length c + 1\<rparr>
      in map_option (\<lambda>u. c1\<lparr>cq_queue := u\<rparr>) (unbounded_enqueue ws (cq_queue c1) v))"

definition counted_dequeue :: "bool list \<Rightarrow> 'a counted \<Rightarrow> ('a counted \<times> 'a option) option" where
  "counted_dequeue ws c =
     (case unbounded_dequeue ws (cq_queue c) of
        None \<Rightarrow> None
      | Some (u, Some v) \<Rightarrow> Some (c\<lparr>cq_queue := u, cq_length := cq_length c - 1\<rparr>, Some v)
      | Some (u, None) \<Rightarrow> Some (c\<lparr>cq_queue := u\<rparr>, None))"

end
