(* ===== verification/Lscq_Seq.thy ===== *)
theory Lscq_Seq
  imports Lscq
begin

text \<open>
  The unbounded queue used by one thread: the list of segments from \<open>head\<close> to \<open>tail\<close>, and what \<open>enqueue\<close> and
  \<open>dequeue\<close> do to it, whatever weak exchanges of the rings fail spuriously.
\<close>

section \<open>The list of segments\<close>

fun chain :: "'a lscq \<Rightarrow> nat list \<Rightarrow> bool" where
  "chain L [] \<longleftrightarrow> False"
| "chain L [n] \<longleftrightarrow> (\<exists>nd. get_node L n = Some nd \<and> node_next nd = None)"
| "chain L (n # m # ns) \<longleftrightarrow> (\<exists>nd. get_node L n = Some nd \<and> node_next nd = Some m) \<and> chain L (m # ns)"

text \<open>The node at \<open>n\<close> holds \<open>vs\<close>; the last node, at \<open>t\<close>, has not skipped a position.\<close>

definition node_holds :: "'a lscq \<Rightarrow> nat \<Rightarrow> nat \<Rightarrow> 'a list \<Rightarrow> bool" where
  "node_holds L t n vs \<longleftrightarrow> (\<exists>nd as fs. get_node L n = Some nd \<and> seg_ok (node_value nd) as fs \<and>
     (n = t \<longrightarrow> seg_tight (node_value nd) as) \<and> vs = seg_contents (node_value nd) as)"

definition size_ok :: "nat \<Rightarrow> bool" where
  "size_ok sz \<longleftrightarrow> 0 < sz \<and> sz < 2 ^ 61 \<and> (sz mod 2 = 0 \<or> sz = 1)"

text \<open>Only the first segment may be empty.\<close>

definition lscq_ok :: "'a lscq \<Rightarrow> nat list \<Rightarrow> 'a list list \<Rightarrow> bool" where
  "lscq_ok L ns vss \<longleftrightarrow> chain L ns \<and> distinct ns \<and> list_all2 (node_holds L (ltail L)) ns vss \<and>
     lhead L = hd ns \<and> ltail L = last ns \<and> [] \<notin> set (tl vss) \<and> size_ok (internal_order L)"

lemma get_put_node: "get_node (put_node L n nd) m = (if m = n \<and> n < length (nodes L) then Some nd else get_node L m)"
  by (auto simp: get_node_def put_node_def)

lemma put_node_frame [simp]:
  "lhead (put_node L n nd) = lhead L" "ltail (put_node L n nd) = ltail L"
  "internal_order (put_node L n nd) = internal_order L" "put_node (put_node L n nd) n nd' = put_node L n nd'"
  "length (nodes (put_node L n nd)) = length (nodes L)"
  by (simp_all add: put_node_def)

lemma get_node_bound: "get_node L n = Some nd \<Longrightarrow> n < length (nodes L)"
  by (simp add: get_node_def split: if_splits)

lemma put_same_node: "get_node L n = Some nd \<Longrightarrow> put_node L n nd = L"
  by (auto simp: get_node_def put_node_def split: if_splits)

lemma chain_bound: "chain L ns \<Longrightarrow> n \<in> set ns \<Longrightarrow> n < length (nodes L)"
  by (induction L ns rule: chain.induct) (auto dest: get_node_bound)

lemma chain_cong:
  assumes "chain L ns" "\<And>n. n \<in> set ns \<Longrightarrow> map_option node_next (get_node L' n) = map_option node_next (get_node L n)"
  shows "chain L' ns"
  using assms
proof (induction L ns rule: chain.induct)
  case (2 L n)
  then show ?case by (cases "get_node L' n") auto
next
  case (3 L n m ns)
  then have "chain L' (m # ns)" by simp
  then show ?case using 3(2) 3(3) [of n] by (cases "get_node L' n") auto
qed simp

lemma chain_put:
  assumes "chain L ns" "get_node L n = Some nd" "node_next nd' = node_next nd"
  shows "chain (put_node L n nd') ns"
  by (rule chain_cong [OF assms(1)]) (use assms(2,3) get_node_bound [OF assms(2)] in \<open>auto simp: get_put_node\<close>)

lemma chain_head: "chain L (n # ns) \<Longrightarrow> \<exists>nd. get_node L n = Some nd \<and> node_next nd = (case ns of [] \<Rightarrow> None | m # _ \<Rightarrow> Some m)"
  by (cases ns) auto

lemma chain_tail: "chain L (n # ns) \<Longrightarrow> ns \<noteq> [] \<Longrightarrow> chain L ns"
  by (cases ns) auto

lemma chain_last: "chain L ns \<Longrightarrow> \<exists>nd. get_node L (last ns) = Some nd \<and> node_next nd = None"
  by (induction L ns rule: chain.induct) auto

lemma holds_put_other:
  assumes "list_all2 (node_holds L t) ns vss" "n \<notin> set ns"
  shows "list_all2 (node_holds (put_node L n nd) t) ns vss"
  using assms by (elim list.rel_mono_strong) (auto simp: node_holds_def get_put_node)

lemma holds_put:
  assumes "get_node L n = Some nd" "seg_ok q as fs" "n = t \<Longrightarrow> seg_tight q as"
  shows "node_holds (put_node L n (nd\<lparr>node_value := q\<rparr>)) t n (seg_contents q as)"
  using assms get_node_bound [OF assms(1)] by (auto simp: node_holds_def get_put_node)

lemma node_holdsE:
  assumes "node_holds L t n vs"
  obtains nd as fs where "get_node L n = Some nd" "seg_ok (node_value nd) as fs"
    "n = t \<Longrightarrow> seg_tight (node_value nd) as" "vs = seg_contents (node_value nd) as"
  using assms by (auto simp: node_holds_def)

section \<open>The machines inside\<close>

text \<open>A machine on the queue of the node at \<open>cq\<close>.\<close>

lemma node_embed:
  assumes "solo_within f ret n P (node_value nd) pc" "get_node L cq = Some nd"
    and step: "\<And>w L nd pc. get_node L cq = Some nd \<Longrightarrow> internal_order L = sz \<Longrightarrow> ret pc = None \<Longrightarrow>
      F w L (E pc) = (case f w (node_value nd) pc of (q, pc') \<Rightarrow> (put_node L cq (nd\<lparr>node_value := q\<rparr>), E pc'))"
    and "internal_order L = sz" "\<And>pc. ret pc = None \<Longrightarrow> Ret (E pc) = None"
    and "\<And>q pc r. ret pc = Some r \<Longrightarrow> P q r \<Longrightarrow>
      solo_within F Ret m Q (put_node L cq (nd\<lparr>node_value := q\<rparr>)) (E pc)"
  shows "solo_within F Ret (n + m) Q L (E pc)"
proof -
  let ?S = "\<lambda>q. put_node L cq (nd\<lparr>node_value := q\<rparr>)"
  have g: "get_node (?S q) cq = Some (nd\<lparr>node_value := q\<rparr>)" for q
    using get_node_bound [OF assms(2)] by (simp add: get_put_node)
  have "solo_within F Ret (n + m) Q (?S (node_value nd)) (E pc)"
    by (rule within_embed [OF assms(1), where S = ?S and E = "\<lambda>_. E"])
      (use step [OF g] assms(4-6) in \<open>auto split: prod.splits\<close>)
  then show ?thesis using put_same_node [OF assms(2)] by simp
qed

lemma cycle_embed:
  fixes L :: "'a lscq"
  assumes "solo_within (cycle_step True) cycle_returned n P (node_value nd) (CUsed v)" "get_node L cq = Some nd"
    "\<And>q r. P q r \<Longrightarrow> solo_within lscq_enq_step lscq_enq_returned m Q (put_node L cq (nd\<lparr>node_value := q\<rparr>))
      (cycle_next (internal_order L) cq (CRet r))"
  shows "solo_within lscq_enq_step lscq_enq_returned (n + m) Q L (LCycle cq (CUsed v))"
proof -
  have "solo_within lscq_enq_step lscq_enq_returned (n + m) Q L (cycle_next (internal_order L) cq (CUsed v))"
  proof (rule node_embed [OF assms(1,2) _ refl])
    fix w nd' and L' :: "'a lscq" and pc :: "'a cycle_pc"
    assume "get_node L' cq = Some nd'" "internal_order L' = internal_order L" "cycle_returned pc = None"
    then show "lscq_enq_step w L' (cycle_next (internal_order L) cq pc) = (case cycle_step True w (node_value nd') pc of
        (q, pc') \<Rightarrow> (put_node L' cq (nd'\<lparr>node_value := q\<rparr>), cycle_next (internal_order L) cq pc'))"
      by (cases pc) (simp_all add: put_same_node split: prod.splits)
  next
    show "lscq_enq_returned (cycle_next (internal_order L) cq pc) = None" if "cycle_returned pc = None" for pc :: "'a cycle_pc"
      using that by (cases pc) auto
  qed (auto elim!: cycle_returned.elims intro: assms(3))
  then show ?thesis by simp
qed

lemma fill_embed:
  fixes L :: "'a lscq"
  assumes "solo_within (cycle_step False) cycle_returned n P (node_value nd) pc"
    "\<And>q r. P q r \<Longrightarrow> solo_within lscq_enq_step lscq_enq_returned m Q L (fill_next cq (nd\<lparr>node_value := q\<rparr>) (CRet r))"
  shows "solo_within lscq_enq_step lscq_enq_returned (n + m) Q L (fill_next cq nd pc)"
proof -
  let ?E = "\<lambda>q. fill_next cq (nd\<lparr>node_value := q\<rparr>)"
  have "solo_within lscq_enq_step lscq_enq_returned (n + m) Q L (?E (node_value nd) pc)"
  proof (rule within_embed [OF assms(1), where S = "\<lambda>q. L" and E = ?E])
    fix w s and pc :: "'a cycle_pc"
    assume "cycle_returned pc = None"
    then show "lscq_enq_step w L (?E s pc) = (case cycle_step False w s pc of (s', pc') \<Rightarrow> (L, ?E s' pc'))"
      by (cases pc) (simp_all split: prod.splits)
  next
    show "lscq_enq_returned (?E q pc) = None" if "cycle_returned pc = None" for q pc
      using that by (cases pc) auto
  qed (auto elim!: cycle_returned.elims intro: assms(2))
  then show ?thesis by simp
qed

lemma first_embed:
  fixes L :: "'a lscq"
  assumes "solo_within take_step take_returned n P (node_value nd) take_start" "get_node L cq = Some nd"
    "\<And>q r. P q r \<Longrightarrow> solo_within lscq_deq_step lscq_deq_returned m Q (put_node L cq (nd\<lparr>node_value := q\<rparr>))
      (first_next cq (TRet r))"
  shows "solo_within lscq_deq_step lscq_deq_returned (n + m) Q L (QFirst cq take_start)"
proof -
  have "solo_within lscq_deq_step lscq_deq_returned (n + m) Q L (first_next cq take_start)"
  proof (rule node_embed [OF assms(1,2) _ refl])
    fix w nd' and L' :: "'a lscq" and pc :: "'a take_pc"
    assume "get_node L' cq = Some nd'" "internal_order L' = internal_order L" "take_returned pc = None"
    then show "lscq_deq_step w L' (first_next cq pc) = (case take_step w (node_value nd') pc of
        (q, pc') \<Rightarrow> (put_node L' cq (nd'\<lparr>node_value := q\<rparr>), first_next cq pc'))"
      by (cases pc) (simp_all add: put_same_node split: prod.splits)
  next
    show "lscq_deq_returned (first_next cq pc) = None" if "take_returned pc = None" for pc :: "'a take_pc"
      using that by (cases pc) auto
  qed (auto elim!: take_returned.elims intro: assms(3))
  then show ?thesis by simp
qed

lemma second_embed:
  fixes L :: "'a lscq"
  assumes "solo_within take_step take_returned n P (node_value nd) take_start" "get_node L cq = Some nd"
    "\<And>q r. P q r \<Longrightarrow> solo_within lscq_deq_step lscq_deq_returned m Q (put_node L cq (nd\<lparr>node_value := q\<rparr>))
      (second_next cq nx (TRet r))"
  shows "solo_within lscq_deq_step lscq_deq_returned (n + m) Q L (QSecond cq nx take_start)"
proof -
  have "solo_within lscq_deq_step lscq_deq_returned (n + m) Q L (second_next cq nx take_start)"
  proof (rule node_embed [OF assms(1,2) _ refl])
    fix w nd' and L' :: "'a lscq" and pc :: "'a take_pc"
    assume "get_node L' cq = Some nd'" "internal_order L' = internal_order L" "take_returned pc = None"
    then show "lscq_deq_step w L' (second_next cq nx pc) = (case take_step w (node_value nd') pc of
        (q, pc') \<Rightarrow> (put_node L' cq (nd'\<lparr>node_value := q\<rparr>), second_next cq nx pc'))"
      by (cases pc) (simp_all add: put_same_node split: prod.splits)
  next
    show "lscq_deq_returned (second_next cq nx pc) = None" if "take_returned pc = None" for pc :: "'a take_pc"
      using that by (cases pc) auto
  qed (auto elim!: take_returned.elims intro: assms(3))
  then show ?thesis by simp
qed

section \<open>Dequeue\<close>

lemma lscq_okD:
  assumes "lscq_ok L ns vss"
  shows "chain L ns" "distinct ns" "list_all2 (node_holds L (ltail L)) ns vss" "lhead L = hd ns" "ltail L = last ns"
    "[] \<notin> set (tl vss)" "size_ok (internal_order L)"
  using assms unfolding lscq_ok_def by blast+

lemma lscq_ok_front:
  assumes "lscq_ok L (n # ns) (vs # vss)" "get_node L n = Some nd" "seg_ok q as fs" "n = ltail L \<Longrightarrow> seg_tight q as"
  shows "lscq_ok (put_node L n (nd\<lparr>node_value := q\<rparr>)) (n # ns) (seg_contents q as # vss)"
  using lscq_okD [OF assms(1)] holds_put [OF assms(2-4)] holds_put_other [of L "ltail L" ns vss n]
    chain_put [OF _ assms(2), of "n # ns"]
  by (simp add: lscq_ok_def)

lemma dequeue_front:
  assumes "lscq_ok L (n # ns) ((x # xs) # vss)"
  shows "solo_within lscq_deq_step lscq_deq_returned 27
    (\<lambda>L' r. r = Some x \<and> lscq_ok L' (n # ns) (xs # vss)) L QHead"
proof -
  have "node_holds L (ltail L) n (x # xs)" "lhead L = n" using lscq_okD(3,4) [OF assms] by simp_all
  then obtain nd as fs where nd: "get_node L n = Some nd" "seg_ok (node_value nd) as fs"
    "n = ltail L \<Longrightarrow> seg_tight (node_value nd) as" "x # xs = seg_contents (node_value nd) as" by (auto elim: node_holdsE)
  then obtain i as' where as: "as = i # as'" "x = the (backing (node_value nd) ! i)" "xs = seg_contents (node_value nd) as'"
    by (cases as) (auto simp: seg_contents_def)
  let ?Q = "\<lambda>L' r. r = Some x \<and> lscq_ok L' (n # ns) (xs # vss)"
  have "solo_within lscq_deq_step lscq_deq_returned (26 + 0) ?Q L (QFirst n take_start)"
  proof (rule first_embed [OF take_some [OF nd(2) [unfolded as(1)]] nd(1)])
    fix q r
    assume q: "r = Some (the (backing (node_value nd) ! i)) \<and> (\<exists>fs'. seg_ok q as' fs' \<and>
      seg_contents q as' = seg_contents (node_value nd) as' \<and> (seg_tight (node_value nd) (i # as') \<longrightarrow> seg_tight q as'))"
    then obtain fs' where "seg_ok q as' fs'" "n = ltail L \<Longrightarrow> seg_tight q as'" "seg_contents q as' = xs"
      using nd(3) as by auto
    with lscq_ok_front [OF assms nd(1), of q as' fs'] q as(2)
    show "solo_within lscq_deq_step lscq_deq_returned 0 ?Q (put_node L n (nd\<lparr>node_value := q\<rparr>)) (first_next n (TRet r))"
      by (intro within_return [where r = "Some x"]) auto
  qed
  then have "solo_within lscq_deq_step lscq_deq_returned (Suc (26 + 0)) ?Q L QHead"
    by (rule within_step [rotated 2]) (simp_all add: \<open>lhead L = n\<close>)
  then show ?thesis by simp
qed

text \<open>The store of the threshold keeps an empty segment.\<close>

lemma reset_seg:
  assumes "seg_ok q [] fs"
  shows "seg_ok (reset_threshold q) [] fs" "seg_tight q [] \<Longrightarrow> seg_tight (reset_threshold q) []"
proof -
  have k: "order (free_queue q) \<le> 60" by (rule seg_facts(1) [OF assms])
  define th :: "64 word" where "th = 3 * push_bit (order (free_queue q) + 1) 1 - 1"
  have reset: "reset_threshold q = q\<lparr>alloc_queue := (alloc_queue q)\<lparr>threshold := th\<rparr>\<rparr>"
    by (simp only: reset_threshold_def th_def)
  have th: "- 1 \<le> sint th"
  proof -
    let ?v = "6 * 2 ^ order (free_queue q) - 1 :: int"
    have b: "1 \<le> (2 :: int) ^ order (free_queue q)" "(2 :: int) ^ order (free_queue q) \<le> 2 ^ 60"
      using k by (simp, intro power_increasing) auto
    have "th = word_of_int ?v" by (simp add: th_def push_bit_eq_mult)
    moreover have "signed_take_bit 63 ?v = ?v"
    proof (rule signed_take_bit_int_eq_self)
      have "(0 :: int) \<le> 2 ^ 63" by simp
      then show "- (2 ^ 63) \<le> ?v" using b(1) by linarith
      have "(6 :: int) * 2 ^ 60 < 2 ^ 63" by simp
      then show "?v < 2 ^ 63" using b(2) by linarith
    qed
    ultimately have "sint th = ?v" by (simp only: sint_sbintrunc') simp
    then show ?thesis using b(1) by linarith
  qed
  have r: "ring_ok (r\<lparr>threshold := th\<rparr>) h []" if "ring_ok r h []" for r h
    using that th by (auto simp: ring_ok_def entry_ok_def slots_def)
  show "seg_tight q [] \<Longrightarrow> seg_tight (reset_threshold q) []"
    using r by (auto simp: seg_tight_def reset)
  obtain h where h: "ring_good (alloc_queue q) h []" by (rule seg_okD [OF assms])
  have eq: "(alloc_queue q)\<lparr>threshold := th, rtail := w\<rparr> = (alloc_queue q)\<lparr>rtail := w, threshold := th\<rparr>" for w
    by (rule scq_ring.equality) simp_all
  have "ring_ok ((alloc_queue q)\<lparr>threshold := th, rtail := of_nat h\<rparr>) h []"
    unfolding eq by (rule r) (use h in \<open>simp add: ring_good_def\<close>)
  then have "ring_good ((alloc_queue q)\<lparr>threshold := th\<rparr>) h []" using h by (simp add: ring_good_def)
  then show "seg_ok (reset_threshold q) [] fs" using assms by (auto simp: seg_ok_def reset)
qed

lemma take_empty:
  assumes "lscq_ok L (n # ns) ([] # vss)"
  obtains nd where "get_node L n = Some nd" "node_next nd = (case ns of [] \<Rightarrow> None | m # _ \<Rightarrow> Some m)"
    "solo_within take_step take_returned 18
      (\<lambda>q r. r = None \<and> lscq_ok (put_node L n (nd\<lparr>node_value := q\<rparr>)) (n # ns) ([] # vss)) (node_value nd) take_start"
    "lscq_ok (put_node L n (nd\<lparr>node_value := reset_threshold (node_value nd)\<rparr>)) (n # ns) ([] # vss)"
proof -
  have "node_holds L (ltail L) n []" using lscq_okD(3) [OF assms] by simp
  then obtain nd as fs where nd: "get_node L n = Some nd" "seg_ok (node_value nd) as fs"
    "n = ltail L \<Longrightarrow> seg_tight (node_value nd) as" "[] = seg_contents (node_value nd) as" by (auto elim: node_holdsE)
  then have as: "as = []" by (simp add: seg_contents_def)
  have "solo_within take_step take_returned 18
      (\<lambda>q r. r = None \<and> lscq_ok (put_node L n (nd\<lparr>node_value := q\<rparr>)) (n # ns) ([] # vss)) (node_value nd) take_start"
    by (rule within_mono [OF take_none [OF nd(2) [unfolded as]]])
      (use nd(3) as lscq_ok_front [OF assms nd(1), of _ "[]" fs] in \<open>auto simp: seg_contents_def\<close>)
  moreover have "seg_ok (reset_threshold (node_value nd)) [] fs" "n = ltail L \<Longrightarrow> seg_tight (reset_threshold (node_value nd)) []"
    using reset_seg [OF nd(2) [unfolded as]] nd(3) as by auto
  from lscq_ok_front [OF assms nd(1) this]
  have "lscq_ok (put_node L n (nd\<lparr>node_value := reset_threshold (node_value nd)\<rparr>)) (n # ns) ([] # vss)"
    by (simp add: seg_contents_def)
  moreover have "node_next nd = (case ns of [] \<Rightarrow> None | m # _ \<Rightarrow> Some m)"
    using chain_head [OF lscq_okD(1) [OF assms]] nd(1) by auto
  ultimately show thesis using that nd(1) by blast
qed

definition deq_result :: "'a list \<Rightarrow> 'a option \<Rightarrow> 'a list \<Rightarrow> bool" where
  "deq_result vs r vs' \<longleftrightarrow> (case vs of [] \<Rightarrow> r = None \<and> vs' = [] | x # xs \<Rightarrow> r = Some x \<and> vs' = xs)"

lemma lscq_ok_next:
  assumes "lscq_ok L (n # m # ns) (vs # vss)"
  shows "lscq_ok (L\<lparr>lhead := m, retired := R\<rparr>) (m # ns) vss"
proof -
  note d = lscq_okD [OF assms]
  let ?L = "L\<lparr>lhead := m, retired := R\<rparr>"
  have get: "get_node ?L k = get_node L k" for k by (simp add: get_node_def)
  have holds: "node_holds ?L t = node_holds L t" for t by (intro ext) (simp add: node_holds_def get)
  have "chain ?L (m # ns)" by (rule chain_cong [where L = L]) (use d(1) get in auto)
  moreover have "list_all2 (node_holds ?L (ltail ?L)) (m # ns) vss"
    using d(3) holds by simp
  moreover have "[] \<notin> set (tl vss)" using d(6) by (cases vss) auto
  ultimately show ?thesis using d by (simp add: lscq_ok_def)
qed

text \<open>The parts of a \<open>dequeue\<close> that finds its segment empty.\<close>

lemma dequeue_first:
  assumes "lscq_ok L (n # ns) ([] # vss)"
    "\<And>L'. lscq_ok L' (n # ns) ([] # vss) \<Longrightarrow> solo_within lscq_deq_step lscq_deq_returned m Q L' (QNext n)"
  shows "solo_within lscq_deq_step lscq_deq_returned (Suc (18 + m)) Q L QHead"
proof -
  obtain nd where nd: "get_node L n = Some nd" "solo_within take_step take_returned 18
      (\<lambda>q r. r = None \<and> lscq_ok (put_node L n (nd\<lparr>node_value := q\<rparr>)) (n # ns) ([] # vss)) (node_value nd) take_start"
    by (rule take_empty [OF assms(1)])
  have "solo_within lscq_deq_step lscq_deq_returned (18 + m) Q L (QFirst n take_start)"
    by (rule first_embed [OF nd(2,1)]) (use assms(2) in auto)
  then show ?thesis by (rule within_step [rotated 2]) (use lscq_okD(4) [OF assms(1)] in simp_all)
qed

lemma dequeue_swing:
  assumes "lscq_ok L (n # m # ns) (vs # vss)"
    "\<And>L'. lscq_ok L' (m # ns) vss \<Longrightarrow> solo_within lscq_deq_step lscq_deq_returned k Q L' QHead"
  shows "solo_within lscq_deq_step lscq_deq_returned (Suc (Suc k)) Q L (QSwing n m)"
proof -
  have "solo_within lscq_deq_step lscq_deq_returned (Suc k) Q (L\<lparr>lhead := m\<rparr>) (QRetire n)"
    using assms(2) [OF lscq_ok_next [OF assms(1), of "n # retired L"]] by (rule within_step [rotated 2]) simp_all
  then show ?thesis
    by (rule within_step [rotated 2])
      (use lscq_okD(4) [OF assms(1)] in \<open>simp_all add: compare_exchange_def compare_exchange_weak_def\<close>)
qed

lemma dequeue_advance:
  fixes L :: "'a lscq"
  assumes "lscq_ok L (n # m # ns) ([] # vss)"
    "\<And>L'. lscq_ok L' (m # ns) vss \<Longrightarrow> solo_within lscq_deq_step lscq_deq_returned k Q L' QHead"
  shows "solo_within lscq_deq_step lscq_deq_returned (Suc (Suc (18 + Suc (Suc k)))) Q L (QNext n)"
proof -
  let ?reset = "\<lambda>nd. put_node L n (nd\<lparr>node_value := reset_threshold (node_value nd)\<rparr>)"
  obtain nd where nd: "get_node L n = Some nd" "node_next nd = Some m" "lscq_ok (?reset nd) (n # m # ns) ([] # vss)"
    using take_empty [OF assms(1)] by (metis list.simps(5))
  obtain nd' where nd': "get_node (?reset nd) n = Some nd'" "solo_within take_step take_returned 18
      (\<lambda>q r. r = None \<and> lscq_ok (put_node (?reset nd) n (nd'\<lparr>node_value := q\<rparr>)) (n # m # ns) ([] # vss))
      (node_value nd') take_start"
    by (rule take_empty [OF nd(3)])
  have "solo_within lscq_deq_step lscq_deq_returned (18 + Suc (Suc k)) Q (?reset nd) (QSecond n m take_start)"
  proof (rule second_embed [OF nd'(2,1)])
    fix q and r :: "'a option"
    assume q: "r = None \<and> lscq_ok (put_node (?reset nd) n (nd'\<lparr>node_value := q\<rparr>)) (n # m # ns) ([] # vss)"
    show "solo_within lscq_deq_step lscq_deq_returned (Suc (Suc k)) Q
        (put_node (?reset nd) n (nd'\<lparr>node_value := q\<rparr>)) (second_next n m (TRet r))"
      using dequeue_swing [OF conjunct2 [OF q] assms(2)] q by simp
  qed
  then have "solo_within lscq_deq_step lscq_deq_returned (Suc (18 + Suc (Suc k))) Q L (QThresh n m)"
    by (rule within_step [rotated 2]) (use nd in simp_all)
  then show ?thesis by (rule within_step [rotated 2]) (use nd in simp_all)
qed

lemma lscq_dequeue_within:
  assumes "lscq_ok L ns vss"
  shows "solo_within lscq_deq_step lscq_deq_returned 70
    (\<lambda>L' r. \<exists>ns' vss'. lscq_ok L' ns' vss' \<and> deq_result (concat vss) r (concat vss')) L QHead"
    (is "solo_within _ _ _ ?Q _ _")
proof -
  note d = lscq_okD [OF assms]
  obtain n ns1 where ns: "ns = n # ns1" using d(1) by (cases ns) auto
  then obtain vs vss1 where vss: "vss = vs # vss1" using d(3) by (cases vss) auto
  have front: "solo_within lscq_deq_step lscq_deq_returned 27 ?Q L' QHead"
    if "lscq_ok L' (n # ns) ((x # xs) # ws)" "concat vss = x # xs @ concat ws" for L' n ns x xs ws
    using dequeue_front [OF that(1)]
    by (rule within_mono) (auto simp: that(2) deq_result_def intro!: exI [of _ "xs # ws"])
  consider x xs where "vs = x # xs" | "vs = []" "ns1 = []" "vss1 = []"
    | m ns2 x xs ws where "vs = []" "ns1 = m # ns2" "vss1 = (x # xs) # ws"
  proof (cases vs; cases ns1)
    fix m ns2
    assume e: "vs = []" "ns1 = m # ns2"
    then obtain us ws where v1: "vss1 = us # ws" using d(3) ns vss by (cases vss1) auto
    moreover obtain x xs where "us = x # xs" using d(6) vss v1 by (cases us) auto
    ultimately show thesis using that(3) e by blast
  qed (use that(1,2) d(3) ns vss in auto)
  then show ?thesis
  proof cases
    case 1
    show ?thesis by (rule within_mono [OF front]) (use assms ns vss 1 in auto)
  next
    case 2
    have "solo_within lscq_deq_step lscq_deq_returned (Suc 0) ?Q L' (QNext n)" if ok: "lscq_ok L' [n] [[]]" for L'
    proof -
      obtain nd where "get_node L' n = Some nd" "node_next nd = None"
        using chain_head [of L' n "[]"] lscq_okD(1) [OF ok] by auto
      then show ?thesis
        using ok by (intro within_step [OF _ _ within_return [where r = None]])
          (auto simp: vss 2 deq_result_def intro!: exI [of _ "[[]]"])
    qed
    from within_mono [OF dequeue_first [OF _ this]] show ?thesis using assms ns vss 2 by auto
  next
    case (3 m ns2 x xs ws)
    have "solo_within lscq_deq_step lscq_deq_returned (Suc (Suc (18 + Suc (Suc 27)))) ?Q L' (QNext n)"
      if "lscq_ok L' (n # m # ns2) ([] # (x # xs) # ws)" for L'
      by (rule dequeue_advance [OF that], rule front) (auto simp: vss 3)
    from within_mono [OF dequeue_first [OF _ this]] show ?thesis using assms ns vss 3 by auto
  qed
qed

section \<open>Enqueue\<close>

lemma lscq_ok_last:
  assumes "lscq_ok L ns vss"
  obtains pre t pv w nd where "ns = pre @ [t]" "vss = pv @ [w]" "list_all2 (node_holds L t) pre pv" "node_holds L t t w"
    "ltail L = t" "t \<notin> set pre" "get_node L t = Some nd" "node_next nd = None"
proof -
  note d = lscq_okD [OF assms]
  have "ns \<noteq> []" using d(1) by auto
  then obtain pre t where ns: "ns = pre @ [t]" by (metis rev_exhaust)
  then obtain pv w where vss: "vss = pv @ [w]" "list_all2 (node_holds L t) pre pv" "node_holds L t t w"
    using d(3,5) by (auto simp: list_all2_append1 list_all2_Cons1)
  obtain nd where "get_node L t = Some nd" "node_next nd = None" using chain_last [OF d(1)] ns by auto
  then show thesis using that [OF ns vss] d(2,5) ns by simp
qed

lemma get_link_node:
  assumes "get_node L t = Some old"
  shows "get_node (link_node L t old nd) n = (if n = length (nodes L) then Some nd
    else if n = t then Some (old\<lparr>node_next := Some (length (nodes L))\<rparr>) else get_node L n)"
  using get_node_bound [OF assms] by (auto simp: get_node_def link_node_def nth_append)

lemma chain_link:
  assumes "chain L (pre @ [t])" "get_node L t = Some old" "t \<notin> set pre" "node_next nd = None"
  shows "chain (link_node L t old nd) (pre @ [t, length (nodes L)])"
  using assms
proof (induction pre)
  case (Cons p pre)
  have p: "p \<noteq> length (nodes L)" using chain_bound [OF Cons.prems(1), of p] by auto
  have c: "chain L (pre @ [t])" using chain_tail Cons.prems(1) by (metis Nil_is_append_conv append_Cons list.distinct(1))
  show ?case using Cons.IH [OF c] Cons.prems p by (cases pre) (auto simp: get_link_node)
qed (use get_node_bound in \<open>fastforce simp: get_link_node\<close>)

lemma link_ok:
  assumes "chain L (pre @ [t])" "distinct (pre @ [t])" "list_all2 (node_holds L (length (nodes L))) (pre @ [t]) vss"
    "lhead L = hd (pre @ [t])" "[] \<notin> set (tl vss)" "size_ok (internal_order L)" "get_node L t = Some old"
    and nd: "seg_ok (node_value nd) as fs" "seg_tight (node_value nd) as" "seg_contents (node_value nd) as = [v]"
      "node_next nd = None"
  shows "lscq_ok ((link_node L t old nd)\<lparr>ltail := length (nodes L)\<rparr>) (pre @ [t, length (nodes L)]) (vss @ [[v]])"
proof -
  let ?L = "(link_node L t old nd)\<lparr>ltail := length (nodes L)\<rparr>" and ?new = "length (nodes L)"
  have get: "get_node ?L n = get_node (link_node L t old nd) n" for n by (simp add: get_node_def)
  have bound: "n < ?new" if "n \<in> set (pre @ [t])" for n by (rule chain_bound [OF assms(1) that])
  have "chain ?L (pre @ [t, ?new])"
    by (rule chain_cong [OF chain_link [OF assms(1,7) _ nd(4)]]) (use assms(2) get in auto)
  moreover have "distinct (pre @ [t, ?new])" using assms(2) bound by force
  moreover have "list_all2 (node_holds ?L ?new) (pre @ [t]) vss"
  proof (rule list.rel_mono_strong [OF assms(3)])
    fix n ys
    assume n: "n \<in> set (pre @ [t])" "node_holds L ?new n ys"
    have "n \<noteq> ?new" using bound [OF n(1)] by simp
    then show "node_holds ?L ?new n ys"
      using n(2) assms(7) by (cases "n = t") (auto simp: node_holds_def get get_link_node [OF assms(7)])
  qed
  moreover have "list_all2 (node_holds ?L ?new) [?new] [[v]]"
    using nd by (auto simp: node_holds_def get get_link_node [OF assms(7)])
  ultimately have "list_all2 (node_holds ?L ?new) ((pre @ [t]) @ [?new]) (vss @ [[v]])" "distinct (pre @ [t, ?new])"
    "chain ?L (pre @ [t, ?new])"
    using list_all2_appendI by blast+
  moreover have "lhead ?L = hd (pre @ [t, ?new])" "ltail ?L = ?new" "internal_order ?L = internal_order L"
    using assms(4) by (cases pre; simp add: link_node_def)+
  moreover have "[] \<notin> set (tl (vss @ [[v]]))" using assms(5) by (cases vss) auto
  ultimately show ?thesis using assms(6) by (simp add: lscq_ok_def)
qed

lemma new_node:
  assumes "size_ok sz"
  obtains nd :: "'a lscq_node" and fs where "node_new sz = Some nd" "bq_ok (node_value nd) [] fs" "node_next nd = None"
proof -
  obtain q :: "'a bounded_queue" and fs where "alloc_bounded_new 1 sz = Some q" "bq_ok q [] fs"
    using alloc_new_ok [of sz 1, where 'a = 'a] assms unfolding size_ok_def by metis
  then show thesis using that [of "\<lparr>node_value = q, node_next = None\<rparr>" fs] by (simp add: node_new_def)
qed

text \<open>What happens once the last segment has refused the element.\<close>

lemma enqueue_link:
  assumes "chain L (pre @ [t])" "distinct (pre @ [t])" "list_all2 (node_holds L (length (nodes L))) (pre @ [t]) vss"
    "lhead L = hd (pre @ [t])" "[] \<notin> set (tl vss)" "size_ok (internal_order L)" "get_node L t = Some old"
    "node_next old = None" "ltail L = t"
  shows "solo_within lscq_enq_step lscq_enq_returned (27 + 2) (\<lambda>L' r. \<exists>ns'. lscq_ok L' ns' (vss @ [[v]])) L
    (cycle_next (internal_order L) t (CRet (Err (v, e))))"
proof -
  let ?Q = "\<lambda>L' r. \<exists>ns'. lscq_ok L' ns' (vss @ [[v]])"
  obtain nd :: "'a lscq_node" and fs where nd: "node_new (internal_order L) = Some nd" "bq_ok (node_value nd) [] fs"
    "node_next nd = None" by (rule new_node [OF assms(6)])
  obtain h where h: "ring_ok (alloc_queue (node_value nd)) h []" "\<not> finalized (alloc_queue (node_value nd))"
    using nd(2) by (auto simp: bq_ok_def)
  have "solo_within lscq_enq_step lscq_enq_returned (27 + 2) ?Q L (fill_next t nd (CUsed v))"
  proof (rule fill_embed [OF cycle_room [OF bq_ok_seg [OF nd(2)] h]])
    fix q and r :: "(unit, 'a \<times> queue_error) rust_result"
    assume q: "r = Ok () \<and> (\<exists>as' fs'. seg_ok q as' fs' \<and> ring_ok (alloc_queue q) h as' \<and>
      seg_contents q as' = seg_contents (node_value nd) [] @ [v])"
    let ?nd = "nd\<lparr>node_value := q\<rparr>" and ?L = "\<lambda>q. link_node L t old (nd\<lparr>node_value := q\<rparr>)"
    have "\<exists>as fs. seg_ok q as fs \<and> seg_tight q as \<and> seg_contents q as = [v]"
      using q by (auto simp: seg_tight_def seg_contents_def)
    then have "lscq_ok ((?L q)\<lparr>ltail := length (nodes L)\<rparr>) (pre @ [t, length (nodes L)]) (vss @ [[v]])"
      using link_ok [OF assms(1-7), of ?nd] nd(3) by auto
    then have "solo_within lscq_enq_step lscq_enq_returned (Suc 0) ?Q (?L q) (LSwing t (length (nodes L)))"
      using assms(9) by (intro within_step [OF _ _ within_return [where r = "()"]])
        (auto simp: compare_exchange_def compare_exchange_weak_def link_node_def)
    then have "solo_within lscq_enq_step lscq_enq_returned (Suc (Suc 0)) ?Q L (LLink t ?nd)"
      by (rule within_step [rotated 2]) (use assms(7,8) in \<open>simp_all add: compare_exchange_def compare_exchange_weak_def\<close>)
    then show "solo_within lscq_enq_step lscq_enq_returned 2 ?Q L (fill_next t ?nd (CRet r))"
      using q by (simp add: numeral_2_eq_2)
  qed (use bq_ok_facts(1) [OF nd(2)] in simp)
  then show ?thesis using nd(1) by (simp add: new_next_def)
qed

lemma enqueue_refused:
  assumes "lscq_ok L (pre @ [t]) (pv @ [w])" "get_node L t = Some nd" "node_next nd = None"
    "seg_ok q as fs" "seg_contents q as = w"
  shows "solo_within lscq_enq_step lscq_enq_returned (27 + 2) (\<lambda>L' r. \<exists>ns'. lscq_ok L' ns' ((pv @ [w]) @ [[v]]))
    (put_node L t (nd\<lparr>node_value := q\<rparr>)) (cycle_next (internal_order L) t (CRet (Err (v, e))))"
proof -
  note d = lscq_okD [OF assms(1)]
  let ?L = "put_node L t (nd\<lparr>node_value := q\<rparr>)" and ?new = "length (nodes L)"
  have bound: "n < ?new" if "n \<in> set (pre @ [t])" for n by (rule chain_bound [OF d(1) that])
  have pre: "list_all2 (node_holds L t) pre pv" "t \<notin> set pre"
    using d(2,3,5) list_all2_lengthD [OF d(3)] by (auto simp: list_all2_append)
  have "list_all2 (node_holds ?L ?new) pre pv"
    by (rule list.rel_mono_strong [OF holds_put_other [OF pre]]) (use bound in \<open>fastforce simp: node_holds_def\<close>)
  moreover have "list_all2 (node_holds ?L ?new) [t] [w]"
    using holds_put [OF assms(2,4), of ?new] assms(5) bound [of t] by auto
  ultimately have "list_all2 (node_holds ?L ?new) (pre @ [t]) (pv @ [w])" by (rule list_all2_appendI)
  moreover have "chain ?L (pre @ [t])" by (rule chain_put [OF d(1) assms(2)]) simp
  moreover have "get_node ?L t = Some (nd\<lparr>node_value := q\<rparr>)"
    using get_node_bound [OF assms(2)] by (simp add: get_put_node)
  ultimately show ?thesis
    using enqueue_link [of ?L pre t "pv @ [w]" "nd\<lparr>node_value := q\<rparr>" v e] d assms(3) by simp
qed

lemma enqueue_stored:
  assumes "lscq_ok L (pre @ [t]) (pv @ [w])" "get_node L t = Some nd" "seg_ok q as fs" "ring_ok (alloc_queue q) h as"
    "seg_contents q as \<noteq> []"
  shows "lscq_ok (put_node L t (nd\<lparr>node_value := q\<rparr>)) (pre @ [t]) (pv @ [seg_contents q as])"
proof -
  note d = lscq_okD [OF assms(1)]
  let ?L = "put_node L t (nd\<lparr>node_value := q\<rparr>)"
  have pre: "list_all2 (node_holds L t) pre pv" "t \<notin> set pre"
    using d(2,3,5) list_all2_lengthD [OF d(3)] by (auto simp: list_all2_append)
  have "node_holds ?L t t (seg_contents q as)" using holds_put [OF assms(2,3), of t] assms(4) by (auto simp: seg_tight_def)
  moreover have "[] \<notin> set (tl (pv @ [seg_contents q as]))" using d(6) assms(5) by (cases pv) auto
  ultimately show ?thesis
    using d chain_put [OF d(1) assms(2)] holds_put_other [OF pre] by (simp add: lscq_ok_def list_all2_appendI)
qed

lemma enqueue_last:
  assumes "lscq_ok L (pre @ [t]) (pv @ [w])" "get_node L t = Some nd" "node_next nd = None"
  shows "solo_within lscq_enq_step lscq_enq_returned 60
    (\<lambda>L' r. \<exists>ns' vss'. lscq_ok L' ns' vss' \<and> concat vss' = concat pv @ w @ [v]) L (LCycle t (CUsed v))"
    (is "solo_within _ _ _ ?Q _ _")
proof -
  have "node_holds L t t w"
    using lscq_okD(3,5) [OF assms(1)] list_all2_lengthD [OF lscq_okD(3) [OF assms(1)]] by (auto simp: list_all2_append)
  then obtain as fs where seg: "seg_ok (node_value nd) as fs" "seg_tight (node_value nd) as" "w = seg_contents (node_value nd) as"
    using assms(2) by (auto elim!: node_holdsE)
  then obtain h where h: "ring_ok (alloc_queue (node_value nd)) h as" by (auto simp: seg_tight_def)
  let ?S = "\<lambda>q. put_node L t (nd\<lparr>node_value := q\<rparr>)"
  have refused: "solo_within lscq_enq_step lscq_enq_returned 29 ?Q (?S q) (cycle_next (internal_order L) t (CRet (Err (v, e))))"
    if "seg_ok q as fs'" "seg_contents q as = w" for q fs' e
  proof -
    have vss: "concat ((pv @ [w]) @ [[v]]) = concat pv @ w @ [v]" by simp
    from enqueue_refused [OF assms that] show ?thesis by (rule within_mono) (simp, use vss in metis)
  qed
  have stored: "?Q (?S q) ()" if "seg_ok q as' fs'" "ring_ok (alloc_queue q) h as'" "seg_contents q as' = w @ [v]" for q as' fs'
    using enqueue_stored [OF assms(1,2) that(1,2)] that(3) by (auto intro!: exI [of _ "pv @ [w @ [v]]"])
  consider "length as = 2 ^ order (free_queue (node_value nd))" | "finalized (alloc_queue (node_value nd))"
      "length as < 2 ^ order (free_queue (node_value nd))"
    | "\<not> finalized (alloc_queue (node_value nd))" "length as < 2 ^ order (free_queue (node_value nd))"
    using seg_facts(3) [OF seg(1)] by linarith
  then show ?thesis
  proof cases
    case 1
    show ?thesis
      by (rule within_mono [OF cycle_embed [OF cycle_full [OF seg(1) 1] assms(2)]]) (use refused [OF seg(1)] seg(3) in auto)
  next
    case 2
    show ?thesis
      by (rule within_mono [OF cycle_embed [OF cycle_finalized [OF seg(1) h 2] assms(2)]]) (use refused seg(3) in auto)
  next
    case 3
    have "solo_within lscq_enq_step lscq_enq_returned (27 + 0) ?Q L (LCycle t (CUsed v))"
      by (rule cycle_embed [OF cycle_room [OF seg(1) h 3] assms(2)])
        (use stored seg(3) in \<open>fastforce intro!: within_return [where r = "()"]\<close>)
    then show ?thesis by (rule within_mono) auto
  qed
qed

lemma lscq_enqueue_within:
  assumes "lscq_ok L ns vss"
  shows "solo_within lscq_enq_step lscq_enq_returned 65
    (\<lambda>L' r. \<exists>ns' vss'. lscq_ok L' ns' vss' \<and> concat vss' = concat vss @ [v]) L (LTail v)" (is "solo_within _ _ _ ?Q _ _")
proof -
  obtain pre t pv w nd where l: "ns = pre @ [t]" "vss = pv @ [w]" "ltail L = t" "get_node L t = Some nd" "node_next nd = None"
    by (rule lscq_ok_last [OF assms])
  have "solo_within lscq_enq_step lscq_enq_returned 60 ?Q L (LCycle t (CUsed v))"
    using enqueue_last [of L pre t pv w nd v] assms l by simp
  then have "solo_within lscq_enq_step lscq_enq_returned (Suc 60) ?Q L (LNext v t)"
    by (rule within_step [rotated 2]) (use l in simp_all)
  then have "solo_within lscq_enq_step lscq_enq_returned (Suc (Suc 60)) ?Q L (LTail v)"
    by (rule within_step [rotated 2]) (use l in simp_all)
  then show ?thesis by (rule within_mono) auto
qed

section \<open>The queues\<close>

lemma lscq_new_ok:
  assumes "size_ok sz"
  obtains L :: "'a lscq" where "lscq_new sz = Some L" "lscq_ok L [0] [[]]"
proof -
  obtain nd :: "'a lscq_node" and fs where nd: "node_new sz = Some nd" "bq_ok (node_value nd) [] fs" "node_next nd = None"
    by (rule new_node [OF assms])
  let ?L = "\<lparr>nodes = [nd], lhead = 0, ltail = 0, internal_order = sz, retired = []\<rparr> :: 'a lscq"
  have seg: "seg_ok (node_value nd) [] fs" "seg_tight (node_value nd) []" "seg_contents (node_value nd) [] = []"
    using bq_ok_seg [OF nd(2)] nd(2) by (auto simp: seg_tight_def seg_contents_def bq_ok_def)
  have get: "get_node ?L 0 = Some nd" by (simp add: get_node_def)
  have "node_holds ?L 0 0 []" unfolding node_holds_def using seg get by metis
  moreover have "chain ?L [0]" using get nd(3) by simp
  ultimately have "lscq_ok ?L [0] [[]]" using assms by (simp add: lscq_ok_def)
  then show thesis using that [of ?L] nd(1) by (simp add: lscq_new_def)
qed

end
