(* ===== verification/Lscq_Queue.thy ===== *)
theory Lscq_Queue
  imports Lscq_Seq
begin

text \<open>
  What the unbounded queues promise to one thread: they are first-in first-out without bound, whatever the
  size of the segments, and \<open>drop\<close> destroys exactly what is left; the counted queue also knows its length.
\<close>

section \<open>The contract of the unbounded queue\<close>

definition unbounded_holds :: "'a unbounded \<Rightarrow> 'a list \<Rightarrow> bool" where
  "unbounded_holds u xs \<longleftrightarrow> (\<exists>ns vss. lscq_ok (uq_internal u) ns vss \<and> xs = concat vss)"

lemma unbounded_holdsE:
  assumes "unbounded_holds u xs"
  obtains ns vss where "lscq_ok (uq_internal u) ns vss" "xs = concat vss"
  using assms by (auto simp: unbounded_holds_def)

lemma unbounded_enqueue_holds:
  assumes "unbounded_holds u xs"
  shows "\<exists>u'. unbounded_enqueue ws u v = Some u' \<and> unbounded_holds u' (xs @ [v]) \<and> uq_size u' = uq_size u"
proof -
  obtain ns vss where u: "lscq_ok (uq_internal u) ns vss" "xs = concat vss" by (rule unbounded_holdsE [OF assms])
  from within_run [OF lscq_enqueue_within [OF u(1), of v], of ws] show ?thesis
    using u(2) by (fastforce simp: unbounded_enqueue_def lscq_enqueue_def unbounded_holds_def)
qed

lemma unbounded_dequeue_holds:
  assumes "unbounded_holds u xs"
  shows "\<exists>u' r ys. unbounded_dequeue ws u = Some (u', r) \<and> unbounded_holds u' ys \<and> deq_result xs r ys \<and>
    uq_size u' = uq_size u"
proof -
  obtain ns vss where u: "lscq_ok (uq_internal u) ns vss" "xs = concat vss" by (rule unbounded_holdsE [OF assms])
  from within_run [OF lscq_dequeue_within [OF u(1)], of ws] show ?thesis
    using u(2) by (fastforce simp: unbounded_dequeue_def lscq_dequeue_def unbounded_holds_def)
qed

interpretation uq: unbounded_fifo unbounded_holds "\<lambda>u. unbounded_enqueue (ws u) u" "\<lambda>u. unbounded_dequeue (ws u) u"
  for ws :: "'a unbounded \<Rightarrow> bool list"
proof (unfold_locales, goal_cases)
  case (1 u xs v)
  then show ?case using unbounded_enqueue_holds [OF 1, of "ws u" v] by auto
next
  case (2 u x xs)
  then show ?case using unbounded_dequeue_holds [OF 2, of "ws u"] by (auto simp: deq_result_def)
next
  case (3 u)
  then show ?case using unbounded_dequeue_holds [OF 3, of "ws u"] by (auto simp: deq_result_def)
qed

lemma with_segment_size_holds:
  assumes "size_ok sz"
  obtains u :: "'a unbounded" where "with_segment_size sz = Some u" "unbounded_holds u []" "uq_size u = sz"
proof -
  obtain L :: "'a lscq" where "lscq_new sz = Some L" "lscq_ok L [0] [[]]" by (rule lscq_new_ok [OF assms])
  then show thesis
    by (intro that [of "\<lparr>uq_internal = L, uq_size = sz\<rparr>"]) (auto simp: with_segment_size_def unbounded_holds_def intro!: exI [of _ "[0]"] exI [of _ "[[]]"])
qed

lemma with_segment_size_ok: "with_segment_size sz = Some u \<Longrightarrow> sz < 2 ^ 61 \<Longrightarrow> size_ok sz"
  by (auto simp: with_segment_size_def lscq_new_def node_new_def alloc_bounded_new_def determine_order_def
      checked_ilog2_def size_ok_def split: option.splits if_splits)

lemma unbounded_new_capacity: "\<exists>u. unbounded_new = Some u \<and> base_segment_capacity u = 32"
proof -
  have "size_ok 32" by (simp add: size_ok_def)
  from with_segment_size_holds [OF this] show ?thesis by (metis unbounded_new_def base_segment_capacity_def)
qed

section \<open>Drop\<close>

lemma segment_drop:
  assumes "seg_ok q as fs"
  shows "\<exists>q'. bounded_drop ws q = Some (q', seg_contents q as)"
proof -
  obtain h where h: "ring_good (alloc_queue q) h as" by (rule seg_okD [OF assms])
  have "i < length (backing q)" if "i \<in> set as" for i using seg_facts(8) [OF assms, of i] that by simp
  then have "distinct as" "\<forall>i \<in> set as. i < length (backing q) \<and> backing q ! i \<noteq> None"
    using assms unfolding seg_ok_def distinct_append by blast+
  from bounded_drop_loop [OF h this] show ?thesis by (simp add: seg_contents_def)
qed

lemma drop_nodes_chain:
  assumes "chain L ns" "list_all2 (node_holds L t) ns vss"
  shows "drop_nodes ws L (Some (hd ns)) = Some (concat vss)"
  using assms
proof (induction ns arbitrary: vss ws)
  case (Cons n ns)
  obtain vs vss' where v: "vss = vs # vss'" "node_holds L t n vs" "list_all2 (node_holds L t) ns vss'"
    using Cons.prems(2) by (auto simp: list_all2_Cons1)
  obtain nd as fs where nd: "get_node L n = Some nd" "seg_ok (node_value nd) as fs" "vs = seg_contents (node_value nd) as"
    using v(2) by (auto elim: node_holdsE)
  obtain q where q: "bounded_drop (ws 0) (node_value nd) = Some (q, vs)" using segment_drop [OF nd(2)] nd(3) by blast
  have "drop_nodes ws' L (node_next nd) = Some (concat vss')" for ws'
  proof (cases ns)
    case Nil
    then have "node_next nd = None" "vss' = []" using Cons.prems(1) nd(1) v(3) by auto
    then show ?thesis by (simp add: drop_nodes.simps)
  next
    case (Cons m ns')
    then have "node_next nd = Some (hd ns)" using chain_head [OF Cons.prems(1)] nd(1) by simp
    then show ?thesis using Cons.IH [OF chain_tail [OF Cons.prems(1)] v(3)] Cons by simp
  qed
  then show ?case using nd(1) q v(1) by (simp add: drop_nodes.simps [of ws L "Some n"])
qed simp

lemma unbounded_drop_holds:
  assumes "unbounded_holds u xs"
  shows "lscq_drop ws (uq_internal u) = Some xs"
proof -
  obtain ns vss where u: "lscq_ok (uq_internal u) ns vss" "xs = concat vss" by (rule unbounded_holdsE [OF assms])
  show ?thesis using drop_nodes_chain [OF lscq_okD(1,3) [OF u(1)]] lscq_okD(4) [OF u(1)] u(2) by (simp add: lscq_drop_def)
qed

section \<open>The counted queue\<close>

definition counted_holds :: "'a counted \<Rightarrow> 'a list \<Rightarrow> bool" where
  "counted_holds c xs \<longleftrightarrow> unbounded_holds (cq_queue c) xs \<and> cq_length c = of_nat (length xs)"

interpretation ct: unbounded_fifo counted_holds "\<lambda>c. counted_enqueue (ws c) c" "\<lambda>c. counted_dequeue (ws c) c"
  for ws :: "'a counted \<Rightarrow> bool list"
proof (unfold_locales, goal_cases)
  case (1 c xs v)
  then show ?case
    using unbounded_enqueue_holds [of "cq_queue c" xs "ws c" v]
    by (auto simp: counted_holds_def counted_enqueue_def Let_def)
next
  case (2 c x xs)
  then show ?case
    using unbounded_dequeue_holds [of "cq_queue c" "x # xs" "ws c"]
    by (auto simp: counted_holds_def counted_dequeue_def deq_result_def)
next
  case (3 c)
  then show ?case
    using unbounded_dequeue_holds [of "cq_queue c" "[]" "ws c"]
    by (auto simp: counted_holds_def counted_dequeue_def deq_result_def)
qed

section \<open>Properties\<close>

text \<open>C23: Used by one thread, the unbounded queue of \<open>lfqueue\<close> is first-in first-out and never refuses an
  element: for every accepted segment size, any sequence of operations returns what a reference queue
  whose bound is never reached returns, through any number of segments, and a final \<open>drop\<close> destroys exactly
  what is left.\<close>

theorem unbounded_queue_fifo:
  assumes "sz < 2 ^ 61" "with_segment_size sz = Some u" "length ps \<le> N"
  shows "\<exists>u' rs. run_ops (unbounded_op (\<lambda>u. unbounded_enqueue (ws u) u) (\<lambda>u. unbounded_dequeue (ws u) u)) u ps =
      Some (u', rs) \<and> fifo_ref_run N [] ps = (the (lscq_drop ds (uq_internal u')), rs) \<and>
    lscq_drop ds (uq_internal u') \<noteq> None"
proof -
  have "unbounded_holds u []"
    using with_segment_size_holds [OF with_segment_size_ok [OF assms(2,1)], where 'a = 'a] assms(2) by (metis option.inject)
  from uq.unbounded_run [OF this, of ps N ws] assms(3) obtain u' where
    "run_ops (unbounded_op (\<lambda>u. unbounded_enqueue (ws u) u) (\<lambda>u. unbounded_dequeue (ws u) u)) u ps =
      Some (u', snd (fifo_ref_run N [] ps))" "unbounded_holds u' (fst (fifo_ref_run N [] ps))" by auto
  then show ?thesis using unbounded_drop_holds [of u'] by auto
qed

text \<open>\<open>CountedUnboundedQueue\<close> used by one thread: besides, \<open>len\<close> is the number of its elements and
  \<open>is_empty\<close> says whether there are any, as long as there are fewer than \<open>2 ^ 64\<close>.\<close>

theorem counted_queue_length:
  assumes "sz < 2 ^ 61" "counted_with_segment_size sz = Some c" "length ps \<le> N" "N < 2 ^ 64"
  shows "\<exists>c' xs rs. run_ops (unbounded_op (\<lambda>c. counted_enqueue (ws c) c) (\<lambda>c. counted_dequeue (ws c) c)) c ps =
      Some (c', rs) \<and> fifo_ref_run N [] ps = (xs, rs) \<and>
    unat (counted_len c') = length xs \<and> (counted_is_empty c' \<longleftrightarrow> xs = [])"
proof -
  obtain u where u: "with_segment_size sz = Some u" and c: "c = \<lparr>cq_queue = u, cq_length = 0\<rparr>"
    using assms(2) that by (auto simp: counted_with_segment_size_def)
  then have "unbounded_holds u []"
    using with_segment_size_holds [OF with_segment_size_ok [OF u assms(1)], where 'a = 'a] by (metis option.inject)
  then have "counted_holds c []" by (simp add: c counted_holds_def)
  from ct.unbounded_run [OF this, of ps N ws] assms(3) obtain c' where
    c': "run_ops (unbounded_op (\<lambda>c. counted_enqueue (ws c) c) (\<lambda>c. counted_dequeue (ws c) c)) c ps =
      Some (c', snd (fifo_ref_run N [] ps))" "counted_holds c' (fst (fifo_ref_run N [] ps))" by auto
  have "length (fst (fifo_ref_run N [] ps)) \<le> N" by (rule fifo_ref_run_length) simp
  then have len: "unat (counted_len c') = length (fst (fifo_ref_run N [] ps))"
    using c'(2) assms(4) by (simp add: counted_holds_def counted_len_def)
  then have "counted_is_empty c' \<longleftrightarrow> fst (fifo_ref_run N [] ps) = []"
    by (metis counted_is_empty_def length_0_conv unat_eq_zero)
  then show ?thesis using c'(1) len by (metis prod.collapse)
qed

theorem unbounded_queue_fifo_witness:
  "\<exists>u u' rs. with_segment_size 2 = Some u \<and>
     run_ops (unbounded_op (\<lambda>u. unbounded_enqueue [True] u) (\<lambda>u. unbounded_dequeue [True] u)) u
       [Enq (1 :: nat), Enq 2, Enq 3, Deq] = Some (u', [REnq (Ok ()), REnq (Ok ()), REnq (Ok ()), RDeq (Some 1)]) \<and>
     lscq_drop (\<lambda>_ _. []) (uq_internal u') = Some [2, 3]"
proof -
  have ok: "size_ok 2" by (simp add: size_ok_def)
  obtain u :: "nat unbounded" where u: "with_segment_size 2 = Some u" by (rule with_segment_size_holds [OF ok])
  from unbounded_queue_fifo [OF _ u, of "[Enq 1, Enq 2, Enq 3, Deq]" 4 "\<lambda>_. [True]" "\<lambda>_ _. []"] u
  show ?thesis by auto
qed

theorem counted_queue_length_witness:
  "\<exists>c c' rs. counted_with_segment_size 2 = Some c \<and>
     run_ops (unbounded_op (\<lambda>c. counted_enqueue [True] c) (\<lambda>c. counted_dequeue [True] c)) c
       [Enq (1 :: nat), Enq 2, Enq 3, Deq] = Some (c', rs) \<and> unat (counted_len c') = 2"
proof -
  have ok: "size_ok 2" by (simp add: size_ok_def)
  obtain u :: "nat unbounded" where "with_segment_size 2 = Some u" by (rule with_segment_size_holds [OF ok])
  then obtain c :: "nat counted" where c: "counted_with_segment_size 2 = Some c" by (simp add: counted_with_segment_size_def)
  from counted_queue_length [OF _ c, of "[Enq 1, Enq 2, Enq 3, Deq]" 4 "\<lambda>_. [True]"] c show ?thesis by auto
qed

end
