(* ===== verification/Lscq_Conc.thy ===== *)
theory Lscq_Conc
  imports Lscq_Queue Nure_Spec
begin

text \<open>
  The unbounded queue under any number of threads, with sequentially consistent accesses: the list of
  segments stays a list under every interleaving, and no segment is retired twice. But an \<open>enqueue\<close> that finds its
  segment full does not finalise it, so that an element can be lost in a segment that has left the list;
  and a segment is retired while \<open>tail\<close> can still refer to it.
\<close>

section \<open>Threads\<close>

datatype 'a lscq_thread = LIdle | LEnqueuing "'a lscq_enq_pc" | LDequeuing "'a lscq_deq_pc"

record 'a lscq_sys =
  list_mem :: "'a lscq"
  lthreads :: "nat \<Rightarrow> 'a lscq_thread"

fun lscq_start :: "'a fifo_cmd \<Rightarrow> 'a lscq_thread" where
  "lscq_start (Enq v) = LEnqueuing (LTail v)"
| "lscq_start Deq = LDequeuing QHead"

fun lscq_returned :: "'a lscq_thread \<Rightarrow> 'a fifo_ret option" where
  "lscq_returned (LEnqueuing pc) = map_option (\<lambda>u. REnq (Ok u)) (lscq_enq_returned pc)"
| "lscq_returned (LDequeuing pc) = map_option RDeq (lscq_deq_returned pc)"
| "lscq_returned LIdle = None"

fun lscq_thread_step :: "bool \<Rightarrow> 'a lscq \<Rightarrow> 'a lscq_thread \<Rightarrow> 'a lscq \<times> 'a lscq_thread" where
  "lscq_thread_step weak L LIdle = (L, LIdle)"
| "lscq_thread_step weak L (LEnqueuing pc) = map_prod id LEnqueuing (lscq_enq_step weak L pc)"
| "lscq_thread_step weak L (LDequeuing pc) = map_prod id LDequeuing (lscq_deq_step weak L pc)"

inductive lscq_sys_step :: "'a lscq_sys \<Rightarrow> ('a fifo_cmd, 'a fifo_ret) label \<Rightarrow> 'a lscq_sys \<Rightarrow> bool" where
  l_call: "lthreads s i = LIdle \<Longrightarrow>
    lscq_sys_step s (Call i c) (s\<lparr>lthreads := (lthreads s)(i := lscq_start c)\<rparr>)"
| l_internal: "lthreads s i \<noteq> LIdle \<Longrightarrow> lscq_returned (lthreads s i) = None \<Longrightarrow>
    lscq_thread_step weak (list_mem s) (lthreads s i) = (L', th') \<Longrightarrow>
    lscq_sys_step s Tau (s\<lparr>list_mem := L', lthreads := (lthreads s)(i := th')\<rparr>)"
| l_return: "lscq_returned (lthreads s i) = Some r \<Longrightarrow>
    lscq_sys_step s (Return i r) (s\<lparr>lthreads := (lthreads s)(i := LIdle)\<rparr>)"

definition lscq_init :: "'a lscq \<Rightarrow> 'a lscq_sys" where
  "lscq_init L = \<lparr>list_mem = L, lthreads = (\<lambda>_. LIdle)\<rparr>"

section \<open>The list of segments under interference\<close>

text \<open>Nodes are linked in the order of their allocation; \<open>head\<close> and \<open>tail\<close> refer to nodes of the list.\<close>

definition list_ok :: "'a lscq \<Rightarrow> bool" where
  "list_ok L \<longleftrightarrow> lhead L < length (nodes L) \<and> ltail L < length (nodes L) \<and>
     (\<forall>n < length (nodes L). node_next (nodes L ! n) = (if Suc n < length (nodes L) then Some (Suc n) else None))"

text \<open>What a thread knows of the list, when it has \<open>k\<close> nodes: the nodes it refers to exist, and a successor it has read is the
  next node. A thread that has moved \<open>head\<close> owns the node before it until it has retired it.\<close>

fun enq_knows :: "nat \<Rightarrow> 'a lscq_enq_pc \<Rightarrow> bool" where
  "enq_knows k (LNext v cq) \<longleftrightarrow> cq < k"
| "enq_knows k (LHelp v cq nx) \<longleftrightarrow> nx = Suc cq \<and> nx < k"
| "enq_knows k (LCycle cq pc) \<longleftrightarrow> cq < k"
| "enq_knows k (LFill cq nd pc) \<longleftrightarrow> cq < k \<and> node_next nd = None"
| "enq_knows k (LLink cq nd) \<longleftrightarrow> cq < k \<and> node_next nd = None"
| "enq_knows k (LSwing cq nx) \<longleftrightarrow> nx = Suc cq \<and> nx < k"
| "enq_knows k _ \<longleftrightarrow> True"

fun deq_knows :: "nat \<Rightarrow> 'a lscq_deq_pc \<Rightarrow> bool" where
  "deq_knows k (QFirst cq pc) \<longleftrightarrow> cq < k"
| "deq_knows k (QNext cq) \<longleftrightarrow> cq < k"
| "deq_knows k (QThresh cq nx) \<longleftrightarrow> nx = Suc cq \<and> nx < k"
| "deq_knows k (QSecond cq nx pc) \<longleftrightarrow> nx = Suc cq \<and> nx < k"
| "deq_knows k (QSwing cq nx) \<longleftrightarrow> nx = Suc cq \<and> nx < k"
| "deq_knows k _ \<longleftrightarrow> True"

fun thread_knows :: "nat \<Rightarrow> 'a lscq_thread \<Rightarrow> bool" where
  "thread_knows k LIdle \<longleftrightarrow> True"
| "thread_knows k (LEnqueuing pc) \<longleftrightarrow> enq_knows k pc"
| "thread_knows k (LDequeuing pc) \<longleftrightarrow> deq_knows k pc"

lemma knows_next [simp]:
  "cq < k \<Longrightarrow> enq_knows k (cycle_next sz cq cpc)"
  "cq < k \<Longrightarrow> node_next nd = None \<Longrightarrow> enq_knows k (fill_next cq nd cpc)"
  "enq_knows k (empty_next nd tpc)"
  "cq < k \<Longrightarrow> deq_knows k (first_next cq tpc)"
  "nx = Suc cq \<Longrightarrow> nx < k \<Longrightarrow> deq_knows k (second_next cq nx tpc)"
proof -
  have new: "enq_knows k (new_next sz cq v)" if "cq < k" for v :: 'a
    using that by (auto simp: new_next_def node_new_def split: option.splits)
  show "cq < k \<Longrightarrow> enq_knows k (cycle_next sz cq cpc)" using new by (cases "(sz, cq, cpc)" rule: cycle_next.cases) auto
  show "cq < k \<Longrightarrow> node_next nd = None \<Longrightarrow> enq_knows k (fill_next cq nd cpc)"
    by (cases "(cq, nd, cpc)" rule: fill_next.cases) auto
  show "enq_knows k (empty_next nd tpc)" by (cases "(nd, tpc)" rule: empty_next.cases) auto
  show "cq < k \<Longrightarrow> deq_knows k (first_next cq tpc)" by (cases "(cq, tpc)" rule: first_next.cases) auto
  show "nx = Suc cq \<Longrightarrow> nx < k \<Longrightarrow> deq_knows k (second_next cq nx tpc)"
    by (cases "(cq, nx, tpc)" rule: second_next.cases) auto
qed

lemma knows_mono: "thread_knows k th \<Longrightarrow> k \<le> k' \<Longrightarrow> thread_knows k' th"
proof (cases th)
  case (LEnqueuing pc)
  then show "thread_knows k th \<Longrightarrow> k \<le> k' \<Longrightarrow> thread_knows k' th" by (cases pc) auto
next
  case (LDequeuing pc)
  then show "thread_knows k th \<Longrightarrow> k \<le> k' \<Longrightarrow> thread_knows k' th" by (cases pc) auto
qed simp

lemma list_ok_put:
  assumes "list_ok L" "get_node L n = Some nd" "node_next nd' = node_next nd"
  shows "list_ok (put_node L n nd')"
  using assms by (auto simp: list_ok_def put_node_def get_node_def nth_list_update split: if_splits)

lemma list_ok_next:
  assumes "list_ok L" "get_node L n = Some nd"
  shows "node_next nd = (if Suc n < length (nodes L) then Some (Suc n) else None)" "n < length (nodes L)"
  using assms by (auto simp: list_ok_def get_node_def split: if_splits)

lemma list_ok_link:
  assumes "list_ok L" "get_node L cq = Some old" "node_next old = None" "node_next nd = None"
  shows "list_ok (link_node L cq old nd)" "length (nodes (link_node L cq old nd)) = Suc (length (nodes L))"
    "Suc cq = length (nodes L)"
proof -
  show "length (nodes (link_node L cq old nd)) = Suc (length (nodes L))" by (simp add: link_node_def)
  show cq: "Suc cq = length (nodes L)" using list_ok_next [OF assms(1,2)] assms(3) by (auto split: if_splits)
  show "list_ok (link_node L cq old nd)"
    using assms(1,4) cq by (auto simp: list_ok_def link_node_def nth_append nth_list_update)
qed

lemma enq_step_list:
  assumes "list_ok L" "enq_knows (length (nodes L)) pc" "lscq_enq_step weak L pc = (L', pc')"
  shows "list_ok L' \<and> enq_knows (length (nodes L')) pc' \<and> length (nodes L) \<le> length (nodes L') \<and>
    lhead L' = lhead L \<and> retired L' = retired L"
proof (cases pc)
  case (LTail v)
  then show ?thesis using assms by (auto simp: list_ok_def)
next
  case (LNext v cq)
  then show ?thesis using assms list_ok_next [OF assms(1), of cq] by (auto split: option.splits if_splits)
next
  case (LHelp v cq nx)
  then show ?thesis
    using assms by (auto simp: list_ok_def compare_exchange_def compare_exchange_weak_def split: if_splits)
next
  case (LCycle cq cpc)
  then show ?thesis
    using assms list_ok_put [OF assms(1)] by (auto simp: put_node_def split: option.splits prod.splits)
next
  case (LFill cq nd cpc)
  then show ?thesis using assms by (auto split: prod.splits)
next
  case (LLink cq nd)
  show ?thesis
  proof (cases "get_node L cq")
    case (Some old)
    then show ?thesis
      using assms LLink list_ok_link [OF assms(1) Some, of nd]
      by (cases "node_next old") (auto simp: compare_exchange_def compare_exchange_weak_def link_node_def)
  qed (use assms LLink in auto)
next
  case (LSwing cq nx)
  then show ?thesis
    using assms by (auto simp: list_ok_def compare_exchange_def compare_exchange_weak_def split: if_splits)
next
  case (LEmpty nd tpc)
  then show ?thesis using assms by (auto split: prod.splits)
qed (use assms in auto)

text \<open>A node is retired by the thread that has moved \<open>head\<close> past it.\<close>

fun retiring :: "'a lscq_deq_pc \<Rightarrow> nat option" where
  "retiring (QRetire cq) = Some cq"
| "retiring _ = None"

lemma retiring_next [simp]:
  "retiring (first_next cq pc) = None" "retiring (second_next cq nx pc) = None"
proof -
  show "retiring (first_next cq pc) = None" by (cases "(cq, pc)" rule: first_next.cases) auto
  show "retiring (second_next cq nx pc) = None" by (cases "(cq, nx, pc)" rule: second_next.cases) auto
qed

lemma deq_step_list:
  assumes "list_ok L" "deq_knows (length (nodes L)) pc" "lscq_deq_step weak L pc = (L', pc')"
  shows "list_ok L' \<and> deq_knows (length (nodes L')) pc' \<and> length (nodes L') = length (nodes L) \<and>
    (case retiring pc of
       Some cq \<Rightarrow> lhead L' = lhead L \<and> retired L' = cq # retired L \<and> retiring pc' = None
     | None \<Rightarrow> retired L' = retired L \<and>
         (lhead L' = lhead L \<and> retiring pc' = None \<or> lhead L' = Suc (lhead L) \<and> retiring pc' = Some (lhead L)))"
proof (cases pc)
  case QHead
  then show ?thesis using assms by (auto simp: list_ok_def)
next
  case (QFirst cq tpc)
  then show ?thesis
    using assms list_ok_put [OF assms(1)] by (auto simp: put_node_def split: option.splits prod.splits)
next
  case (QNext cq)
  then show ?thesis using assms list_ok_next [OF assms(1), of cq] by (auto split: option.splits if_splits)
next
  case (QThresh cq nx)
  then show ?thesis
    using assms list_ok_put [OF assms(1)] by (auto simp: put_node_def split: option.splits)
next
  case (QSecond cq nx tpc)
  then show ?thesis
    using assms list_ok_put [OF assms(1)] by (auto simp: put_node_def split: option.splits prod.splits)
next
  case (QSwing cq nx)
  then show ?thesis
    using assms by (auto simp: list_ok_def compare_exchange_def compare_exchange_weak_def split: if_splits)
next
  case (QRetire cq)
  then show ?thesis using assms by (auto simp: list_ok_def)
qed (use assms in auto)

section \<open>The invariant\<close>

fun retires :: "'a lscq_thread \<Rightarrow> nat option" where
  "retires (LDequeuing pc) = retiring pc"
| "retires _ = None"

definition lscq_sys_ok :: "'a lscq_sys \<Rightarrow> bool" where
  "lscq_sys_ok s \<longleftrightarrow> list_ok (list_mem s) \<and> (\<forall>i. thread_knows (length (nodes (list_mem s))) (lthreads s i)) \<and>
     distinct (retired (list_mem s)) \<and> (\<forall>c \<in> set (retired (list_mem s)). c < lhead (list_mem s)) \<and>
     (\<forall>i c. retires (lthreads s i) = Some c \<longrightarrow> c < lhead (list_mem s) \<and> c \<notin> set (retired (list_mem s))) \<and>
     (\<forall>i j c. retires (lthreads s i) = Some c \<longrightarrow> retires (lthreads s j) = Some c \<longrightarrow> i = j)"

lemma thread_step_list:
  assumes "list_ok L" "thread_knows (length (nodes L)) th" "lscq_thread_step weak L th = (L', th')"
  shows "list_ok L' \<and> thread_knows (length (nodes L')) th' \<and> length (nodes L) \<le> length (nodes L') \<and>
    (case retires th of
       Some cq \<Rightarrow> lhead L' = lhead L \<and> retired L' = cq # retired L \<and> retires th' = None
     | None \<Rightarrow> retired L' = retired L \<and>
         (lhead L' = lhead L \<and> retires th' = None \<or> lhead L' = Suc (lhead L) \<and> retires th' = Some (lhead L)))"
proof (cases th)
  case (LEnqueuing pc)
  obtain pc' where "lscq_enq_step weak L pc = (L', pc')" "th' = LEnqueuing pc'"
    using assms(3) LEnqueuing by (auto simp: map_prod_def split: prod.splits)
  then show ?thesis using enq_step_list [OF assms(1), of pc weak L' pc'] assms(2) LEnqueuing by simp
next
  case (LDequeuing pc)
  obtain pc' where "lscq_deq_step weak L pc = (L', pc')" "th' = LDequeuing pc'"
    using assms(3) LDequeuing by (auto simp: map_prod_def split: prod.splits)
  then show ?thesis
    using deq_step_list [OF assms(1), of pc weak L' pc'] assms(2) LDequeuing by (auto split: option.splits)
qed (use assms in auto)

lemma lscq_sys_ok_step:
  assumes "lscq_sys_ok s" "lscq_sys_step s l s'"
  shows "lscq_sys_ok s'"
  using assms(2)
proof cases
  case (l_call i c)
  have "thread_knows k (lscq_start c)" "retires (lscq_start c) = None" for k by (cases c; simp)+
  then show ?thesis using assms(1) l_call by (auto simp: lscq_sys_ok_def)
next
  case (l_internal i weak L' th')
  note ok = assms(1) [unfolded lscq_sys_ok_def]
  have st: "list_ok L' \<and> thread_knows (length (nodes L')) th' \<and> length (nodes (list_mem s)) \<le> length (nodes L') \<and>
    (case retires (lthreads s i) of
       Some cq \<Rightarrow> lhead L' = lhead (list_mem s) \<and> retired L' = cq # retired (list_mem s) \<and> retires th' = None
     | None \<Rightarrow> retired L' = retired (list_mem s) \<and> (lhead L' = lhead (list_mem s) \<and> retires th' = None \<or>
         lhead L' = Suc (lhead (list_mem s)) \<and> retires th' = Some (lhead (list_mem s))))"
    by (rule thread_step_list [OF _ _ l_internal(5)]) (use ok in auto)
  have "thread_knows (length (nodes L')) (((lthreads s)(i := th')) j)" for j
    using ok st knows_mono by (auto simp: fun_upd_apply)
  then show ?thesis
    using ok st l_internal(2) by (cases "retires (lthreads s i)") (fastforce simp: lscq_sys_ok_def)+
next
  case (l_return i r)
  then show ?thesis using assms(1) by (auto simp: lscq_sys_ok_def)
qed

lemma lscq_sys_ok_reachable:
  assumes "with_segment_size sz = Some u" "exec lscq_sys_step (lscq_init (uq_internal u)) ls s"
  shows "lscq_sys_ok s"
  using assms(2)
proof induction
  case exec_nil
  have "list_ok (uq_internal u)" "retired (uq_internal u) = []"
    using assms(1) by (auto simp: with_segment_size_def lscq_new_def node_new_def list_ok_def)
  then show ?case by (simp add: lscq_sys_ok_def lscq_init_def)
qed (rule lscq_sys_ok_step)

section \<open>Schedules\<close>

fun lscq_sched :: "'a lscq_sys \<Rightarrow> ('a fifo_cmd, bool) move \<Rightarrow>
    (('a fifo_cmd, 'a fifo_ret) label \<times> 'a lscq_sys) option" where
  "lscq_sched s (MCall i c) =
     (case lthreads s i of
        LIdle \<Rightarrow> Some (Call i c, s\<lparr>lthreads := (lthreads s)(i := lscq_start c)\<rparr>)
      | _ \<Rightarrow> None)"
| "lscq_sched s (MStep i weak) =
     (case lthreads s i of
        LIdle \<Rightarrow> None
      | th \<Rightarrow> (case lscq_returned th of
          Some r \<Rightarrow> None
        | None \<Rightarrow> (case lscq_thread_step weak (list_mem s) th of
            (L', th') \<Rightarrow> Some (Tau, s\<lparr>list_mem := L', lthreads := (lthreads s)(i := th')\<rparr>))))"
| "lscq_sched s (MReturn i) =
     (case lscq_returned (lthreads s i) of
        Some r \<Rightarrow> Some (Return i r, s\<lparr>lthreads := (lthreads s)(i := LIdle)\<rparr>)
      | None \<Rightarrow> None)"

lemma lscq_sched_sound: "lscq_sched s m = Some (l, s') \<Longrightarrow> lscq_sys_step s l s'"
  by (cases m) (auto split: lscq_thread.splits option.splits prod.splits intro: lscq_sys_step.intros)

text \<open>\<open>go i n\<close> is \<open>n\<close> steps of thread \<open>i\<close>.\<close>

definition go :: "nat \<Rightarrow> nat \<Rightarrow> ('a fifo_cmd, bool) move list" where
  "go i n = replicate n (MStep i False)"

definition lscq_run_with :: "nat \<Rightarrow> (nat fifo_cmd, bool) move list \<Rightarrow>
    ((nat fifo_cmd, nat fifo_ret) label list \<Rightarrow> nat lscq_sys \<Rightarrow> bool) \<Rightarrow> bool" where
  "lscq_run_with sz ms P = (case with_segment_size sz of
     None \<Rightarrow> False
   | Some u \<Rightarrow> (case sched_run lscq_sched (lscq_init (uq_internal u)) ms of
       None \<Rightarrow> False | Some (ls, s) \<Rightarrow> P ls s))"

lemma lscq_run_withE:
  assumes "lscq_run_with sz ms P"
  obtains u ls s where "with_segment_size sz = Some u" "sched_run lscq_sched (lscq_init (uq_internal u)) ms = Some (ls, s)"
    "exec lscq_sys_step (lscq_init (uq_internal u)) ls s" "P ls s"
  using assms sched_run_exec [of lscq_sched lscq_sys_step, OF lscq_sched_sound]
  by (fastforce simp: lscq_run_with_def split: option.splits)

text \<open>On segments of capacity one: thread 0 starts to enqueue 7 and takes the free index; thread 1 finds the segment full
  and links a new one with 8; thread 2 finds the first segment empty, moves on and dequeues 8; thread 0 stores
  7 in the first segment; thread 2 finds the queue empty.\<close>

definition lost_run :: "(nat fifo_cmd, bool) move list" where
  "lost_run = [MCall 0 (Enq 7)] @ go 0 7 @ [MCall 1 (Enq 8)] @ go 1 18 @ [MReturn 1, MCall 2 Deq] @ go 2 35 @
     [MReturn 2] @ go 0 8 @ [MReturn 0, MCall 2 Deq] @ go 2 19 @ [MReturn 2]"

definition lost_history :: "(nat fifo_cmd, nat fifo_ret) label list" where
  "lost_history = [Call 0 (Enq 7), Call 1 (Enq 8), Return 1 (REnq (Ok ())), Call 2 Deq, Return 2 (RDeq (Some 8)),
     Return 0 (REnq (Ok ())), Call 2 Deq, Return 2 (RDeq None)]"

text \<open>The head is the last node, and its ring is empty.\<close>

definition empty_end :: "'a lscq \<Rightarrow> bool" where
  "empty_end L = (case get_node L (lhead L) of
     None \<Rightarrow> False
   | Some nd \<Rightarrow> node_next nd = None \<and>
       (case ring_dequeue [] (alloc_queue (node_value nd)) of Some (al, None) \<Rightarrow> True | _ \<Rightarrow> False))"

lemma lost_run_result: "lscq_run_with 1 lost_run (\<lambda>ls s. history ls = lost_history \<and>
    map (lthreads s) [0, 1, 2] = [LIdle, LIdle, LIdle] \<and> empty_end (list_mem s))"
  by code_simp

lemma empty_end_drop:
  assumes "empty_end L"
  shows "lscq_drop (\<lambda>_ _. []) L = Some []"
proof -
  obtain nd al where nd: "get_node L (lhead L) = Some nd" "node_next nd = None"
    "ring_dequeue [] (alloc_queue (node_value nd)) = Some (al, None)"
    using assms by (auto simp: empty_end_def split: option.splits)
  have "\<exists>q. bounded_drop (\<lambda>_. []) (node_value nd) = Some (q, [])"
    by (subst bounded_drop.simps) (simp add: nd(3))
  moreover have "drop_nodes (\<lambda>_ _. []) L None = Some []" by (subst drop_nodes.simps) simp
  ultimately show ?thesis unfolding lscq_drop_def by (subst drop_nodes.simps) (auto simp: nd)
qed

text \<open>Thread 1 has linked a new segment and not yet moved \<open>tail\<close>; thread 2 empties the first segment, moves \<open>head\<close>
  and retires it; thread 3 loads \<open>tail\<close>.\<close>

definition retired_run :: "(nat fifo_cmd, bool) move list" where
  "retired_run = [MCall 0 (Enq 7)] @ go 0 15 @ [MReturn 0, MCall 1 (Enq 8)] @ go 1 17 @ [MCall 2 Deq] @ go 2 12 @
     [MReturn 2, MCall 2 Deq] @ go 2 39 @ [MCall 3 (Enq 9)] @ go 3 1"

lemma retired_run_result: "lscq_run_with 1 retired_run (\<lambda>ls s.
    lthreads s 3 = LEnqueuing (LNext 9 0) \<and> retired (list_mem s) = [0] \<and> ltail (list_mem s) = 0)"
  by code_simp

lemma lscq_sched_other: "lscq_sched s m = Some (l, s') \<Longrightarrow> i \<noteq> mover m \<Longrightarrow> lthreads s' i = lthreads s i"
  by (cases m) (auto split: lscq_thread.splits option.splits prod.splits)

lemma lscq_run_other:
  "sched_run lscq_sched s ms = Some (ls, s') \<Longrightarrow> i \<notin> mover ` set ms \<Longrightarrow> lthreads s' i = lthreads s i"
  by (rule sched_run_frame [where view = "\<lambda>s. lthreads s i", OF lscq_sched_other])

lemma lost_done:
  obtains u ls s where "with_segment_size 1 = Some (u :: nat unbounded)" "exec lscq_sys_step (lscq_init (uq_internal u)) ls s"
    "length ls \<le> 2 ^ 60" "history ls = lost_history" "\<forall>i. lthreads s i = LIdle" "empty_end (list_mem s)"
proof -
  obtain u ls s where r: "with_segment_size 1 = Some u"
    "sched_run lscq_sched (lscq_init (uq_internal u)) lost_run = Some (ls, s)"
    "exec lscq_sys_step (lscq_init (uq_internal u)) ls s" "history ls = lost_history \<and>
      map (lthreads s) [0, 1, 2] = [LIdle, LIdle, LIdle] \<and> empty_end (list_mem s)"
    by (rule lscq_run_withE [OF lost_run_result])
  have "lthreads s i = LIdle" for i
  proof (cases "i \<in> {0, 1, 2}")
    case False
    then have "i \<notin> mover ` set lost_run" by (auto simp: lost_run_def go_def)
    from lscq_run_other [OF r(2) this] show ?thesis by (simp add: lscq_init_def)
  qed (use r(4) in auto)
  moreover have "length ls \<le> 2 ^ 60" using sched_run_length [OF r(2)] by (simp add: lost_run_def go_def)
  ultimately show thesis using that r by blast
qed

section \<open>Properties\<close>

text \<open>The history of a FIFO queue as one of the operations of \<open>nure-queue\<close>, whose atomic specification serves both.\<close>

fun as_ring :: "('a fifo_cmd, 'a fifo_ret) label \<Rightarrow> 'a ring_label" where
  "as_ring (Call i (Enq v)) = Call i (OpPush v)"
| "as_ring (Call i Deq) = Call i OpPop"
| "as_ring (Return i (REnq r)) = Return i (RetPush r)"
| "as_ring (Return i (RDeq r)) = Return i (RetPop r)"
| "as_ring Tau = Tau"

lemma lost_not_fifo: "\<not> (\<exists>N ls a. exec (atomic_step N) init_spec ls a \<and> history ls = map as_ring lost_history)"
proof
  assume "\<exists>N ls a. exec (atomic_step N) init_spec ls a \<and> history ls = map as_ring lost_history"
  then obtain N ls and a :: "nat aspec" where ls: "exec (atomic_step N) init_spec ls a"
    "history ls = map as_ring lost_history" by blast
  have h: "history ls = [Call 0 (OpPush 7), Call 1 (OpPush 8), Return 1 (RetPush (Ok ())), Call 2 OpPop,
      Return 2 (RetPop (Some 8)), Return 0 (RetPush (Ok ())), Call 2 OpPop, Return 2 (RetPop None)]"
    unfolding ls(2) by (simp add: lost_history_def)
  have "pops_called (take k ls) \<le> pushes_accepted (take k ls)" for k
  proof (rule take_of_history [where P = "\<lambda>ls. pops_called ls \<le> pushes_accepted ls"])
    fix m
    have "m = 0 \<or> m = 1 \<or> m = 2 \<or> m = 3 \<or> m = 4 \<or> m = 5 \<or> m = 6 \<or> m = 7 \<or> m = 8" if "m \<le> (8 :: nat)" using that by arith
    then show "pops_called (take m (history ls)) \<le> pushes_accepted (take m (history ls))" if "m \<le> length (history ls)"
      using that unfolding h by (auto simp: pops_called_def pushes_accepted_def)
  qed simp
  moreover have "no_force ls" using counts_history(3) [of ls] unfolding h by (simp add: no_force_def)
  ultimately have "Return 2 (RetPop None) \<notin> set ls" using no_empty_pop [OF ls(1)] by blast
  moreover have "Return 2 (RetPop None) \<in> set (history ls)" unfolding h by simp
  ultimately show False using history_member [of "Return 2 (RetPop None)" ls] by simp
qed

text \<open>C27: An element of the unbounded queue can be lost. There is a run of three threads in which two enqueues
  have returned, one dequeue has delivered one of the two elements, and a dequeue that then runs alone finds the
  queue empty; \<open>drop\<close> finds nothing either. Its history is not one of a first-in first-out queue of any
  capacity. The cause is that \<open>enqueue_cycle\<close> reports a full segment without finalising it.\<close>

theorem unbounded_element_lost:
  "\<exists>u ls s. with_segment_size 1 = Some u \<and> exec lscq_sys_step (lscq_init (uq_internal u)) ls s \<and>
     history ls = [Call 0 (Enq 7), Call 1 (Enq 8), Return 1 (REnq (Ok ())), Call 2 Deq, Return 2 (RDeq (Some 8)),
       Return 0 (REnq (Ok ())), Call 2 Deq, Return 2 (RDeq (None :: nat option))] \<and>
     (\<forall>i. lthreads s i = LIdle) \<and> lscq_drop (\<lambda>_ _. []) (list_mem s) = Some [] \<and>
     \<not> (\<exists>N ls' a. exec (atomic_step N) init_spec ls' a \<and> history ls' = map as_ring (history ls))"
proof -
  obtain u ls s where r: "with_segment_size 1 = Some (u :: nat unbounded)"
    "exec lscq_sys_step (lscq_init (uq_internal u)) ls s" "history ls = lost_history" "\<forall>i. lthreads s i = LIdle"
    "empty_end (list_mem s)" by (rule lost_done) blast
  then show ?thesis using empty_end_drop [OF r(5)] lost_not_fifo unfolding lost_history_def by metis
qed

text \<open>C29: A segment is retired while it can still be loaded: there is a reachable state in which \<open>tail\<close> refers to
  a node that has been handed to the domain for reclamation, and a thread that has loaded it from there and goes on to
  dereference it, although \<open>retire_in\<close> requires that no atomic pointer returns the node again.\<close>

theorem retired_segment_loaded:
  "\<exists>u ls s. with_segment_size 1 = Some (u :: nat unbounded) \<and> exec lscq_sys_step (lscq_init (uq_internal u)) ls s \<and>
     ltail (list_mem s) \<in> set (retired (list_mem s)) \<and> lthreads s 3 = LEnqueuing (LNext 9 (ltail (list_mem s)))"
proof -
  obtain u ls and s :: "nat lscq_sys" where r: "with_segment_size 1 = Some u"
    "exec lscq_sys_step (lscq_init (uq_internal u)) ls s" "lthreads s 3 = LEnqueuing (LNext 9 0) \<and> retired (list_mem s) = [0] \<and> ltail (list_mem s) = 0"
    by (rule lscq_run_withE [OF retired_run_result])
  then show ?thesis by (metis list.set_intros(1))
qed



end
