(* ===== verification/Lscq_Pool.thy ===== *)
theory Lscq_Pool
  imports Scq_Linear Lscq_Conc
begin

text \<open>
  The segments of the unbounded queue under any number of threads, with sequentially consistent accesses: each
  segment keeps its slots apart as a bounded queue does, a segment that its thread has not linked yet is
  run by that thread alone, and the elements are those of a sack from which a \<open>dequeue\<close> may come back
  empty-handed. What can be lost (\<open>Lscq_Conc\<close>) stays in a segment that has left the list; nothing is
  duplicated, and no thread panics or reads an uninitialised slot.
\<close>

section \<open>A machine in the middle of a solo run\<close>

definition on_course :: "(bool \<Rightarrow> 's \<Rightarrow> 'p \<Rightarrow> 's \<times> 'p) \<Rightarrow> ('p \<Rightarrow> 'r option) \<Rightarrow> ('s \<Rightarrow> 'r \<Rightarrow> bool) \<Rightarrow> 's \<Rightarrow> 'p \<Rightarrow> bool" where
  "on_course f ret P s pc \<longleftrightarrow> (\<exists>N n. \<forall>ws. meets f ret N P ws n s pc)"

lemma on_courseI: "solo_within f ret n P s pc \<Longrightarrow> on_course f ret P s pc"
  by (auto simp: on_course_def solo_within_def)

lemma on_course_step:
  assumes "on_course f ret P s pc" "ret pc = None" "f w s pc = (s', pc')"
  shows "on_course f ret P s' pc'"
proof -
  obtain N n where m: "\<And>ws. meets f ret N P ws n s pc" using assms(1) by (auto simp: on_course_def)
  have "meets f ret N P ws (if w then N else n - 1) s' pc'" for ws using m [of "w # ws"] assms(2,3) by simp
  then show ?thesis unfolding on_course_def by blast
qed

lemma on_course_return: "on_course f ret P s pc \<Longrightarrow> ret pc = Some r \<Longrightarrow> P s r"
  unfolding on_course_def by (elim exE allE [of _ "[]"]) simp

lemma on_course_stuck:
  assumes "on_course f ret P s pc" "ret pc = None" "\<And>w. f w s pc = (s, pc)"
  shows False
proof -
  obtain N n where "\<And>ws. meets f ret N P ws n s pc" using assms(1) by (auto simp: on_course_def)
  moreover have "\<not> meets f ret N P (replicate n False) n s pc" by (induction n) (simp_all add: assms(2,3))
  ultimately show False by blast
qed

section \<open>The specification\<close>

text \<open>An operation takes effect in one step on a sack of elements; a \<open>dequeue\<close> may find nothing.\<close>

record 'a sack_spec =
  sack :: "'a multiset"
  sstats :: "nat \<Rightarrow> 'a try_stat"

inductive sack_move :: "'a multiset \<Rightarrow> 'a try_stat \<Rightarrow> 'a multiset \<Rightarrow> 'a try_stat \<Rightarrow> bool" where
  s_keep: "sack_move P st P st"
| s_put: "sack_move P (TPending (Enq v)) (add_mset v P) (TDone (REnq (Ok ())))"
| s_take: "sack_move (add_mset v P) (TPending Deq) P (TDone (RDeq (Some v)))"
| s_none: "sack_move P (TPending Deq) P (TDone (RDeq None))"

inductive sack_step :: "'a sack_spec \<Rightarrow> 'a fifo_label \<Rightarrow> 'a sack_spec \<Rightarrow> bool" where
  k_call: "sstats a i = TIdle \<Longrightarrow> sack_step a (Call i c) (a\<lparr>sstats := (sstats a)(i := TPending c)\<rparr>)"
| k_move: "sack_move (sack a) (sstats a i) P st \<Longrightarrow>
    sack_step a Tau (a\<lparr>sack := P, sstats := (sstats a)(i := st)\<rparr>)"
| k_return: "sstats a i = TDone r \<Longrightarrow> sack_step a (Return i r) (a\<lparr>sstats := (sstats a)(i := TIdle)\<rparr>)"

definition sack_init :: "'a sack_spec" where
  "sack_init = \<lparr>sack = {#}, sstats = (\<lambda>_. TIdle)\<rparr>"

lemma sack_move_frame: "sack_move P st P' st' \<Longrightarrow> sack_move (P + Q) st (P' + Q) st'"
  by (induction rule: sack_move.induct) (auto intro: sack_move.intros)

text \<open>A refusal by a segment does not end the operation on the list.\<close>

fun erase :: "'a pool_stat \<Rightarrow> 'a try_stat" where
  "erase PIdle = TIdle"
| "erase (PPending c lo) = TPending c"
| "erase (PDone (REnq (Err v))) = TPending (Enq v)"
| "erase (PDone (REnq (Ok u))) = TDone (REnq (Ok ()))"
| "erase (PDone (RDeq None)) = TPending Deq"
| "erase (PDone (RDeq (Some v))) = TDone (RDeq (Some v))"

lemma erase_move:
  assumes "pool_move N (P, T, H) ps (P', T', H') ps'"
  shows "sack_move (image_mset fst P) (erase ps) (image_mset fst P') (erase ps')"
  using assms
proof cases
  case (refused c lo)
  then show ?thesis by (cases c) (auto intro: sack_move.intros)
qed (auto intro: sack_move.intros)

lemma hand_move:
  assumes "pool_move N (P, T, H) ps (P', T', H') ps'"
  shows "image_mset fst P' + in_hand ps' = image_mset fst P + in_hand ps"
  using assms
proof cases
  case (refused c lo)
  then show ?thesis by (cases c) auto
qed auto

section \<open>Threads on segments\<close>

text \<open>What a thread does on a linked segment.\<close>

fun busy :: "'a lscq_thread \<Rightarrow> (nat \<times> 'a seg_act) option" where
  "busy (LEnqueuing (LCycle cq pc)) = Some (cq, SEnq pc)"
| "busy (LDequeuing (QFirst cq pc)) = Some (cq, SDeq pc)"
| "busy (LDequeuing (QSecond cq nx pc)) = Some (cq, SDeq pc)"
| "busy _ = None"

definition act_in :: "nat \<Rightarrow> 'a lscq_thread \<Rightarrow> 'a seg_act" where
  "act_in m th = (case busy th of Some (n, a) \<Rightarrow> if n = m then a else SQuiet | None \<Rightarrow> SQuiet)"

text \<open>The enqueue of \<open>v\<close> to a new segment, not linked yet.\<close>

definition holds :: "'a bounded_queue \<Rightarrow> 'a \<Rightarrow> bool" where
  "holds q v \<longleftrightarrow> (\<exists>as fs. seg_ok q as fs \<and> seg_contents q as = [v])"

definition filling :: "nat \<Rightarrow> 'a bounded_queue \<Rightarrow> 'a cycle_pc \<Rightarrow> 'a \<Rightarrow> bool" where
  "filling b q pc v \<longleftrightarrow> pool_inv b q ((\<lambda>_. SQuiet)(0 := SEnq pc)) \<and>
     (\<exists>ps. seg_at q (SEnq pc) ps \<and> contents_of q + in_hand ps = {#v#}) \<and>
     on_course (cycle_step False) cycle_returned (\<lambda>q' r. r = Ok () \<and> holds q' v) q pc"

definition in_segment :: "'a lscq \<Rightarrow> nat \<Rightarrow> 'a seg_act \<Rightarrow> 'a try_stat \<Rightarrow> bool" where
  "in_segment L n a st \<longleftrightarrow> seg_running a \<and>
     (\<exists>nd ps. get_node L n = Some nd \<and> seg_at (node_value nd) a ps \<and> st = erase ps)"

fun thread_at :: "nat \<Rightarrow> 'a lscq \<Rightarrow> 'a lscq_thread \<Rightarrow> 'a try_stat \<Rightarrow> bool" where
  "thread_at b L LIdle st \<longleftrightarrow> st = TIdle"
| "thread_at b L (LEnqueuing (LTail v)) st \<longleftrightarrow> st = TPending (Enq v)"
| "thread_at b L (LEnqueuing (LNext v cq)) st \<longleftrightarrow> st = TPending (Enq v)"
| "thread_at b L (LEnqueuing (LHelp v cq nx)) st \<longleftrightarrow> st = TPending (Enq v)"
| "thread_at b L (LEnqueuing (LCycle cq pc)) st \<longleftrightarrow> in_segment L cq (SEnq pc) st"
| "thread_at b L (LEnqueuing (LFill cq nd pc)) st \<longleftrightarrow> cycle_returned pc = None \<and>
     (\<exists>v. st = TPending (Enq v) \<and> filling b (node_value nd) pc v)"
| "thread_at b L (LEnqueuing (LLink cq nd)) st \<longleftrightarrow> (\<exists>v. st = TPending (Enq v) \<and> pool_inv b (node_value nd) (\<lambda>_. SQuiet) \<and>
     contents_of (node_value nd) = {#v#} \<and> holds (node_value nd) v)"
| "thread_at b L (LEnqueuing (LSwing cq nx)) st \<longleftrightarrow> st = TDone (REnq (Ok ()))"
| "thread_at b L (LEnqueuing (LEmpty nd pc)) st \<longleftrightarrow> take_returned pc = None \<and>
     (\<exists>v. st = TPending (Enq v) \<and> on_course take_step take_returned (\<lambda>q r. r = Some v) (node_value nd) pc)"
| "thread_at b L (LEnqueuing LRet) st \<longleftrightarrow> st = TDone (REnq (Ok ()))"
| "thread_at b L (LEnqueuing LPanic) st \<longleftrightarrow> False"
| "thread_at b L (LDequeuing (QFirst cq pc)) st \<longleftrightarrow> in_segment L cq (SDeq pc) st"
| "thread_at b L (LDequeuing (QSecond cq nx pc)) st \<longleftrightarrow> in_segment L cq (SDeq pc) st"
| "thread_at b L (LDequeuing (QRet r)) st \<longleftrightarrow> st = TDone (RDeq r)"
| "thread_at b L (LDequeuing QPanic) st \<longleftrightarrow> False"
| "thread_at b L (LDequeuing pc) st \<longleftrightarrow> st = TPending Deq"

lemma filling_mono: "filling b q pc v \<Longrightarrow> b \<le> b' \<Longrightarrow> filling b' q pc v"
  using pool_inv_mono by (auto simp: filling_def)

lemma thread_at_cong:
  assumes "thread_at b L th st" "b \<le> b'"
    "\<And>n a st. busy th = Some (n, a) \<Longrightarrow> in_segment L n a st \<Longrightarrow> in_segment L' n a st"
  shows "thread_at b' L' th st"
  using assms
  by (induction b L th st rule: thread_at.induct) (auto intro: filling_mono pool_inv_mono)

definition stored :: "'a lscq \<Rightarrow> 'a multiset" where
  "stored L = (\<Sum>nd\<leftarrow>nodes L. contents_of (node_value nd))"

definition lscq_related :: "nat \<Rightarrow> 'a lscq_sys \<Rightarrow> 'a sack_spec \<Rightarrow> bool" where
  "lscq_related n s a \<longleftrightarrow> lscq_sys_ok s \<and> size_ok (internal_order (list_mem s)) \<and>
     (\<forall>m nd. get_node (list_mem s) m = Some nd \<longrightarrow>
        pool_inv (2 ^ 60 + n) (node_value nd) (\<lambda>i. act_in m (lthreads s i))) \<and>
     sack a = stored (list_mem s) \<and> (\<forall>i. thread_at (2 ^ 60 + n) (list_mem s) (lthreads s i) (sstats a i))"

section \<open>Kinds of steps\<close>

lemma act_in_upd: "(\<lambda>j. act_in m ((T(i := th)) j)) = (\<lambda>j. act_in m (T j))(i := act_in m th)"
  by auto

lemma act_in_quiet [simp]: "busy th = None \<Longrightarrow> act_in m th = SQuiet"
  by (simp add: act_in_def)

lemma act_in_busy [simp]: "busy th = Some (n, a) \<Longrightarrow> act_in m th = (if n = m then a else SQuiet)"
  by (simp add: act_in_def)

lemma stored_put:
  assumes "get_node L n = Some nd"
  obtains R where "stored L = contents_of (node_value nd) + R"
    "\<And>nd'. stored (put_node L n nd') = contents_of (node_value nd') + R"
proof -
  have n: "n < length (nodes L)" "nodes L ! n = nd" using assms by (auto simp: get_node_def split: if_splits)
  let ?f = "\<lambda>nd. contents_of (node_value nd)"
  let ?R = "(\<Sum>nd\<leftarrow>take n (nodes L). ?f nd) + (\<Sum>nd\<leftarrow>drop (Suc n) (nodes L). ?f nd)"
  have "nodes L = take n (nodes L) @ nd # drop (Suc n) (nodes L)" using id_take_nth_drop [OF n(1)] n(2) by simp
  then have "stored L = (\<Sum>nd\<leftarrow>take n (nodes L) @ nd # drop (Suc n) (nodes L). ?f nd)"
    unfolding stored_def by (rule arg_cong)
  then have "stored L = ?f nd + ?R" by (simp add: ac_simps)
  moreover have "stored (put_node L n nd') = ?f nd' + ?R" for nd'
    using n(1) by (simp add: stored_def put_node_def upd_conv_take_nth_drop ac_simps)
  ultimately show thesis by (rule that)
qed

text \<open>The step of thread \<open>i\<close> from a related state.\<close>

abbreviation after :: "'a lscq_sys \<Rightarrow> nat \<Rightarrow> 'a lscq \<Rightarrow> 'a lscq_thread \<Rightarrow> 'a lscq_sys" where
  "after s i L' th' \<equiv> s\<lparr>list_mem := L', lthreads := (lthreads s)(i := th')\<rparr>"

abbreviation follows :: "nat \<Rightarrow> 'a lscq_sys \<Rightarrow> 'a sack_spec \<Rightarrow> bool" where
  "follows n s' a \<equiv> \<exists>a'. lscq_related (Suc n) s' a' \<and> sack_step a Tau a'"

lemma lscq_put_related:
  assumes rel: "lscq_related n s a"
    and step: "lscq_sys_step s Tau (after s i L' th')"
    and ord: "internal_order L' = internal_order (list_mem s)"
    and segs: "\<And>m nd. get_node L' m = Some nd \<Longrightarrow>
      pool_inv (2 ^ 60 + Suc n) (node_value nd) ((\<lambda>j. act_in m (lthreads s j))(i := act_in m th'))"
    and own: "thread_at (2 ^ 60 + Suc n) L' th' st'"
    and others: "\<And>j m act st. j \<noteq> i \<Longrightarrow> busy (lthreads s j) = Some (m, act) \<Longrightarrow> in_segment (list_mem s) m act st \<Longrightarrow>
      in_segment L' m act st"
    and move: "sack_move (stored (list_mem s)) (sstats a i) (stored L') st'"
  shows "follows n (after s i L' th') a"
proof -
  let ?a = "a\<lparr>sack := stored L', sstats := (sstats a)(i := st')\<rparr>"
  have "thread_at (2 ^ 60 + Suc n) L' (lthreads s j) (sstats a j)" if "j \<noteq> i" for j
    by (rule thread_at_cong [of "2 ^ 60 + n" "list_mem s"]) (use rel others [OF that] in \<open>auto simp: lscq_related_def\<close>)
  moreover have "lscq_sys_ok (after s i L' th')"
    by (rule lscq_sys_ok_step [OF _ step]) (use rel in \<open>simp add: lscq_related_def\<close>)
  moreover have "pool_inv (2 ^ 60 + Suc n) (node_value nd) (\<lambda>j. act_in m (((lthreads s)(i := th')) j))"
    if "get_node L' m = Some nd" for m nd
    unfolding act_in_upd by (rule segs [OF that])
  ultimately have "lscq_related (Suc n) (after s i L' th') ?a"
    using rel ord own by (simp add: lscq_related_def)
  moreover have "sack_step a Tau ?a" using k_move [of a i] move rel by (simp add: lscq_related_def)
  ultimately show ?thesis by blast
qed

text \<open>A segment in which the thread is neither before nor after its step.\<close>

lemma other_segment:
  assumes "lscq_related n s a" "get_node (list_mem s) m = Some nd" "act_in m th' = act_in m (lthreads s i)"
  shows "pool_inv (2 ^ 60 + Suc n) (node_value nd) ((\<lambda>j. act_in m (lthreads s j))(i := act_in m th'))"
proof -
  have "pool_inv (2 ^ 60 + n) (node_value nd) (\<lambda>j. act_in m (lthreads s j))" using assms(1,2) by (simp add: lscq_related_def)
  then have "pool_inv (2 ^ 60 + Suc n) (node_value nd) (\<lambda>j. act_in m (lthreads s j))" by (rule pool_inv_mono) simp
  then show ?thesis by (simp add: assms(3) fun_upd_idem)
qed

text \<open>A step that leaves all segments alone; the thread may enter a segment.\<close>

definition starts :: "'a seg_act \<Rightarrow> bool" where
  "starts act \<longleftrightarrow> (\<exists>v. act = SEnq (CUsed v)) \<or> act = SDeq take_start"

lemma quiet_step:
  assumes rel: "lscq_related n s a"
    and step: "lscq_sys_step s Tau (after s i L' th')"
    and L': "nodes L' = nodes (list_mem s)" "internal_order L' = internal_order (list_mem s)"
    and th: "busy (lthreads s i) = None" "\<And>m act. busy th' = Some (m, act) \<Longrightarrow> starts act"
    and own: "thread_at (2 ^ 60 + Suc n) L' th' st'" "st' = sstats a i \<or> sack_move (stored (list_mem s)) (sstats a i) (stored (list_mem s)) st'"
  shows "follows n (after s i L' th') a"
proof (rule lscq_put_related [OF rel step L'(2) _ own(1)])
  have same: "get_node L' m = get_node (list_mem s) m" for m using L'(1) by (simp add: get_node_def)
  show "pool_inv (2 ^ 60 + Suc n) (node_value nd) ((\<lambda>j. act_in m (lthreads s j))(i := act_in m th'))"
    if "get_node L' m = Some nd" for m nd
  proof -
    let ?C = "\<lambda>j. act_in m (lthreads s j)"
    have inv: "pool_inv (2 ^ 60 + n) (node_value nd) ?C" using rel that same by (simp add: lscq_related_def)
    have "act_in m th' = SQuiet \<or> starts (act_in m th')" using th(2) by (auto simp: act_in_def split: option.splits)
    moreover have "?C i = SQuiet" using th(1) by simp
    ultimately have "pool_inv (2 ^ 60 + n) (node_value nd) (?C(i := act_in m th'))"
      by (intro pool_inv_thread [OF inv]) (auto simp: starts_def)
    then show ?thesis by (rule pool_inv_mono) simp
  qed
  show "in_segment L' m act st" if "in_segment (list_mem s) m act st" for m act st using that same by (simp add: in_segment_def)
  have "stored L' = stored (list_mem s)" using L'(1) by (simp add: stored_def)
  then show "sack_move (stored (list_mem s)) (sstats a i) (stored L') st'" using own(2) s_keep by auto
qed

text \<open>A step inside a linked segment.\<close>

lemma not_running_owns: "\<not> seg_running act \<Longrightarrow> owns m act = None"
proof (cases act)
  case (SEnq pc)
  then show "\<not> seg_running act \<Longrightarrow> owns m act = None" by (cases pc) auto
next
  case (SDeq pc)
  then show "\<not> seg_running act \<Longrightarrow> owns m act = None" by (cases pc) auto
qed simp

lemma segment_step:
  assumes rel: "lscq_related n s a" and n: "n < 2 ^ 60" and act: "busy (lthreads s i) = Some (cq, act)"
    and nd: "get_node (list_mem s) cq = Some nd" and seg: "seg_step fin weak (node_value nd) act = (q', act')"
  defines "L' \<equiv> put_node (list_mem s) cq (nd\<lparr>node_value := q'\<rparr>)"
  assumes step: "lscq_sys_step s Tau (after s i L' th')"
    and th'_busy: "act' \<noteq> SEnq CPanic \<Longrightarrow> act' \<noteq> SDeq TPanic \<Longrightarrow>
      busy th' = (if seg_running act' then Some (cq, act') else None)"
    and own: "\<And>ps. act' \<noteq> SEnq CPanic \<Longrightarrow> act' \<noteq> SDeq TPanic \<Longrightarrow> seg_at q' act' ps \<Longrightarrow>
      thread_at (2 ^ 60 + Suc n) L' th' (erase ps)"
  shows "follows n (after s i L' th') a"
proof -
  let ?L = "list_mem s" and ?q = "node_value nd" and ?C = "\<lambda>j. act_in cq (lthreads s j)"
  have inv: "pool_inv (2 ^ 60 + n) ?q ?C" using rel nd by (simp add: lscq_related_def)
  have b: "2 ^ 60 + n < 2 ^ 61" using n by simp
  have ci: "?C i = act" using act by simp
  have "thread_at (2 ^ 60 + n) ?L (lthreads s i) (sstats a i)" using rel by (simp add: lscq_related_def)
  then have "in_segment ?L cq act (sstats a i)" using act by (cases "lthreads s i" rule: busy.cases) auto
  then obtain ps where ps: "seg_running act" "seg_at ?q act ps" "sstats a i = erase ps" using nd by (auto simp: in_segment_def)
  note st = seg_pool_step [OF inv b ci ps(1) seg]
  obtain ps' N where ps': "seg_at q' act' ps'" "pool_move N (bag_of ?q) ps (bag_of q') ps'"
    using ps(2) st(2) unfolding seg_sim_def by blast
  from ps'(2) have clocks: "in_clock ?q \<le> in_clock q'" "out_clock ?q \<le> out_clock q'" by (cases; simp)+
  have get: "get_node L' m = (if m = cq then Some (nd\<lparr>node_value := q'\<rparr>) else get_node ?L m)" for m
    using get_node_bound [OF nd] by (simp add: L'_def get_put_node)
  have new: "pool_inv (2 ^ 60 + Suc n) q' (?C(i := act'))" using st(1) by simp
  have calm: "act' \<noteq> SEnq CPanic" "act' \<noteq> SDeq TPanic" using pool_invD(13) [OF new, of i] by auto
  note th' = th'_busy [OF calm]
  show ?thesis
  proof (rule lscq_put_related [OF rel step])
    show "internal_order L' = internal_order ?L" by (simp add: L'_def)
    show "thread_at (2 ^ 60 + Suc n) L' th' (erase ps')" by (rule own [OF calm ps'(1)])
    show "pool_inv (2 ^ 60 + Suc n) (node_value md) ((\<lambda>j. act_in m (lthreads s j))(i := act_in m th'))"
      if md: "get_node L' m = Some md" for m md
    proof (cases "m = cq")
      case True
      have "pool_inv (2 ^ 60 + Suc n) q' (?C(i := act_in cq th'))"
      proof (cases "seg_running act'")
        case False
        have "pool_inv (2 ^ 60 + Suc n) q' ((?C(i := act'))(i := SQuiet))"
          by (rule pool_inv_thread [OF new]) (use not_running_owns [OF False] in simp_all)
        then show ?thesis using th' False by simp
      qed (use new th' in simp)
      moreover have "node_value md = q'" using md True get by auto
      ultimately show ?thesis using True by simp
    next
      case False
      then have "get_node ?L m = Some md" using md get by simp
      then show ?thesis by (rule other_segment [OF rel]) (use False th' act in \<open>auto simp: act_in_def\<close>)
    qed
    show "in_segment L' m b st" if j: "j \<noteq> i" "busy (lthreads s j) = Some (m, b)" "in_segment ?L m b st" for j m b st
    proof (cases "m = cq")
      case True
      then have "?C j = b" using j(2) by simp
      then show ?thesis
        using j(3) True nd get seg_at_other [OF inv b ci ps(1) seg clocks j(1)] by (auto simp: in_segment_def)
    qed (use j(3) get in \<open>simp add: in_segment_def\<close>)
    obtain R where R: "stored ?L = contents_of ?q + R" "\<And>nd'. stored (put_node ?L cq nd') = contents_of (node_value nd') + R"
      by (rule stored_put [OF nd]) blast
    have "sack_move (contents_of ?q) (erase ps) (contents_of q') (erase ps')"
      using erase_move [OF ps'(2)] ticketed_contents [OF inv] ticketed_contents [OF new] by simp
    from sack_move_frame [OF this, of R] show "sack_move (stored ?L) (sstats a i) (stored L') (erase ps')"
      using R ps(3) by (simp add: L'_def)
  qed
qed

section \<open>New segments\<close>

lemma filling_new:
  assumes "size_ok sz" "node_new sz = Some nd" "2 ^ 60 \<le> b"
  shows "filling b (node_value nd) (CUsed v) v" "node_next nd = None"
proof -
  obtain nd' :: "'a lscq_node" and fs where nd': "node_new sz = Some nd'" "bq_ok (node_value nd') [] fs" "node_next nd' = None"
    by (rule new_node [OF assms(1)])
  then have nd: "bq_ok (node_value nd) [] fs" "node_next nd = None" using assms(2) by simp_all
  show "node_next nd = None" by (fact nd)
  let ?q = "node_value nd"
  have alloc: "alloc_bounded_new 1 sz = Some ?q" "0 < sz" "sz < 2 ^ 61" using assms(1,2) by (auto simp: node_new_def size_ok_def)
  note c = alloc_created [OF alloc(2,3,1)]
  have "pool_inv b ?q (\<lambda>_. SQuiet)" by (rule pool_inv_mono [OF c(1) assms(3)])
  then have "pool_inv b ?q ((\<lambda>_. SQuiet)(0 := SEnq (CUsed v)))" by (rule pool_inv_thread) simp_all
  moreover have "seg_at ?q (SEnq (CUsed v)) (PPending (Enq v) 0)" by (simp add: waits_def)
  moreover have "contents_of ?q = {#}" using ticketed_contents [OF c(1)] c(2) by simp
  moreover have "on_course (cycle_step False) cycle_returned (\<lambda>q' r. r = Ok () \<and> holds q' v) ?q (CUsed v)"
  proof -
    obtain h where h: "ring_ok (alloc_queue ?q) h []" "\<not> finalized (alloc_queue ?q)"
      using nd(1) alloc(1) by (auto simp: bq_ok_def alloc_bounded_new_def finalized_def split: option.splits)
    have "solo_within (cycle_step False) cycle_returned 27 (\<lambda>q' r. r = Ok () \<and> (\<exists>as' fs'. seg_ok q' as' fs' \<and>
        ring_ok (alloc_queue q') h as' \<and> seg_contents q' as' = seg_contents ?q [] @ [v])) ?q (CUsed v)"
      by (rule cycle_room [OF bq_ok_seg [OF nd(1)] h]) simp
    then have "solo_within (cycle_step False) cycle_returned 27 (\<lambda>q' r. r = Ok () \<and> holds q' v) ?q (CUsed v)"
      by (rule within_mono) (auto simp: holds_def seg_contents_def)
    then show ?thesis by (rule on_courseI)
  qed
  ultimately show "filling b ?q (CUsed v) v" by (fastforce simp: filling_def)
qed

lemma new_next_at:
  assumes "size_ok sz" "2 ^ 60 \<le> b"
  shows "thread_at b L (LEnqueuing (new_next sz cq v)) (TPending (Enq v))" "busy (LEnqueuing (new_next sz cq v)) = None"
proof -
  obtain nd :: "'a lscq_node" and fs where nd: "node_new sz = Some nd" "bq_ok (node_value nd) [] fs" by (rule new_node [OF assms(1)])
  show "thread_at b L (LEnqueuing (new_next sz cq v)) (TPending (Enq v))" "busy (LEnqueuing (new_next sz cq v)) = None"
    using filling_new(1) [OF assms(1) nd(1) assms(2)] nd(1) by (simp_all add: new_next_def)
qed

text \<open>A step of the thread that fills a new segment.\<close>

lemma filling_step:
  assumes f: "filling b q pc v" and b: "b < 2 ^ 61" and run: "cycle_returned pc = None" and step: "cycle_step False weak q pc = (q', pc')"
  shows "cycle_returned pc' = None \<Longrightarrow> filling (Suc b) q' pc' v" "pc' \<noteq> CPanic"
    "cycle_returned pc' = Some r \<Longrightarrow> r = Ok () \<and> pool_inv (Suc b) q' (\<lambda>_. SQuiet) \<and> contents_of q' = {#v#} \<and> holds q' v"
proof -
  let ?C = "(\<lambda>_. SQuiet)(0 := SEnq pc) :: nat \<Rightarrow> 'a seg_act"
  have inv: "pool_inv b q ?C" and course: "on_course (cycle_step False) cycle_returned (\<lambda>q' r. r = Ok () \<and> holds q' v) q pc"
    using f by (simp_all add: filling_def)
  obtain ps where ps: "seg_at q (SEnq pc) ps" "contents_of q + in_hand ps = {#v#}" using f by (auto simp: filling_def)
  have "seg_step False weak q (SEnq pc) = (q', SEnq pc')" using step by simp
  note st = seg_pool_step [OF inv b _ _ this, of 0]
  have new: "pool_inv (Suc b) q' ((\<lambda>_. SQuiet)(0 := SEnq pc'))" using st(1) run by simp
  obtain ps' N where ps': "seg_at q' (SEnq pc') ps'" "pool_move N (bag_of q) ps (bag_of q') ps'"
    using ps(1) st(2) run unfolding seg_sim_def by auto
  have hand: "contents_of q' + in_hand ps' = {#v#}"
    using hand_move [OF ps'(2)] ps(2) ticketed_contents [OF inv] ticketed_contents [OF new] by simp
  note course' = on_course_step [OF course run step]
  show "cycle_returned pc' = None \<Longrightarrow> filling (Suc b) q' pc' v" using new ps'(1) hand course' by (auto simp: filling_def)
  show "pc' \<noteq> CPanic" using pool_invD(13) [OF new, of 0] by auto
  show "r = Ok () \<and> pool_inv (Suc b) q' (\<lambda>_. SQuiet) \<and> contents_of q' = {#v#} \<and> holds q' v" if r: "cycle_returned pc' = Some r"
  proof -
    have ok: "r = Ok ()" "holds q' v" using on_course_return [OF course' r] by simp_all
    have pc': "pc' = CRet (Ok ())" using r ok(1) by (cases pc') auto
    then have "ps' = PDone (REnq (Ok ()))" using ps'(1) by simp
    then have "contents_of q' = {#v#}" using hand by simp
    moreover have "pool_inv (Suc b) q' (((\<lambda>_. SQuiet)(0 := SEnq pc'))(0 := SQuiet))"
      by (rule pool_inv_thread [OF new]) (simp_all add: pc')
    then have "pool_inv (Suc b) q' (\<lambda>_. SQuiet)" by (simp add: fun_upd_idem)
    ultimately show ?thesis using ok by simp
  qed
qed

text \<open>The thread that takes its element back.\<close>

lemma holds_course:
  assumes "holds q v"
  shows "on_course take_step take_returned (\<lambda>q r. r = Some v) q take_start"
proof -
  obtain as fs where "seg_ok q as fs" "seg_contents q as = [v]" using assms by (auto simp: holds_def)
  then obtain i where i: "seg_ok q [i] fs" "the (backing q ! i) = v" by (auto simp: seg_contents_def)
  show ?thesis by (rule on_courseI [OF within_mono [OF take_some [OF i(1)]]]) (use i(2) in auto)
qed

text \<open>The store of the threshold.\<close>

lemma reset_inv:
  assumes "pool_inv b q C"
  shows "pool_inv b (reset_threshold q) C" "contents_of (reset_threshold q) = contents_of q"
    "seg_at q (C j) ps \<Longrightarrow> seg_at (reset_threshold q) (C j) ps"
proof -
  note d = pool_invD [OF assms]
  let ?al = "alloc_queue (reset_threshold q)"
  have same: "free_queue (reset_threshold q) = free_queue q" "backing (reset_threshold q) = backing q"
    "ring_m (reset_threshold q) = ring_m q" "order ?al = order (alloc_queue q)" "rtail ?al = rtail (alloc_queue q)"
    "rhead ?al = rhead (alloc_queue q)"
    by (simp_all add: reset_threshold_def ring_m_def)
  have "ring_inv b ?al ((\<lambda>i. alloc_act (C i))(0 := alloc_act (C 0)))" and ix: "indices ?al = indices (alloc_queue q)"
    by (rule ring_inv_frame [OF d(2)];
      use ring_invD(3,4) [OF d(2)] act_ok_local [OF ring_invD(7) [OF d(2), of 0], of b ?al] ring_invD(8) [OF d(2), of 0]
        in \<open>auto simp: reset_threshold_def\<close>)+
  then have al: "ring_inv b ?al (\<lambda>i. alloc_act (C i))" by (simp add: fun_upd_idem)
  have fine: "act_fine (reset_threshold q) (C i)" for i by (rule act_fine_cong [OF d(13)]) (simp_all add: same)
  show "pool_inv b (reset_threshold q) C"
    using assms al fine by (simp add: pool_inv_def same ix)
  show "contents_of (reset_threshold q) = contents_of q" by (simp add: contents_of_def same ix)
  show "seg_at q (C j) ps \<Longrightarrow> seg_at (reset_threshold q) (C j) ps"
    by (rule seg_at_cong [OF _ d(13)]) (simp_all add: same)
qed

section \<open>The steps\<close>

lemma lscq_relatedD:
  assumes "lscq_related n s a"
  shows "list_ok (list_mem s)" "thread_knows (length (nodes (list_mem s))) (lthreads s i)" "size_ok (internal_order (list_mem s))"
    "get_node (list_mem s) m = Some nd \<Longrightarrow> pool_inv (2 ^ 60 + n) (node_value nd) (\<lambda>i. act_in m (lthreads s i))"
    "thread_at (2 ^ 60 + n) (list_mem s) (lthreads s i) (sstats a i)"
  using assms by (simp_all add: lscq_related_def lscq_sys_ok_def)

lemma get_node_Some: "m < length (nodes L) \<Longrightarrow> \<exists>nd. get_node L m = Some nd"
  by (simp add: get_node_def)

lemma enters_enq: "m < length (nodes L) \<Longrightarrow> in_segment L m (SEnq (CUsed v)) (TPending (Enq v))"
proof -
  assume "m < length (nodes L)"
  then obtain nd where "get_node L m = Some nd" using get_node_Some by blast
  moreover have "seg_at (node_value nd) (SEnq (CUsed v)) (PPending (Enq v) 0)" by (simp add: waits_def)
  ultimately show ?thesis by (force simp: in_segment_def)
qed

lemma enters_deq: "m < length (nodes L) \<Longrightarrow> in_segment L m (SDeq take_start) (TPending Deq)"
proof -
  assume "m < length (nodes L)"
  then obtain nd where "get_node L m = Some nd" using get_node_Some by blast
  moreover have "seg_at (node_value nd) (SDeq take_start) (PPending Deq 0)" by simp
  ultimately show ?thesis by (force simp: in_segment_def)
qed

text \<open>What becomes of a thread that has made a step inside a segment.\<close>

lemma in_segmentI:
  "seg_running a \<Longrightarrow> get_node L n = Some nd \<Longrightarrow> seg_at (node_value nd) a ps \<Longrightarrow> in_segment L n a (erase ps)"
  by (auto simp: in_segment_def)

lemma cycle_next_at:
  assumes sz: "size_ok sz" "2 ^ 60 \<le> b" and pc: "pc \<noteq> CPanic" and nd: "get_node L cq = Some nd"
  shows "busy (LEnqueuing (cycle_next sz cq pc)) = (if seg_running (SEnq pc) then Some (cq, SEnq pc) else None)"
    "seg_at (node_value nd) (SEnq pc) ps \<Longrightarrow> thread_at b L (LEnqueuing (cycle_next sz cq pc)) (erase ps)"
proof -
  note new = new_next_at [OF sz, where cq = cq]
  consider "seg_running (SEnq pc)" "cycle_next sz cq pc = LCycle cq pc" | "pc = CRet (Ok ())" | v e where "pc = CRet (Err (v, e))"
    using pc by (cases "(sz, cq, pc)" rule: cycle_next.cases) auto
  note kinds = this
  from kinds show "busy (LEnqueuing (cycle_next sz cq pc)) = (if seg_running (SEnq pc) then Some (cq, SEnq pc) else None)"
    by cases (simp_all add: new(2))
  from kinds show "thread_at b L (LEnqueuing (cycle_next sz cq pc)) (erase ps)" if "seg_at (node_value nd) (SEnq pc) ps"
    by cases (use that new(1) in_segmentI [OF _ nd that] in simp_all)
qed

lemma take_next_at:
  assumes pc: "pc \<noteq> TPanic" and nd: "get_node L cq = Some nd"
  shows "busy (LDequeuing (first_next cq pc)) = (if seg_running (SDeq pc) then Some (cq, SDeq pc) else None)"
    "seg_at (node_value nd) (SDeq pc) ps \<Longrightarrow> thread_at b L (LDequeuing (first_next cq pc)) (erase ps)"
    "busy (LDequeuing (second_next cq nx pc)) = (if seg_running (SDeq pc) then Some (cq, SDeq pc) else None)"
    "seg_at (node_value nd) (SDeq pc) ps \<Longrightarrow> thread_at b L (LDequeuing (second_next cq nx pc)) (erase ps)"
proof -
  consider "seg_running (SDeq pc)" "first_next cq pc = QFirst cq pc" "second_next cq nx pc = QSecond cq nx pc"
    | "pc = TRet None" | v where "pc = TRet (Some v)"
    using pc by (cases "(cq, pc)" rule: first_next.cases) auto
  note kinds = this
  from kinds show "busy (LDequeuing (first_next cq pc)) = (if seg_running (SDeq pc) then Some (cq, SDeq pc) else None)"
    "busy (LDequeuing (second_next cq nx pc)) = (if seg_running (SDeq pc) then Some (cq, SDeq pc) else None)"
    by (cases; simp)+
  from kinds show "thread_at b L (LDequeuing (first_next cq pc)) (erase ps)"
    "thread_at b L (LDequeuing (second_next cq nx pc)) (erase ps)" if "seg_at (node_value nd) (SDeq pc) ps"
    by (cases; use that in_segmentI [OF _ nd that] in simp)+
qed

text \<open>The exchange that links a new segment.\<close>

lemma stored_link:
  assumes "get_node L cq = Some old"
  shows "stored (link_node L cq old nd) = stored L + contents_of (node_value nd)"
proof -
  let ?f = "\<lambda>nd. contents_of (node_value nd)"
  have cq: "cq < length (nodes L)" "old = nodes L ! cq" using assms by (auto simp: get_node_def split: if_splits)
  have "(map ?f (nodes L))[cq := ?f old] = map ?f (nodes L)"
    unfolding cq(2) by (subst nth_map [OF cq(1), symmetric]) (rule list_update_id)
  then have "map ?f (nodes (link_node L cq old nd)) = map ?f (nodes L) @ [?f nd]" by (simp add: link_node_def map_update)
  then show ?thesis by (simp add: stored_def)
qed

lemma link_simulated:
  assumes rel: "lscq_related n s a" and i: "lthreads s i = LEnqueuing (LLink cq nd)"
    and old: "get_node (list_mem s) cq = Some old"
    and v: "sstats a i = TPending (Enq v)" "pool_inv (2 ^ 60 + n) (node_value nd) (\<lambda>_. SQuiet)" "contents_of (node_value nd) = {#v#}"
  defines "L' \<equiv> link_node (list_mem s) cq old nd" and "th' \<equiv> LEnqueuing (LSwing cq (length (nodes (list_mem s))))"
  assumes step: "lscq_sys_step s Tau (after s i L' th')"
  shows "follows n (after s i L' th') a"
proof (rule lscq_put_related [OF rel step])
  let ?L = "list_mem s"
  note d = lscq_relatedD [OF rel]
  have get: "get_node L' m = (if m = length (nodes ?L) then Some nd
      else if m = cq then Some (old\<lparr>node_next := Some (length (nodes ?L))\<rparr>) else get_node ?L m)" for m
    unfolding L'_def by (rule get_link_node [OF old])
  show "internal_order L' = internal_order ?L" by (simp add: L'_def link_node_def)
  show "thread_at (2 ^ 60 + Suc n) L' th' (TDone (REnq (Ok ())))" by (simp add: th'_def)
  show "sack_move (stored ?L) (sstats a i) (stored L') (TDone (REnq (Ok ())))"
    using s_put [of "stored ?L" v] stored_link [OF old, of nd] v(1,3) by (simp add: L'_def)
  show "in_segment L' m act st" if "in_segment ?L m act st" for m act st
  proof -
    have "m < length (nodes ?L)" using that by (auto simp: in_segment_def dest: get_node_bound)
    then show ?thesis using that get old by (auto simp: in_segment_def)
  qed
  show "pool_inv (2 ^ 60 + Suc n) (node_value md) ((\<lambda>j. act_in m (lthreads s j))(i := act_in m th'))"
    if md: "get_node L' m = Some md" for m md
  proof (cases "m = length (nodes ?L)")
    case True
    have "act_in m (lthreads s j) = SQuiet" for j
      using d(2) [of j] True by (cases "lthreads s j" rule: busy.cases) (auto simp: act_in_def)
    then have "(\<lambda>j. act_in m (lthreads s j))(i := act_in m th') = (\<lambda>_. SQuiet)" by (auto simp: th'_def)
    then show ?thesis using pool_inv_mono [OF v(2), of "2 ^ 60 + Suc n"] md True get by simp
  next
    case False
    then obtain md' where md': "get_node ?L m = Some md'" "node_value md' = node_value md"
      using md get old by (auto split: if_splits)
    from other_segment [OF rel md'(1), of th' i] show ?thesis using i md'(2) by (simp add: th'_def)
  qed
qed

text \<open>The steps in a new segment: nobody else sees it.\<close>

lemma fill_next_at:
  assumes f: "filling b (node_value nd) pc v" "cycle_returned pc = None" "b < 2 ^ 61"
    and step: "cycle_step False weak (node_value nd) pc = (q', pc')"
  shows "thread_at (Suc b) L (LEnqueuing (fill_next cq (nd\<lparr>node_value := q'\<rparr>) pc')) (TPending (Enq v))"
    "busy (LEnqueuing (fill_next cq (nd\<lparr>node_value := q'\<rparr>) pc')) = None"
proof -
  let ?nd = "nd\<lparr>node_value := q'\<rparr>"
  note f = filling_step [OF f(1,3,2) step]
  consider "cycle_returned pc' = None" "fill_next cq ?nd pc' = LFill cq ?nd pc'"
    | "cycle_returned pc' = Some (Ok ())" "fill_next cq ?nd pc' = LLink cq ?nd"
    | x where "cycle_returned pc' = Some (Err x)"
    using f(2) by (cases "(cq, ?nd, pc')" rule: fill_next.cases) auto
  then have "thread_at (Suc b) L (LEnqueuing (fill_next cq ?nd pc')) (TPending (Enq v)) \<and>
      busy (LEnqueuing (fill_next cq ?nd pc')) = None"
  proof cases
    case 1
    then show ?thesis using f(1) [OF 1(1)] by simp
  next
    case 2
    then show ?thesis using f(3) [OF 2(1)] by simp
  next
    case (3 x)
    then show ?thesis using f(3) [OF 3] by simp
  qed
  then show "thread_at (Suc b) L (LEnqueuing (fill_next cq ?nd pc')) (TPending (Enq v))"
    "busy (LEnqueuing (fill_next cq ?nd pc')) = None" by simp_all
qed

lemma empty_next_at:
  assumes "on_course take_step take_returned (\<lambda>q r. r = Some v) (node_value nd) pc" "take_returned pc = None"
    and step: "take_step weak (node_value nd) pc = (q', pc')"
  shows "thread_at b L (LEnqueuing (empty_next (nd\<lparr>node_value := q'\<rparr>) pc')) (TPending (Enq v))"
    "busy (LEnqueuing (empty_next (nd\<lparr>node_value := q'\<rparr>) pc')) = None"
proof -
  have course: "on_course take_step take_returned (\<lambda>q r. r = Some v) q' pc'" by (rule on_course_step [OF assms])
  moreover have "pc' \<noteq> TPanic" using on_course_stuck [OF course] by auto
  ultimately have "thread_at b L (LEnqueuing (empty_next (nd\<lparr>node_value := q'\<rparr>) pc')) (TPending (Enq v)) \<and>
      busy (LEnqueuing (empty_next (nd\<lparr>node_value := q'\<rparr>) pc')) = None"
    using on_course_return [OF course] by (cases "(nd\<lparr>node_value := q'\<rparr>, pc')" rule: empty_next.cases) auto
  then show "thread_at b L (LEnqueuing (empty_next (nd\<lparr>node_value := q'\<rparr>) pc')) (TPending (Enq v))"
    "busy (LEnqueuing (empty_next (nd\<lparr>node_value := q'\<rparr>) pc')) = None" by simp_all
qed

lemma enq_simulated:
  fixes s :: "'a lscq_sys"
  assumes rel: "lscq_related n s a" and n: "n < 2 ^ 60" and i: "lthreads s i = LEnqueuing pc" "lscq_enq_returned pc = None"
    and st: "lscq_enq_step weak (list_mem s) pc = (L', pc')"
    and step: "lscq_sys_step s Tau (after s i L' (LEnqueuing pc'))"
  shows "follows n (after s i L' (LEnqueuing pc')) a"
proof -
  let ?L = "list_mem s"
  note d = lscq_relatedD [OF rel]
  have at: "thread_at (2 ^ 60 + n) ?L (LEnqueuing pc) (sstats a i)" and kn: "enq_knows (length (nodes ?L)) pc"
    using d(5) [of i] d(2) [of i] i(1) by simp_all
  note quiet = quiet_step [OF rel step]
  have b: "2 ^ 60 + n < 2 ^ 61" using n by simp
  show ?thesis
  proof (cases pc)
    case (LTail v)
    then show ?thesis using st at i(1) by (intro quiet [where st' = "sstats a i"]) auto
  next
    case (LNext v cq)
    obtain nd where nd: "get_node ?L cq = Some nd" using kn LNext get_node_Some by fastforce
    show ?thesis
    proof (cases "node_next nd")
      case None
      then show ?thesis
        using st at i(1) nd LNext kn enters_enq [of cq ?L v]
        by (intro quiet [where st' = "sstats a i"]) (auto simp: starts_def)
    next
      case (Some nx)
      then show ?thesis using st at i(1) nd LNext by (intro quiet [where st' = "sstats a i"]) auto
    qed
  next
    case (LHelp v cq nx)
    then show ?thesis using st at i(1) by (intro quiet [where st' = "sstats a i"]) (auto split: prod.splits)
  next
    case (LCycle cq cpc)
    obtain nd where nd: "get_node ?L cq = Some nd" using kn LCycle get_node_Some by fastforce
    obtain q' cpc' where c: "cycle_step True weak (node_value nd) cpc = (q', cpc')" by fastforce
    then have seg: "seg_step True weak (node_value nd) (SEnq cpc) = (q', SEnq cpc')" by simp
    have L': "L' = put_node ?L cq (nd\<lparr>node_value := q'\<rparr>)" "pc' = cycle_next (internal_order ?L) cq cpc'"
      using st LCycle nd c by auto
    have nd': "get_node L' cq = Some (nd\<lparr>node_value := q'\<rparr>)" using get_node_bound [OF nd] by (simp add: L'(1) get_put_node)
    have bs: "busy (lthreads s i) = Some (cq, SEnq cpc)" using i(1) LCycle by simp
    have "2 ^ 60 \<le> 2 ^ 60 + Suc n" by simp
    note nxt = cycle_next_at [OF d(3) this _ nd']
    show ?thesis
      unfolding L'(1)
      by (rule segment_step [OF rel n bs nd seg step [unfolded L'(1)]])
        (use nxt in \<open>auto simp: L' simp del: seg_running.simps\<close>)
  next
    case (LFill cq nd cpc)
    obtain v where v: "sstats a i = TPending (Enq v)" "cycle_returned cpc = None" "filling (2 ^ 60 + n) (node_value nd) cpc v"
      using at LFill by auto
    obtain q' cpc' where c: "cycle_step False weak (node_value nd) cpc = (q', cpc')" by fastforce
    have L': "L' = ?L" "pc' = fill_next cq (nd\<lparr>node_value := q'\<rparr>) cpc'" using st LFill c by auto
    note f = fill_next_at [OF v(3,2) b c, where cq = cq]
    show ?thesis using i(1) LFill v(1) f by (intro quiet [where st' = "TPending (Enq v)"]) (simp_all add: L')
  next
    case (LLink cq nd)
    obtain v where v: "sstats a i = TPending (Enq v)" "pool_inv (2 ^ 60 + n) (node_value nd) (\<lambda>_. SQuiet)"
      "contents_of (node_value nd) = {#v#}" "holds (node_value nd) v" using at LLink by auto
    obtain old where old: "get_node ?L cq = Some old" using kn LLink get_node_Some by fastforce
    show ?thesis
    proof (cases "node_next old")
      case (Some nx)
      then have "L' = ?L" "pc' = LEmpty nd take_start"
        using st LLink old by (auto simp: compare_exchange_def compare_exchange_weak_def)
      then show ?thesis
        using i(1) LLink v holds_course [OF v(4)] by (intro quiet [where st' = "TPending (Enq v)"]) auto
    next
      case None
      then have L': "L' = link_node ?L cq old nd" "pc' = LSwing cq (length (nodes ?L))"
        using st LLink old by (auto simp: compare_exchange_def compare_exchange_weak_def)
      show ?thesis
        unfolding L' by (rule link_simulated [OF rel _ old v(1-3) step [unfolded L']]) (use i(1) LLink in simp)
    qed
  next
    case (LSwing cq nx)
    then show ?thesis using st at i(1) by (intro quiet [where st' = "sstats a i"]) (auto split: prod.splits)
  next
    case (LEmpty nd tpc)
    obtain v where v: "sstats a i = TPending (Enq v)" "take_returned tpc = None"
      "on_course take_step take_returned (\<lambda>q r. r = Some v) (node_value nd) tpc" using at LEmpty by auto
    obtain q' tpc' where c: "take_step weak (node_value nd) tpc = (q', tpc')" by fastforce
    have L': "L' = ?L" "pc' = empty_next (nd\<lparr>node_value := q'\<rparr>) tpc'" using st LEmpty c by auto
    note e = empty_next_at [OF v(3,2) c]
    show ?thesis using i(1) LEmpty v(1) e by (intro quiet [where st' = "TPending (Enq v)"]) (simp_all add: L')
  qed (use i at in auto)
qed

text \<open>The store of the threshold, after which the thread looks into the segment again.\<close>

lemma reset_simulated:
  assumes rel: "lscq_related n s a" and i: "lthreads s i = LDequeuing (QThresh cq nx)" "sstats a i = TPending Deq"
    and nd: "get_node (list_mem s) cq = Some nd"
  defines "L' \<equiv> put_node (list_mem s) cq (nd\<lparr>node_value := reset_threshold (node_value nd)\<rparr>)"
    and "th' \<equiv> LDequeuing (QSecond cq nx take_start)"
  assumes step: "lscq_sys_step s Tau (after s i L' th')"
  shows "follows n (after s i L' th') a"
proof (rule lscq_put_related [OF rel step])
  let ?L = "list_mem s" and ?q = "reset_threshold (node_value nd)"
  have cq: "cq < length (nodes ?L)" using nd get_node_bound by blast
  have get: "get_node L' m = (if m = cq then Some (nd\<lparr>node_value := ?q\<rparr>) else get_node ?L m)" for m
    using cq by (simp add: L'_def get_put_node)
  note r = reset_inv [OF lscq_relatedD(4) [OF rel nd]]
  show "internal_order L' = internal_order ?L" by (simp add: L'_def)
  have "cq < length (nodes L')" using cq by (simp add: L'_def)
  from enters_deq [OF this] show "thread_at (2 ^ 60 + Suc n) L' th' (TPending Deq)" by (simp add: th'_def)
  obtain R where "stored ?L = contents_of (node_value nd) + R"
    "\<And>nd'. stored (put_node ?L cq nd') = contents_of (node_value nd') + R" by (rule stored_put [OF nd]) blast
  then have "stored L' = stored ?L" using r(2) by (simp add: L'_def)
  then show "sack_move (stored ?L) (sstats a i) (stored L') (TPending Deq)" using i(2) s_keep by simp
  show "in_segment L' m act st" if j: "busy (lthreads s j) = Some (m, act)" "in_segment ?L m act st" for j m act st
  proof (cases "m = cq")
    case True
    then have "act_in cq (lthreads s j) = act" using j(1) by simp
    then show ?thesis using j(2) True nd get r(3) [of j] by (auto simp: in_segment_def)
  qed (use j(2) get in \<open>simp add: in_segment_def\<close>)
  show "pool_inv (2 ^ 60 + Suc n) (node_value md) ((\<lambda>j. act_in m (lthreads s j))(i := act_in m th'))"
    if md: "get_node L' m = Some md" for m md
  proof (cases "m = cq")
    case True
    have "act_in cq (lthreads s i) = SQuiet" using i(1) by simp
    then have "pool_inv (2 ^ 60 + n) ?q ((\<lambda>j. act_in cq (lthreads s j))(i := SDeq take_start))"
      by (intro pool_inv_thread [OF r(1)]) simp_all
    then have "pool_inv (2 ^ 60 + Suc n) ?q ((\<lambda>j. act_in cq (lthreads s j))(i := SDeq take_start))" by (rule pool_inv_mono) simp
    moreover have "node_value md = ?q" using md True get by auto
    ultimately show ?thesis using True by (simp add: th'_def)
  next
    case False
    then have "get_node ?L m = Some md" using md get by simp
    then show ?thesis by (rule other_segment [OF rel]) (use i(1) False in \<open>simp add: th'_def\<close>)
  qed
qed

text \<open>A step of \<open>dequeue\<close> in a segment, the first or the second time.\<close>

lemma take_simulated:
  assumes rel: "lscq_related n s a" and n: "n < 2 ^ 60" and i: "busy (lthreads s i) = Some (cq, SDeq pc)"
    and nd: "get_node (list_mem s) cq = Some nd" and take: "take_step weak (node_value nd) pc = (q', pc')"
  defines "L' \<equiv> put_node (list_mem s) cq (nd\<lparr>node_value := q'\<rparr>)"
  assumes step: "lscq_sys_step s Tau (after s i L' th')"
    and th': "th' = LDequeuing (first_next cq pc') \<or> th' = LDequeuing (second_next cq nx pc')"
  shows "follows n (after s i L' th') a"
proof -
  have seg: "seg_step False weak (node_value nd) (SDeq pc) = (q', SDeq pc')" using take by simp
  have nd': "get_node L' cq = Some (nd\<lparr>node_value := q'\<rparr>)" using get_node_bound [OF nd] by (simp add: L'_def get_put_node)
  note nxt = take_next_at [OF _ nd']
  show ?thesis
    unfolding L'_def
    by (rule segment_step [OF rel n i nd seg step [unfolded L'_def]])
      (use nxt th' in \<open>auto simp: L'_def simp del: seg_running.simps\<close>)
qed

lemma deq_simulated:
  fixes s :: "'a lscq_sys"
  assumes rel: "lscq_related n s a" and n: "n < 2 ^ 60" and i: "lthreads s i = LDequeuing pc" "lscq_deq_returned pc = None"
    and st: "lscq_deq_step weak (list_mem s) pc = (L', pc')"
    and step: "lscq_sys_step s Tau (after s i L' (LDequeuing pc'))"
  shows "follows n (after s i L' (LDequeuing pc')) a"
proof -
  let ?L = "list_mem s"
  note d = lscq_relatedD [OF rel]
  have at: "thread_at (2 ^ 60 + n) ?L (LDequeuing pc) (sstats a i)" and kn: "deq_knows (length (nodes ?L)) pc"
    using d(5) [of i] d(2) [of i] i(1) by simp_all
  note quiet = quiet_step [OF rel step]
  show ?thesis
  proof (cases pc)
    case QHead
    have "lhead ?L < length (nodes ?L)" using d(1) by (simp add: list_ok_def)
    from enters_deq [OF this] show ?thesis
      using st at i(1) QHead by (intro quiet [where st' = "sstats a i"]) (auto simp: starts_def)
  next
    case (QFirst cq tpc)
    obtain nd where nd: "get_node ?L cq = Some nd" using kn QFirst get_node_Some by fastforce
    obtain q' tpc' where c: "take_step weak (node_value nd) tpc = (q', tpc')" by fastforce
    then have L': "L' = put_node ?L cq (nd\<lparr>node_value := q'\<rparr>)" "pc' = first_next cq tpc'" using st QFirst nd by auto
    show ?thesis
      unfolding L'(1) by (rule take_simulated [OF rel n _ nd c step [unfolded L'(1)]]) (use i(1) QFirst L'(2) in auto)
  next
    case (QNext cq)
    obtain nd where nd: "get_node ?L cq = Some nd" using kn QNext get_node_Some by fastforce
    show ?thesis
    proof (cases "node_next nd")
      case None
      then have "L' = ?L" "pc' = QRet None" using st QNext nd by auto
      then show ?thesis
        using at i(1) QNext s_none [of "stored ?L"] by (intro quiet [where st' = "TDone (RDeq None)"]) auto
    next
      case (Some nx)
      then show ?thesis using st at i(1) nd QNext by (intro quiet [where st' = "sstats a i"]) auto
    qed
  next
    case (QThresh cq nx)
    obtain nd where nd: "get_node ?L cq = Some nd" using kn QThresh get_node_Some [of cq ?L] by auto
    have L': "L' = put_node ?L cq (nd\<lparr>node_value := reset_threshold (node_value nd)\<rparr>)" "pc' = QSecond cq nx take_start"
      using st QThresh nd by auto
    show ?thesis unfolding L' by (rule reset_simulated [OF rel _ _ nd step [unfolded L']]) (use i(1) at QThresh in auto)
  next
    case (QSecond cq nx tpc)
    obtain nd where nd: "get_node ?L cq = Some nd" using kn QSecond get_node_Some [of cq ?L] by auto
    obtain q' tpc' where c: "take_step weak (node_value nd) tpc = (q', tpc')" by fastforce
    then have L': "L' = put_node ?L cq (nd\<lparr>node_value := q'\<rparr>)" "pc' = second_next cq nx tpc'" using st QSecond nd by auto
    show ?thesis
      unfolding L'(1) by (rule take_simulated [OF rel n _ nd c step [unfolded L'(1)]]) (use i(1) QSecond L'(2) in auto)
  next
    case (QSwing cq nx)
    then show ?thesis
      using st at i(1) by (intro quiet [where st' = "sstats a i"]) (auto split: prod.splits rust_result.splits)
  next
    case (QRetire cq)
    then show ?thesis using st at i(1) by (intro quiet [where st' = "sstats a i"]) auto
  qed (use i at in auto)
qed

section \<open>The simulation\<close>

lemma related_label:
  assumes rel: "lscq_related n s a" and step: "lscq_sys_step s l (s\<lparr>lthreads := (lthreads s)(i := th')\<rparr>)"
    and th: "busy (lthreads s i) = None" "busy th' = None" "thread_at (2 ^ 60 + Suc n) (list_mem s) th' st'"
  shows "lscq_related (Suc n) (s\<lparr>lthreads := (lthreads s)(i := th')\<rparr>) (a\<lparr>sstats := (sstats a)(i := st')\<rparr>)"
proof -
  let ?s = "s\<lparr>lthreads := (lthreads s)(i := th')\<rparr>"
  note d = lscq_relatedD [OF rel]
  have "lscq_sys_ok ?s" by (rule lscq_sys_ok_step [OF _ step]) (use rel in \<open>simp add: lscq_related_def\<close>)
  moreover have "pool_inv (2 ^ 60 + Suc n) (node_value nd) (\<lambda>j. act_in m (((lthreads s)(i := th')) j))"
    if "get_node (list_mem s) m = Some nd" for m nd
  proof -
    have "act_in m th' = act_in m (lthreads s i)" using th by simp
    then show ?thesis
      unfolding act_in_upd using pool_inv_mono [OF d(4) [OF that], of "2 ^ 60 + Suc n"] by (simp add: fun_upd_idem)
  qed
  moreover have "thread_at (2 ^ 60 + Suc n) (list_mem s) (lthreads s j) (sstats a j)" for j
    by (rule thread_at_cong [OF d(5)]) simp_all
  ultimately show ?thesis using rel th(3) by (simp add: lscq_related_def)
qed

lemma lscq_step_simulated:
  assumes rel: "lscq_related n s a" and n: "n < 2 ^ 60" and step: "lscq_sys_step s l s'"
  shows "\<exists>a'. lscq_related (Suc n) s' a' \<and> (sack_step a l a' \<or> l = Tau \<and> a' = a)"
  using step
proof cases
  case (l_call i c)
  have "sstats a i = TIdle" using lscq_relatedD(5) [OF rel, of i] l_call(3) by simp
  then have "sack_step a l (a\<lparr>sstats := (sstats a)(i := TPending c)\<rparr>)" using k_call l_call(1) by blast
  moreover have "thread_at b (list_mem s) (lscq_start c) (TPending c)" "busy (lscq_start c) = None" for b by (cases c; simp)+
  ultimately show ?thesis
    using related_label [OF rel step [unfolded l_call(2)]] l_call by fastforce
next
  case (l_return i r)
  have "sstats a i = TDone r" "busy (lthreads s i) = None"
    using lscq_relatedD(5) [OF rel, of i] l_return(3)
    by (cases "lthreads s i"; auto elim!: lscq_enq_returned.elims lscq_deq_returned.elims)+
  moreover have "thread_at b (list_mem s) LIdle TIdle" "busy LIdle = None" for b by simp_all
  ultimately show ?thesis
    using related_label [OF rel step [unfolded l_return(2)]] k_return [of a i r] l_return by fastforce
next
  case (l_internal i weak L' th')
  note step' = step [unfolded l_internal(1,2)]
  have "\<exists>a'. lscq_related (Suc n) s' a' \<and> sack_step a Tau a'"
  proof (cases "lthreads s i")
    case (LEnqueuing pc)
    obtain pc' where "lscq_enq_step weak (list_mem s) pc = (L', pc')" "th' = LEnqueuing pc'"
      using l_internal(5) LEnqueuing by (cases "lscq_enq_step weak (list_mem s) pc") auto
    moreover have "lscq_enq_returned pc = None" using l_internal(4) LEnqueuing by simp
    ultimately show ?thesis using enq_simulated [OF rel n LEnqueuing] step' l_internal(2) by simp
  next
    case (LDequeuing pc)
    obtain pc' where "lscq_deq_step weak (list_mem s) pc = (L', pc')" "th' = LDequeuing pc'"
      using l_internal(5) LDequeuing by (cases "lscq_deq_step weak (list_mem s) pc") auto
    moreover have "lscq_deq_returned pc = None" using l_internal(4) LDequeuing by simp
    ultimately show ?thesis using deq_simulated [OF rel n LDequeuing] step' l_internal(2) by simp
  qed (use l_internal(3) in simp)
  then show ?thesis using l_internal(1) by blast
qed

lemma lscq_related_init:
  assumes "with_segment_size sz = Some u" "sz < 2 ^ 61"
  shows "lscq_related 0 (lscq_init (uq_internal u)) sack_init"
proof -
  obtain nd where nd: "node_new sz = Some nd" and u: "uq_internal u = \<lparr>nodes = [nd], lhead = 0, ltail = 0, internal_order = sz, retired = []\<rparr>"
    using assms(1) by (auto simp: with_segment_size_def lscq_new_def)
  have sz: "size_ok sz"
    using nd assms(2)
    by (auto simp: size_ok_def node_new_def alloc_bounded_new_def determine_order_def checked_ilog2_def split: if_splits option.splits)
  then have alloc: "alloc_bounded_new 1 sz = Some (node_value nd)" "0 < sz" using nd by (auto simp: node_new_def size_ok_def)
  note c = alloc_created [OF alloc(2) assms(2) alloc(1)]
  have "contents_of (node_value nd) = {#}" using ticketed_contents [OF c(1)] c(2) by simp
  moreover have "lscq_sys_ok (lscq_init (uq_internal u))" by (rule lscq_sys_ok_reachable [OF assms(1) exec_nil])
  ultimately show ?thesis
    using sz c(1) by (simp add: lscq_related_def lscq_init_def sack_init_def u stored_def get_node_def act_in_def)
qed

interpretation ls: bounded_simulation lscq_sys_step sack_step lscq_related
    "\<lambda>s. \<exists>sz u. with_segment_size sz = Some u \<and> sz < 2 ^ 61 \<and> s = lscq_init (uq_internal u)" sack_init "2 ^ 60"
proof
  show "lscq_related 0 s sack_init"
    if "\<exists>sz u. with_segment_size sz = Some u \<and> sz < 2 ^ 61 \<and> s = lscq_init (uq_internal u)" for s :: "'a lscq_sys"
    using that lscq_related_init by blast
qed (rule lscq_step_simulated)

fun in_op :: "'a try_stat \<Rightarrow> 'a multiset" where
  "in_op (TPending (Enq v)) = {#v#}"
| "in_op (TDone (REnq (Err v))) = {#v#}"
| "in_op (TDone (RDeq (Some v))) = {#v#}"
| "in_op _ = {#}"

lemma in_op_done: "in_op (TDone r) = given_out (Return i r)"
  by (cases "Return i r :: 'a fifo_label" rule: given_out.cases) simp_all

interpretation sb: balance_sheet sack_step sack_init given_in given_out sack sstats TIdle in_op
proof
  fix a a' :: "'a sack_spec" and l
  assume "sack_step a l a'"
  then show "\<exists>i x. given_in l + sack a + in_op (sstats a i) = given_out l + sack a' + in_op x \<and> sstats a' = (sstats a)(i := x)"
  proof cases
    case (k_call i c)
    then show ?thesis by (intro exI [of _ i] exI [of _ "TPending c"]) (cases c; simp)
  next
    case (k_move i P st)
    from k_move(3) show ?thesis
      using k_move(1,2) by cases (auto intro!: exI [of _ i] exI [of _ st])
  next
    case (k_return i r)
    then show ?thesis by (intro exI [of _ i] exI [of _ TIdle]) (auto simp: in_op_done)
  qed
qed (simp_all add: sack_init_def)

section \<open>Properties\<close>

lemma reachable_sack:
  assumes "with_segment_size sz = Some u" "sz < 2 ^ 61" "exec lscq_sys_step (lscq_init (uq_internal u)) ls s" "length ls \<le> 2 ^ 60"
  obtains ls' a where "exec sack_step sack_init ls' a" "history ls' = history ls" "lscq_related (length ls) s a"
  using ls.exec_related [OF assms(3) _ assms(4)] assms(1,2) by blast







end
