(* ===== verification/Formatting.thy ===== *)
theory Formatting
  imports Nure_Queue Scq_Bounded
begin

text \<open>
  What the repository's own \<open>fmt\<close> methods write: \<open>Debug\<close> of \<open>Queue\<close> in \<^verbatim>\<open>src/src/lib.rs\<close>, which
  hands a constant to \<open>Formatter::pad\<close>, and \<open>Display\<close> and \<open>Error::description\<close> of the error types in
  \<^verbatim>\<open>src/third-party/lfqueue/src/scq.rs\<close>. A method is modelled by the text it writes; the errors of the sink it
  writes to are passed on.
\<close>

section \<open>\<open>Formatter::pad\<close>\<close>

datatype alignment = AlignLeft | AlignRight | AlignCenter

record formatter =
  fill :: char
  align :: "alignment option"
  width :: "nat option"
  precision :: "nat option"

definition no_flags :: formatter where
  "no_flags = \<lparr>fill = CHR '' '', align = None, width = None, precision = None\<rparr>"

text \<open>The precision truncates; the rest up to the width is filled, after the text unless the alignment says otherwise.\<close>

definition truncated :: "formatter \<Rightarrow> string \<Rightarrow> string" where
  "truncated f s = (case precision f of None \<Rightarrow> s | Some p \<Rightarrow> take p s)"

definition pad :: "formatter \<Rightarrow> string \<Rightarrow> string" where
  "pad f s =
     (let t = truncated f s;
          gap = (case width f of None \<Rightarrow> 0 | Some w \<Rightarrow> w - length t);
          before = (case align f of Some AlignRight \<Rightarrow> gap | Some AlignCenter \<Rightarrow> gap div 2 | _ \<Rightarrow> 0)
      in replicate before (fill f) @ t @ replicate (gap - before) (fill f))"

lemma pad_length:
  "length (pad f s) = max (case width f of None \<Rightarrow> 0 | Some w \<Rightarrow> w) (length (truncated f s))"
proof -
  have "g div 2 + (g - g div 2) = g" for g :: nat by simp
  then show ?thesis by (auto simp: pad_def Let_def max_def split: option.splits alignment.splits)
qed

lemma pad_no_flags: "pad no_flags s = s"
  by (simp add: pad_def no_flags_def truncated_def Let_def)

section \<open>\<open>Debug\<close> of the queue\<close>

text \<open>The queue is printed without its elements, and nothing of its memory is read.\<close>

definition queue_fmt :: "'a queue \<Rightarrow> formatter \<Rightarrow> string" where
  "queue_fmt q f = pad f ''Queue { .. }''"

lemma queue_fmt_opaque: "queue_fmt q f = queue_fmt q' f"
  by (simp add: queue_fmt_def)

lemma queue_fmt_truncated:
  "width f = None \<Longrightarrow> precision f = Some p \<Longrightarrow> queue_fmt q f = take p (queue_fmt q no_flags)"
  by (simp add: queue_fmt_def pad_no_flags) (simp add: pad_def truncated_def Let_def split: option.splits alignment.splits)

section \<open>\<open>Display\<close> and \<open>Error\<close> of the errors\<close>

fun scq_error_fmt :: "scq_error \<Rightarrow> string" where
  "scq_error_fmt IndexLargerThanOrder = ''IndexLargerThanOrder''"
| "scq_error_fmt QueueFinalized = ''QueueFinalized''"

fun queue_error_fmt :: "queue_error \<Rightarrow> string" where
  "queue_error_fmt ErrQueueFull = ''QueueFull''"
| "queue_error_fmt ErrQueueFinalized = ''QueueFinalized''"

fun scq_error_description :: "scq_error \<Rightarrow> string" where
  "scq_error_description IndexLargerThanOrder = ''The entry provided was greater or equal than 2 ^ order.''"
| "scq_error_description QueueFinalized = ''Attempted to insert an entry but the queue was finalized.''"

fun queue_error_description :: "queue_error \<Rightarrow> string" where
  "queue_error_description ErrQueueFull = ''The queue is full of elements.''"
| "queue_error_description ErrQueueFinalized = ''The queue was finalized and no more elements may be inserted.''"

text \<open>A reader of a message can tell which error it was.\<close>

lemma error_texts_distinct:
  "scq_error_fmt e = scq_error_fmt e' \<longleftrightarrow> e = e'"
  "scq_error_description e = scq_error_description e' \<longleftrightarrow> e = e'"
  "queue_error_fmt d = queue_error_fmt d' \<longleftrightarrow> d = d'"
  "queue_error_description d = queue_error_description d' \<longleftrightarrow> d = d'"
  subgoal by (cases e; cases e') simp_all
  subgoal by (cases e; cases e') simp_all
  subgoal by (cases d; cases d') simp_all
  subgoal by (cases d; cases d') simp_all
  done

end
