(* ===== verification/Spec2Isabelle.thy ===== *)
theory Spec2Isabelle
  imports Nure_Order Nure_Progress Harness Loom Single_Weak Scq_Runs Scq_Order Lscq_Pool Formatting
begin

text \<open>
  \<^bold>\<open>A verification of nure-queue\<close>

  The repository holds \<open>nure-queue\<close> (\<^verbatim>\<open>src/src/lib.rs\<close>), a bounded multi-producer multi-consumer
  queue in static storage after Vyukov and Crossbeam's \<open>ArrayQueue\<close>, and a vendored copy of
  \<open>lfqueue\<close> (\<^verbatim>\<open>src/third-party/lfqueue\<close>), with which it is compared: a one-element queue
  (\<open>SingleSize\<close>), the SCQ ring of indices (\<open>ScqRing\<close>), a bounded queue made of two rings
  (\<open>BoundedQueue\<close>) and an unbounded list of such queues (\<open>UnboundedQueue\<close>).

  \<^bold>\<open>How the code is modelled.\<close> Shared memory is a record: an atomic or a payload cell is a field (or
  an element of a list field). Every operation is a machine: a program counter names the next
  access to shared memory and holds the operation's local variables, and a step function performs
  that access and the local computation up to the next one. A step takes a flag that makes a weak
  compare-and-exchange fail spuriously. Undefined behaviour (an unchecked index out of range, a
  read of uninitialised memory) and panics are program counters or \<open>None\<close>. \<open>Index\<close> and \<open>usize\<close> are
  64-bit words; overflow is written out where the code can meet it. For \<open>nure-queue\<close> the steps of the threads
  are interleaved on a memory with the orderings named in the code (\<open>Memory\<close>): logs of messages and
  views of threads, in which a relaxed or acquire load may read stale values, only acquire loads
  of release stores synchronise, \<open>SeqCst\<close> accesses and fences take place in one order, and an access to a payload
  that another thread's access does not happen before is undefined behaviour. \<open>SingleSize\<close> of \<open>lfqueue\<close> is
  interleaved with sequentially consistent accesses and on the same memory model with its own orderings; the
  bounded queue with its rings and the unbounded queue with sequentially consistent accesses.

  \<^bold>\<open>The theories.\<close>
  \<^item> \<open>Prelude\<close>: words, \<open>Result\<close>, compare-and-exchange, \<open>run_solo\<close> (a machine without interference, given
    the spurious failures; it returns within a stated number of other steps).
  \<^item> \<open>Lap\<close>: \<open>one_lap_for\<close> and the packed counters \<open>head\<close> and \<open>tail\<close> (index in the low bits, lap in the
    high bits), as encodings of unbounded positions; wrap-around and absence of confusion.
  \<^item> \<open>Backoff\<close>: \<open>Backoff::spin\<close> and \<open>Backoff::snooze\<close>, with their bounds.
  \<^item> \<open>Nure_Queue\<close>: \<open>Slot\<close>, \<open>Queue\<close>, \<open>new\<close>, and the machines of \<open>push_or_else\<close> with the closures of
    \<open>push\<close> and \<open>force_push\<close>, \<open>pop\<close>, \<open>is_empty\<close>, \<open>is_full\<close>, \<open>len\<close>, and \<open>drop\<close>.
  \<^item> \<open>Fifo_Spec\<close>: the contracts, as locales: a bounded first-in first-out queue (\<open>fifo_queue\<close>) and its
    extension by \<open>force_push\<close> and the observers (\<open>ring_queue\<close>), with the reference queues of the
    differential test and what a client may conclude for any sequence of operations.
  \<^item> \<open>Nure_Seq\<close>: the queue used by one thread: the representation \<open>repr\<close>, the solo runs of every
    operation, \<open>new\<close>, \<open>drop\<close>, and the interpretation of \<open>ring_queue\<close>.
  \<^item> \<open>Linearize\<close>: labelled executions, histories, a scheduler, forward simulation with a step budget
    (locale \<open>bounded_simulation\<close>), backward simulation (locale \<open>backward_simulation\<close>), and accounts that
    every step balances (locale \<open>balance_sheet\<close>).
  \<^item> \<open>Memory\<close>: the memory model: orderings, messages, views, loads, stores, exchanges, fences, and accesses
    to payload cells; the step of a machine on it (\<open>mem_perform\<close>), and that views point into the logs.
  \<^item> \<open>Nure_Spec\<close>: the atomic specification (\<open>atomic_step\<close>). An operation takes effect in one atomic action
    between its call and its return; a \<open>force_push\<close> on a full queue in two, the removal of the oldest
    element and the insertion. The delayed specification, in which an operation collects the answers
    that were right since its call; the backward simulation from it to the atomic one; conservation.
  \<^item> \<open>Nure_Conc\<close>: any number of threads on one queue (\<open>sys_step\<close>): the ordering of every access
    (\<open>access_of\<close>), and the steps on the memory model.
  \<^item> \<open>Nure_Sim\<close>, \<open>Nure_Weak\<close>, \<open>Nure_Rel\<close>, \<open>Nure_Step\<close>: the simulation relation: an assertion per program counter
    and ownership of slots (\<open>Nure_Sim\<close>), the logs and views (\<open>Nure_Weak\<close>), both with each kind of step
    (\<open>Nure_Rel\<close>), one lemma per program counter and the interpretation of \<open>bounded_simulation\<close> (\<open>Nure_Step\<close>).
  \<^item> \<open>Nure_Linear\<close>: linearizability, conservation of payloads down to \<open>drop\<close>, memory safety, exclusive
    access, the invariant shape of the queue, absence of overflow, and the limits of progress.
  \<^item> \<open>Nure_Client\<close>: what counting clients may conclude: when no \<open>push\<close> is refused and no \<open>pop\<close> finds the queue
    empty (the issue that \<^verbatim>\<open>src/tests/repro583.rs\<close> reproduces).
  \<^item> \<open>Nure_Order\<close>: first-in first-out order per producer and consumer under any interleaving.
  \<^item> \<open>Nure_Progress\<close>: a thread that no suspended owner of a slot hinders returns within ten solo steps; every
    reachable state can be completed to one in which no operation is under way.
  \<^item> \<open>Harness\<close>: the fuzz target and the checks of the differential test, with their assertions, which hold
    on every input. \<open>Loom\<close>: the slots and the constructor of the \<open>loom\<close> build, with loom's cell as a parameter,
    agree with the default build.
  \<^item> \<open>Single_Size\<close>: \<open>SingleSize\<close> used by one thread (interpretation of \<open>fifo_queue\<close>) and by any number
    (interpretation of \<open>bounded_simulation\<close>, with a specification that admits refusals). \<open>Single_Weak\<close>: the same
    cell with the orderings of the code, in which the write of \<open>enqueue\<close> races with the read of the \<open>dequeue\<close> before
    it, and with an acquiring exchange, which is safe.
  \<^item> \<open>Solo_Run\<close>: total correctness of a machine that runs alone, with a bound on its steps after the last spurious
    failure, and the rule for a machine that runs inside another one.
  \<^item> \<open>Scq_Ring\<close>: \<open>ScqRing\<close>: arithmetic, constructors, and the machines of \<open>enqueue\<close>, \<open>dequeue\<close> and
    \<open>catchup\<close>. \<open>Scq_Words\<close>: the bit layout of entries. \<open>Scq_Seq\<close>: solo runs on a represented ring.
    \<open>Scq_New\<close>: the constructors. \<open>Scq_Bounded\<close>: \<open>BoundedQueue\<close> with its constructors and \<open>drop\<close>, and
    the interpretation of \<open>fifo_queue\<close>.
  \<^item> \<open>Scq_Machine\<close>: \<open>enqueue_cycle\<close> and \<open>dequeue\<close> of \<open>BoundedQueue\<close> with one access to memory per step.
    \<open>Scq_Runs\<close>: they have the same results as the compositions of ring calls in \<open>Scq_Bounded\<close>.
    \<open>Scq_Segment\<close>: the bounded queue as a segment that can be full and finalised.
  \<^item> \<open>Scq_Conc\<close>: one ring under any number of threads: no two threads that may change an entry hold the same
    ticket, entries belong to rounds that have begun, and what every step of \<open>enqueue\<close> and \<open>dequeue\<close> does to the set of
    indices in the ring. \<open>Scq_Pool\<close>: the bounded queue under any number of threads: every slot is in one of the two
    rings or owned by one thread. \<open>Scq_Linear\<close>: the refinement of a pool of elements with tickets (interpretations
    of \<open>bounded_simulation\<close> and \<open>balance_sheet\<close>), exclusive access, conservation. \<open>Scq_Order\<close>: first-in first-out
    order per producer and consumer, as for \<open>nure-queue\<close>.
  \<^item> \<open>Lscq\<close>: \<^verbatim>\<open>src/third-party/lfqueue/src/lfstd.rs\<close>: the machines of \<open>UnboundedQueueInternal::enqueue\<close> and
    \<open>dequeue\<close>, with those of the segments inside, its \<open>drop\<close>, \<open>UnboundedQueue\<close> and \<open>CountedUnboundedQueue\<close>.
    \<open>Lscq_Seq\<close>: the list of segments used by one thread. \<open>Lscq_Queue\<close>: the unbounded contract
    (locale \<open>unbounded_fifo\<close>), interpreted for both queues. \<open>Lscq_Conc\<close>: any number of threads: the
    list stays a list and no segment is retired twice, but an element can be lost and a retired segment be loaded.
    \<open>Lscq_Pool\<close>: what holds all the same: the invariant of \<open>Scq_Pool\<close> for every segment, the threads inside it being
    those whose program counter is there, and the refinement of a sack of elements (interpretations of
    \<open>bounded_simulation\<close> and \<open>balance_sheet\<close>): no thread panics, what is dequeued was enqueued and is delivered once,
    and an element that no \<open>dequeue\<close> delivers is still in a segment.
  \<^item> \<open>Formatting\<close>: what \<open>Debug\<close> of \<open>Queue\<close> and \<open>Display\<close> and \<open>Error\<close> of the errors of \<open>lfqueue\<close> write.

  \<^bold>\<open>Bounds.\<close> The concurrent theorems are on executions of at most \<open>2 ^ 62\<close> steps: a thread that sleeps
  while the 64-bit counters go all the way round could be confused, so a bound is inherent in the
  algorithm. The sequential theorems have no bound: the counters may wrap around. A solo run of
  \<open>push_or_else\<close> returns within seven steps besides the spuriously failing ones, of \<open>pop\<close> within
  five (ten for either from a point inside its loop, as \<open>Nure_Progress\<close> counts), of the ring's \<open>enqueue\<close> within six and of its \<open>dequeue\<close> within eighteen (ten of them spins).
  Rings have orders up to 60, segments of unbounded queues fewer than \<open>2 ^ 61\<close> slots. The unbounded \<open>enqueue\<close> returns
  within 65 steps after the last spurious failure, \<open>dequeue\<close> within 70 (\<open>Lscq_Seq\<close>). The theorems on the bounded and the unbounded
  queue of \<open>lfqueue\<close> under any number of threads are on executions of at most \<open>2 ^ 60\<close> steps: the cycle of an entry takes the
  bits above the index, and the counters of a full ring start at its capacity, at most \<open>2 ^ 60\<close>.

  \<^bold>\<open>Not modelled.\<close> Executions in which a load reads from a store that its own thread performs later, or in
  which the order of \<open>SeqCst\<close> operations contradicts the order in which relaxed loads read; the orderings in
  the rings of \<open>lfqueue\<close>; targets whose \<open>Index\<close> is 32 bits wide;
  marker traits and the derived \<open>Debug\<close> implementations; debug assertions of \<open>lfqueue\<close>; when the bounded queue of \<open>lfqueue\<close> may refuse an operation under several
  threads; the crate \<open>haphazard\<close>: of its hazard pointers the model of the unbounded queue uses that
  a loaded node can be dereferenced (nodes are never freed) and records the nodes handed over for reclamation.

  \<^bold>\<open>Plan.\<close> Next: when the threshold of a ring lets \<open>dequeue\<close> report an empty ring; that the bound on the
  number of steps is inherent; the freeing of segments by \<open>haphazard\<close>.
\<close>

section \<open>Properties across components\<close>

text \<open>C40: The two bounded queues are interchangeable for one thread: on every sequence of enqueues and
  dequeues a \<open>nure-queue\<close> and a \<open>const_queue!\<close> of the same capacity return the same results and end
  with the same contents.\<close>

theorem queues_interchangeable:
  assumes "k \<le> 60" "new (2 ^ k) = Some q" "const_queue (2 ^ k) = Some b"
  shows "\<exists>q' b' rs.
    run_ops (fifo_op (\<lambda>q v. enqueue std (ws q) q v) (\<lambda>q. dequeue std (ws q) q)) q ps = Some (q', rs) \<and>
    run_ops (fifo_op (\<lambda>b v. bounded_enqueue (us b) b v) (\<lambda>b. bounded_dequeue (us b) b)) b ps = Some (b', rs) \<and>
    contents q' = bq_contents b'"
proof -
  note q = new_wf [OF assms(2)]
  have b: "bq_wf b" "bq_contents b = []" "bq_cap b = 2 ^ k"
    using const_queue_new [OF assms(1), where 'a = 'a] assms(3) by auto
  obtain q' rs where "run_ops (fifo_op (\<lambda>q v. enqueue std (ws q) q v) (\<lambda>q. dequeue std (ws q) q)) q ps =
      Some (q', rs)" "fifo_ref_run (2 ^ k) [] ps = (contents q', rs)"
    using nq.run_refines [OF q(1), of std ws ps] q(2,3) by (auto simp: enqueue_def [abs_def] dequeue_def [abs_def])
  moreover obtain b' rs' where "run_ops (fifo_op (\<lambda>b v. bounded_enqueue (us b) b v)
      (\<lambda>b. bounded_dequeue (us b) b)) b ps = Some (b', rs')" "fifo_ref_run (2 ^ k) [] ps = (bq_contents b', rs')"
    using bq.run_refines [OF b(1), of us ps] b(2,3) by auto
  ultimately show ?thesis by auto
qed

theorem queues_interchangeable_witness:
  "\<exists>b q' b' rs. const_queue (2 ^ 1) = Some b \<and>
    run_ops (fifo_op (\<lambda>q v. enqueue False [] q v) (\<lambda>q. dequeue False [] q)) queue2 [Enq 1, Deq] = Some (q', rs) \<and>
    run_ops (fifo_op (\<lambda>b v. bounded_enqueue (\<lambda>_. []) b v) (\<lambda>b. bounded_dequeue (\<lambda>_. []) b)) b [Enq 1, Deq] =
      Some (b', rs) \<and> contents q' = bq_contents b'"
proof -
  obtain b :: "nat bounded_queue" where b: "const_queue (2 ^ 1) = Some b"
    using const_queue_new [of 1, where 'a = nat] by auto
  have q: "new (2 ^ 1) = Some queue2" using new_two by simp
  from queues_interchangeable [OF _ q b, of False "\<lambda>_. []" "[Enq 1, Deq]" "\<lambda>_ _. []"] b show ?thesis by auto
qed

end
